(* ===== verification/LensorPrelude.thy ===== *)
theory LensorPrelude
  imports Main "HOL-Library.Word"
begin

text \<open>
  The vocabulary every component shares: the fixed-width integer types of
  \<open>kernel/src/integers.h\<close>, the page size of \<open>kernel/src/memory/common.h\<close>, the named
  collections the component proofs draw on, and generic facts on words, lists and folds.
\<close>

unbundle bit_operations_syntax

section \<open>Integer types and constants\<close>

type_synonym u8 = "8 word"
type_synonym u16 = "16 word"
type_synonym u32 = "32 word"
type_synonym u64 = "64 word"

definition PAGE_SIZE :: u64 where
  "PAGE_SIZE = 4096"

definition KiB :: "u64 \<Rightarrow> u64" where
  "KiB x = push_bit 10 x"

definition MiB :: "u64 \<Rightarrow> u64" where
  "MiB x = push_bit 20 x"

definition GiB :: "u64 \<Rightarrow> u64" where
  "GiB x = push_bit 30 x"

section \<open>Collections\<close>

text \<open>
  \<open>kernel_defs\<close> collects the definitions of straight-line operations that a proof may
  unfold; \<open>frame\<close> collects the facts that an operation leaves a field of its state alone;
  \<open>unat_ops\<close> moves word arithmetic to the natural numbers.
\<close>

named_theorems kernel_defs
named_theorems frame
named_theorems unat_ops

section \<open>Words\<close>

lemma unat_PAGE_SIZE [simp]: "unat PAGE_SIZE = 4096"
  by (simp add: PAGE_SIZE_def)

lemma PAGE_SIZE_neq_0 [simp]: "PAGE_SIZE \<noteq> 0"
  by (simp add: PAGE_SIZE_def)

lemma unat_less_2_64 [simp]: "unat (x :: u64) < 18446744073709551616"
  using unsigned_less [of x] by simp

lemma unat_u64_plus: "unat (x + y :: u64) = (unat x + unat y) mod 18446744073709551616"
  by (simp add: unat_word_ariths)

lemma unat_u64_mult: "unat (x * y :: u64) = (unat x * unat y) mod 18446744073709551616"
  by (simp add: unat_word_ariths)

lemma unat_u64_plus_small:
  "unat x + unat y < 18446744073709551616 \<Longrightarrow> unat (x + y :: u64) = unat x + unat y"
  by (simp add: unat_u64_plus)

lemma unat_u64_mult_small:
  "unat x * unat y < 18446744073709551616 \<Longrightarrow> unat (x * y :: u64) = unat x * unat y"
  by (simp add: unat_u64_mult)

lemma unat_u64_minus:
  "y \<le> x \<Longrightarrow> unat (x - y :: u64) = unat x - unat y"
  by (rule unat_sub)

lemma unat_of_nat_u64 [unat_ops]:
  "n < 18446744073709551616 \<Longrightarrow> unat (of_nat n :: u64) = n"
  by (simp add: unsigned_of_nat take_bit_nat_eq_self)

lemma unat_u64_Suc:
  "x < y \<Longrightarrow> unat (x + 1 :: u64) = Suc (unat x)"
proof -
  assume "x < y"
  then have "unat x < unat y" by (simp add: word_less_nat_alt)
  moreover have "unat y < 18446744073709551616" by simp
  ultimately have "unat x + unat (1 :: u64) < 18446744073709551616" by (simp del: unat_less_2_64)
  then show ?thesis by (simp add: unat_u64_plus_small)
qed

lemma u64_less_Suc_mono:
  "x < y \<Longrightarrow> (z :: u64) < x + 1 \<longleftrightarrow> z \<le> x"
  by (simp add: word_less_nat_alt word_le_nat_alt unat_u64_Suc less_Suc_eq_le)

lemma div_mod_u64:
  "(x :: u64) = (x div y) * y + x mod y"
  by (simp add: div_mult_mod_eq)

lemma unat_div_8 [unat_ops]: "unat ((x :: u64) div 8) = unat x div 8"
  by (simp add: unat_div)

lemma unat_mod_8 [unat_ops]: "unat ((x :: u64) mod 8) = unat x mod 8"
  by (simp add: unat_mod)

lemma unat_div_PAGE_SIZE [unat_ops]: "unat ((x :: u64) div PAGE_SIZE) = unat x div 4096"
  by (simp add: unat_div)

lemma unat_mod_PAGE_SIZE [unat_ops]: "unat ((x :: u64) mod PAGE_SIZE) = unat x mod 4096"
  by (simp add: unat_mod)

lemma unat_drop_bit: "unat (drop_bit n (x :: 'a::len word)) = unat x div 2 ^ n"
  unfolding unsigned_drop_bit_eq take_bit_nat_eq_self [OF unsigned_less] by (rule drop_bit_eq_div)

lemma unat_ucast_u8: "unat (ucast (x :: 'a::len word) :: u8) = unat x mod 256"
  by (simp add: unsigned_ucast_eq take_bit_eq_mod)

text \<open>An address that is a page index times the page size loses nothing.\<close>

lemma page_index_inverse:
  assumes "unat i * 4096 < 18446744073709551616"
  shows "(i * PAGE_SIZE) div PAGE_SIZE = i"
proof -
  have "unat (i * PAGE_SIZE) = unat i * 4096"
    using assms by (simp add: unat_u64_mult_small)
  then have "unat ((i * PAGE_SIZE) div PAGE_SIZE) = unat i"
    by (simp add: unat_ops)
  then show ?thesis by (rule word_unat_eq_iff [THEN iffD2])
qed

text \<open>The words below a bound, as a list, so that predicates over them evaluate.\<close>

definition u64_upto :: "u64 \<Rightarrow> u64 list" where
  "u64_upto n = map of_nat [0..<unat n]"

lemma set_u64_upto: "set (u64_upto n) = {i. i < n}"
proof (intro set_eqI iffI)
  fix i assume "i \<in> set (u64_upto n)"
  then obtain k where k: "k < unat n" "i = of_nat k" by (auto simp: u64_upto_def)
  have "k < 18446744073709551616" using k(1) unat_less_2_64 [of n] by (rule less_trans)
  with k show "i \<in> {i. i < n}" by (simp add: word_less_nat_alt unat_of_nat_u64)
next
  fix i assume "i \<in> {i. i < n}"
  then have "unat i < unat n" by (simp add: word_less_nat_alt)
  then show "i \<in> set (u64_upto n)"
    by (auto simp: u64_upto_def intro!: image_eqI [of _ _ "unat i"])
qed

lemma distinct_u64_upto: "distinct (u64_upto n)"
proof -
  have "k < 18446744073709551616" if "k < unat n" for k
    using that unat_less_2_64 [of n] by (rule less_trans)
  then have "inj_on (of_nat :: nat \<Rightarrow> u64) {0..<unat n}"
    by (auto intro!: inj_onI dest!: arg_cong [where f = unat] simp: unat_of_nat_u64)
  then show ?thesis by (simp add: u64_upto_def distinct_map)
qed

lemma all_less_u64 [code_unfold]: "(\<forall>i < n. P i) \<longleftrightarrow> list_all P (u64_upto n)"
  by (auto simp: list_all_iff set_u64_upto)

lemma card_less_u64: "card {i. i < n \<and> P i} = length (filter P (u64_upto n))"
proof -
  have "{i. i < n \<and> P i} = set (filter P (u64_upto n))"
    by (auto simp: set_u64_upto)
  then show ?thesis by (metis distinct_card distinct_filter distinct_u64_upto)
qed

section \<open>Counted loops\<close>

text \<open>
  \<open>for (u64 i = 0; i < n; ++i) body\<close> is a fold over the indices below \<open>n\<close>.
\<close>

definition for_loop :: "nat \<Rightarrow> (nat \<Rightarrow> 's \<Rightarrow> 's) \<Rightarrow> 's \<Rightarrow> 's" where
  "for_loop n body s = fold body [0..<n] s"

lemma for_loop_0 [simp]: "for_loop 0 body s = s"
  by (simp add: for_loop_def)

lemma for_loop_Suc: "for_loop (Suc n) body s = body n (for_loop n body s)"
  by (simp add: for_loop_def)

lemma for_loop_numeral [simp]:
  "for_loop (numeral k) body s = body (pred_numeral k) (for_loop (pred_numeral k) body s)"
  by (simp only: numeral_eq_Suc for_loop_Suc)

text \<open>An invariant of the body is an invariant of the loop.\<close>

lemma for_loop_invariant:
  assumes "P 0 s" and "\<And>i s. i < n \<Longrightarrow> P i s \<Longrightarrow> P (Suc i) (body i s)"
  shows "P n (for_loop n body s)"
  using assms(2)
proof (induction n)
  case 0
  then show ?case using assms(1) by simp
next
  case (Suc n)
  have "P n (for_loop n body s)"
    by (rule Suc.IH) (simp add: Suc.prems)
  then show ?case by (simp add: for_loop_Suc Suc.prems)
qed

lemma for_loop_frame:
  assumes "\<And>i s. i < n \<Longrightarrow> f (body i s) = f s"
  shows "f (for_loop n body s) = f s"
  using for_loop_invariant [where P = "\<lambda>_ t. f t = f s" and n = n and body = body and s = s] assms
  by simp

end
