(* ===== verification/BitmapModel.thy ===== *)
theory BitmapModel
  imports LensorPrelude
begin

text \<open>
  \<open>class Bitmap\<close> of \<open>kernel/src/bitmap.h\<close> and \<open>kernel/src/bitmap.cpp\<close>: a byte count, a byte
  buffer, and bits numbered from the most significant bit of the first byte. \<open>Size\<close> counts
  bytes: \<open>get\<close> and \<open>set\<close> compare a byte index with it.
\<close>

section \<open>The class\<close>

record bitmap =
  Size :: u64
  Buffer :: "u8 list"

definition bitmap_init :: "u64 \<Rightarrow> bitmap" where
  "bitmap_init sz = \<lparr>Size = sz, Buffer = replicate (unat sz) 0\<rparr>"

definition bitmap_length :: "bitmap \<Rightarrow> u64" where
  "bitmap_length bm = Size bm"

definition bitmap_get :: "bitmap \<Rightarrow> u64 \<Rightarrow> bool" where
  "bitmap_get bm index =
     (let byteIndex = index div 8
      in if byteIndex \<ge> Size bm then False
         else let bitIndexer = drop_bit (unat (index mod 8)) (0b10000000 :: u8)
              in Buffer bm ! unat byteIndex AND bitIndexer > 0)"

definition bitmap_set :: "bitmap \<Rightarrow> u64 \<Rightarrow> bool \<Rightarrow> bool \<times> bitmap" where
  "bitmap_set bm index value =
     (let byteIndex = index div 8
      in if byteIndex \<ge> Size bm then (False, bm)
         else let bitIndexer = drop_bit (unat (index mod 8)) (0b10000000 :: u8);
                  cleared = Buffer bm ! unat byteIndex AND NOT bitIndexer;
                  byte = (if value then cleared OR bitIndexer else cleared)
              in (True, bm\<lparr>Buffer := (Buffer bm)[unat byteIndex := byte]\<rparr>))"

text \<open>The buffer holds \<open>Size\<close> bytes.\<close>

definition bitmap_wf :: "bitmap \<Rightarrow> bool" where
  "bitmap_wf bm \<longleftrightarrow> length (Buffer bm) = unat (Size bm)"

definition bitmap_in_range :: "bitmap \<Rightarrow> u64 \<Rightarrow> bool" where
  "bitmap_in_range bm index \<longleftrightarrow> index div 8 < Size bm"

section \<open>The interface: a table of bits\<close>

text \<open>
  What a client of the class relies on. \<open>clear_set b n\<close> are the indices below \<open>n\<close> whose bit
  is clear; the physical memory manager counts them as free pages.
\<close>

locale bit_table =
  fixes get :: "'b \<Rightarrow> u64 \<Rightarrow> bool"
    and set_bit :: "'b \<Rightarrow> u64 \<Rightarrow> bool \<Rightarrow> bool \<times> 'b"
    and in_range :: "'b \<Rightarrow> u64 \<Rightarrow> bool"
    and invar :: "'b \<Rightarrow> bool"
  assumes set_result: "invar b \<Longrightarrow> fst (set_bit b i v) = in_range b i"
    and get_set: "invar b \<Longrightarrow> in_range b i \<Longrightarrow> get (snd (set_bit b i v)) j = (if j = i then v else get b j)"
    and set_out: "\<not> in_range b i \<Longrightarrow> snd (set_bit b i v) = b"
    and get_out: "\<not> in_range b i \<Longrightarrow> \<not> get b i"
    and invar_set: "invar b \<Longrightarrow> invar (snd (set_bit b i v))"
    and in_range_set: "in_range (snd (set_bit b i v)) j = in_range b j"
begin

definition clear_set :: "'b \<Rightarrow> u64 \<Rightarrow> u64 set" where
  "clear_set b n = {i. i < n \<and> \<not> get b i}"

lemma finite_clear_set [simp]: "finite (clear_set b n)"
  by (simp add: clear_set_def)

lemma clear_set_lock:
  "invar b \<Longrightarrow> in_range b i \<Longrightarrow> clear_set (snd (set_bit b i True)) n = clear_set b n - {i}"
  by (auto simp: clear_set_def get_set split: if_splits)

lemma clear_set_free:
  "invar b \<Longrightarrow> in_range b i \<Longrightarrow> i < n \<Longrightarrow>
     clear_set (snd (set_bit b i False)) n = insert i (clear_set b n)"
  by (auto simp: clear_set_def get_set split: if_splits)

lemma card_clear_set_lock:
  "invar b \<Longrightarrow> in_range b i \<Longrightarrow> i < n \<Longrightarrow> \<not> get b i \<Longrightarrow>
     Suc (card (clear_set (snd (set_bit b i True)) n)) = card (clear_set b n)"
  by (subst clear_set_lock, assumption, assumption)
     (rule card_Suc_Diff1, simp_all add: clear_set_def)

lemma card_clear_set_free:
  "invar b \<Longrightarrow> in_range b i \<Longrightarrow> i < n \<Longrightarrow> get b i \<Longrightarrow>
     card (clear_set (snd (set_bit b i False)) n) = Suc (card (clear_set b n))"
  by (subst clear_set_free, assumption, assumption, assumption)
     (subst card_insert_disjoint, simp_all add: clear_set_def)

lemma card_clear_set_bound: "card (clear_set b n) \<le> unat n"
proof -
  have "card (clear_set b n) = card (unat ` clear_set b n)"
    by (rule card_image [symmetric]) (simp add: inj_on_def word_unat_eq_iff)
  also have "\<dots> \<le> card {..<unat n}"
    by (rule card_mono) (auto simp: clear_set_def word_less_nat_alt)
  finally show ?thesis by simp
qed

end

section \<open>The class implements the interface\<close>

lemma bit_indexer_eq:
  assumes "k < 8"
  shows "drop_bit k (0b10000000 :: u8) = 2 ^ (7 - k)"
proof -
  from assms have "k = 0 \<or> k = 1 \<or> k = 2 \<or> k = 3 \<or> k = 4 \<or> k = 5 \<or> k = 6 \<or> k = 7"
    by arith
  then show ?thesis by (elim disjE) simp_all
qed

lemma and_exp_pos_iff: "(x :: u8) AND 2 ^ n > 0 \<longleftrightarrow> bit x n"
  using and_exp_eq_0_iff_not_bit [of x n] by (simp add: word_gt_0)

lemma bitmap_get_iff_bit:
  "bitmap_get bm i \<longleftrightarrow>
     bitmap_in_range bm i \<and> bit (Buffer bm ! (unat i div 8)) (7 - unat i mod 8)"
  by (auto simp: bitmap_get_def bitmap_in_range_def Let_def unat_ops bit_indexer_eq and_exp_pos_iff)

lemma bitmap_set_out: "\<not> bitmap_in_range bm i \<Longrightarrow> bitmap_set bm i v = (False, bm)"
  by (simp add: bitmap_set_def bitmap_in_range_def Let_def)

lemma bitmap_set_in:
  "bitmap_in_range bm i \<Longrightarrow>
     bitmap_set bm i v =
       (True, bm\<lparr>Buffer := (Buffer bm)[unat i div 8 :=
          (if v then (Buffer bm ! (unat i div 8) AND NOT (2 ^ (7 - unat i mod 8))) OR 2 ^ (7 - unat i mod 8)
           else Buffer bm ! (unat i div 8) AND NOT (2 ^ (7 - unat i mod 8)))]\<rparr>)"
  by (auto simp: bitmap_set_def bitmap_in_range_def Let_def unat_ops bit_indexer_eq)

lemma bit_cleared_or:
  "n < 8 \<Longrightarrow> m < 8 \<Longrightarrow>
     bit (if v then (x AND NOT (2 ^ n)) OR 2 ^ n else x AND NOT (2 ^ n) :: u8) m =
     (if m = n then v else bit x m)"
  by (auto simp: bit_simps)

lemma same_bit_iff:
  "(unat (i :: u64) div 8 = unat j div 8 \<and> 7 - unat i mod 8 = 7 - unat j mod 8) \<longleftrightarrow> i = j"
proof -
  have "unat i mod 8 \<le> 7" "unat j mod 8 \<le> 7" by simp_all
  then have "7 - unat i mod 8 = 7 - unat j mod 8 \<longleftrightarrow> unat i mod 8 = unat j mod 8"
    by arith
  moreover have "unat i div 8 = unat j div 8 \<and> unat i mod 8 = unat j mod 8 \<longleftrightarrow> unat i = unat j"
    by (metis div_mult_mod_eq)
  ultimately show ?thesis by (simp add: word_unat_eq_iff)
qed

lemma bitmap_get_set:
  assumes "bitmap_wf bm" and "bitmap_in_range bm i"
  shows "bitmap_get (snd (bitmap_set bm i v)) j = (if j = i then v else bitmap_get bm j)"
proof -
  have len: "unat i div 8 < length (Buffer bm)"
    using assms by (simp add: bitmap_wf_def bitmap_in_range_def word_less_nat_alt unat_ops)
  have range: "bitmap_in_range (snd (bitmap_set bm i v)) j = bitmap_in_range bm j"
    using assms(2) by (simp add: bitmap_set_in) (simp add: bitmap_in_range_def)
  show ?thesis
  proof (cases "unat i div 8 = unat j div 8")
    case True
    then have jr: "bitmap_in_range bm j"
      using assms(2) by (simp add: bitmap_in_range_def word_less_nat_alt unat_ops)
    have bnd: "7 - unat j mod 8 < 8" "7 - unat i mod 8 < 8" by simp_all
    have eq: "7 - unat j mod 8 = 7 - unat i mod 8 \<longleftrightarrow> j = i"
      using True same_bit_iff [of i j] by auto
    show ?thesis
      unfolding bitmap_get_iff_bit range
      using len jr assms(2) True bnd
      by (simp add: bitmap_set_in bit_cleared_or eq del: if_split)
  next
    case False
    then have "j \<noteq> i" by auto
    then show ?thesis
      unfolding bitmap_get_iff_bit range
      using False assms(2) by (simp add: bitmap_set_in)
  qed
qed

lemma bitmap_wf_set [simp]: "bitmap_wf bm \<Longrightarrow> bitmap_wf (snd (bitmap_set bm i v))"
  by (simp add: bitmap_wf_def bitmap_set_def Let_def)

lemma bitmap_Size_set [frame, simp]: "Size (snd (bitmap_set bm i v)) = Size bm"
  by (simp add: bitmap_set_def Let_def)

lemma bitmap_in_range_set [simp]:
  "bitmap_in_range (snd (bitmap_set bm i v)) j = bitmap_in_range bm j"
  by (simp add: bitmap_in_range_def)

interpretation bm: bit_table bitmap_get bitmap_set bitmap_in_range bitmap_wf
proof unfold_locales
  fix b i v
  show "fst (bitmap_set b i v) = bitmap_in_range b i"
    by (simp add: bitmap_set_def bitmap_in_range_def Let_def leD not_le [symmetric])
  show "\<not> bitmap_in_range b i \<Longrightarrow> snd (bitmap_set b i v) = b"
    by (simp add: bitmap_set_out)
  show "\<not> bitmap_in_range b i \<Longrightarrow> \<not> bitmap_get b i"
    by (simp add: bitmap_get_iff_bit)
qed (simp_all add: bitmap_get_set)

text \<open>A freshly initialised bitmap has every bit clear.\<close>

lemma bitmap_wf_init [simp]: "bitmap_wf (bitmap_init sz)"
  by (simp add: bitmap_wf_def bitmap_init_def)

lemma bitmap_get_init [simp]: "\<not> bitmap_get (bitmap_init sz) i"
  by (auto simp: bitmap_get_def bitmap_init_def Let_def word_less_nat_alt not_le)

lemma bitmap_in_range_init [simp]:
  "bitmap_in_range (bitmap_init sz) i \<longleftrightarrow> i div 8 < sz"
  by (simp add: bitmap_in_range_def bitmap_init_def)

end
