(* ===== verification/PhysicalMemory.thy ===== *)
theory PhysicalMemory
  imports BitmapModel
begin

text \<open>
  The page frame allocator of \<open>kernel/src/memory/physical_memory_manager.cpp\<close>: a bitmap with
  one bit per page (set means locked), the page counters, and the hint \<open>FirstFreePage\<close>. The
  globals of the file are the fields of one record. A null pointer is address 0; \<open>panic\<close>
  prints and returns, so the callers go on with the null pointer it is followed by.
\<close>

section \<open>State and operations\<close>

record pmm =
  PageMap :: bitmap
  TotalPages :: u64
  TotalFreePages :: u64
  TotalUsedPages :: u64
  MaxFreePagesInARow :: u64
  FirstFreePage :: u64

definition total_ram :: "pmm \<Rightarrow> u64" where
  "total_ram s = TotalPages s * PAGE_SIZE"

definition free_ram :: "pmm \<Rightarrow> u64" where
  "free_ram s = TotalFreePages s * PAGE_SIZE"

definition used_ram :: "pmm \<Rightarrow> u64" where
  "used_ram s = TotalUsedPages s * PAGE_SIZE"

definition lock_page :: "u64 \<Rightarrow> pmm \<Rightarrow> pmm" where
  "lock_page address s =
     (let index = address div PAGE_SIZE
      in if bitmap_get (PageMap s) index then s
         else let (ok, pm) = bitmap_set (PageMap s) index True
              in if ok then s\<lparr>PageMap := pm, TotalFreePages := TotalFreePages s - 1,
                             TotalUsedPages := TotalUsedPages s + 1\<rparr>
                 else s)"

definition lock_pages :: "u64 \<Rightarrow> u64 \<Rightarrow> pmm \<Rightarrow> pmm" where
  "lock_pages address numberOfPages s =
     for_loop (unat numberOfPages) (\<lambda>i. lock_page (address + of_nat i * PAGE_SIZE)) s"

definition free_page_impl :: "u64 \<Rightarrow> pmm \<Rightarrow> pmm" where
  "free_page_impl address s =
     (let index = address div PAGE_SIZE;
          (ok, pm) = bitmap_set (PageMap s) index False
      in if ok
         then s\<lparr>PageMap := pm,
               FirstFreePage := (if index < FirstFreePage s then index else FirstFreePage s),
               TotalUsedPages := TotalUsedPages s - 1,
               TotalFreePages := TotalFreePages s + 1\<rparr>
         else s)"

definition free_page :: "u64 \<Rightarrow> pmm \<Rightarrow> pmm" where
  "free_page address s = free_page_impl address s"

definition free_pages :: "u64 \<Rightarrow> u64 \<Rightarrow> pmm \<Rightarrow> pmm" where
  "free_pages address numberOfPages s =
     for_loop (unat numberOfPages) (\<lambda>i. free_page_impl (address + of_nat i * PAGE_SIZE)) s"

text \<open>
  \<open>request_page\<close>: the loop advances the global hint itself; after the last page it panics and
  returns null.
\<close>

function request_page :: "pmm \<Rightarrow> u64 \<times> pmm" where
  "request_page s =
     (if FirstFreePage s < TotalPages s
      then if \<not> bitmap_get (PageMap s) (FirstFreePage s)
           then let addr = FirstFreePage s * PAGE_SIZE;
                    s' = lock_page addr s
                in (addr, s'\<lparr>FirstFreePage := FirstFreePage s' + 1\<rparr>)
           else request_page (s\<lparr>FirstFreePage := FirstFreePage s + 1\<rparr>)
      else (0, s))"
  by pat_completeness auto
termination
  by (relation "measure (\<lambda>s. unat (TotalPages s) - unat (FirstFreePage s))")
     (auto simp: unat_u64_Suc word_less_nat_alt)

declare request_page.simps [simp del]

lemma u64_distance_decreases:
  fixes j len :: u64
  assumes "j < len"
  shows "unat (len - (j + 1)) < unat (len - j)"
proof -
  have s: "unat (j + 1) = Suc (unat j)" by (rule unat_u64_Suc [OF assms])
  have le: "j + 1 \<le> len"
    using assms s by (simp add: word_le_nat_alt word_less_nat_alt)
  have "unat (len - j) = unat len - unat j"
    using assms by (simp add: unat_u64_minus)
  then show ?thesis
    using assms s by (simp add: unat_u64_minus [OF le] word_less_nat_alt)
qed

lemma run_scan_measure:
  fixes len index :: u64
  assumes "\<not> len \<le> index + 1"
  shows "unat (len - (2 + index)) < unat (len - (index + 1))"
  using u64_distance_decreases [of "index + 1" len] assms by (simp add: add.commute add.left_commute)

text \<open>
  The inner loop of \<open>request_pages\<close>: it counts free pages from \<open>index\<close> on. It leaves with the
  panic when \<open>index\<close> reaches \<open>PageMap.length()\<close>, with success when the run is long enough, or
  at the first locked page.
\<close>

datatype run_result = RunPanic | RunFound | RunStopped u64

function run_scan :: "bitmap \<Rightarrow> u64 \<Rightarrow> u64 \<Rightarrow> u64 \<Rightarrow> run_result" where
  "run_scan pm numberOfPages index run =
     (if bitmap_get pm index then RunStopped index
      else let run' = run + 1; index' = index + 1
           in if index' \<ge> bitmap_length pm then RunPanic
              else if run' \<ge> numberOfPages then RunFound
              else run_scan pm numberOfPages index' run')"
  by pat_completeness auto

termination
  by (relation "measure (\<lambda>(pm, n, index, run). unat (bitmap_length pm - (index + 1)))")
     (auto intro: run_scan_measure)

declare run_scan.simps [simp del]

lemma run_scan_stopped:
  "run_scan pm n i r = RunStopped k \<Longrightarrow> \<not> bitmap_get pm i \<Longrightarrow> i < bitmap_length pm \<Longrightarrow>
     i < k \<and> k < bitmap_length pm"
proof (induction pm n i r rule: run_scan.induct)
  case (1 pm n i r)
  from "1.prems" have lt: "i + 1 < bitmap_length pm"
    and eq: "run_scan pm n (i + 1) (r + 1) = RunStopped k"
    by (auto simp: run_scan.simps [of pm n i r] Let_def split: if_splits)
  have less: "i < i + 1"
    using unat_u64_Suc [OF "1.prems"(3)] by (simp add: word_less_nat_alt)
  show ?case
  proof (cases "bitmap_get pm (i + 1)")
    case True
    with eq have "k = i + 1" by (simp add: run_scan.simps [of pm n "i + 1"])
    with lt less show ?thesis by simp
  next
    case False
    have "i + 1 < k \<and> k < bitmap_length pm"
      by (rule "1.IH" [OF _ refl refl _ _ eq False lt])
         (use "1.prems" lt eq in \<open>auto simp: run_scan.simps [of pm n i r] Let_def split: if_splits\<close>)
    with less show ?thesis by auto
  qed
qed

text \<open>The outer loop resumes after the locked page that ended the run.\<close>

function request_pages_loop :: "u64 \<Rightarrow> u64 \<Rightarrow> pmm \<Rightarrow> u64 \<times> pmm" where
  "request_pages_loop numberOfPages i s =
     (if i < bitmap_length (PageMap s)
      then if bitmap_get (PageMap s) i then request_pages_loop numberOfPages (i + 1) s
           else case run_scan (PageMap s) numberOfPages i 0 of
                  RunPanic \<Rightarrow> (0, s)
                | RunFound \<Rightarrow> (i * PAGE_SIZE, lock_pages (i * PAGE_SIZE) numberOfPages s)
                | RunStopped index \<Rightarrow> request_pages_loop numberOfPages (index + 1) s
      else (0, s))"
  by pat_completeness auto
termination
proof (relation "measure (\<lambda>(n, i, s). unat (bitmap_length (PageMap s)) - unat i)", goal_cases)
  case 1
  then show ?case by simp
next
  case (2 n i s)
  then show ?case by (auto simp: unat_u64_Suc word_less_nat_alt)
next
  case (3 n i s k)
  have "i < k" "k < bitmap_length (PageMap s)"
    using run_scan_stopped [OF 3(3) 3(2) 3(1)] by simp_all
  with 3(1) show ?case by (auto simp: unat_u64_Suc word_less_nat_alt)
qed

declare request_pages_loop.simps [simp del]

definition request_pages :: "u64 \<Rightarrow> pmm \<Rightarrow> u64 \<times> pmm" where
  "request_pages numberOfPages s =
     (if numberOfPages = 0 then (0, s)
      else if numberOfPages = 1 then request_page s
      else if numberOfPages > TotalFreePages s then (0, s)
      else if numberOfPages > MaxFreePagesInARow s then (0, s)
      else request_pages_loop numberOfPages (FirstFreePage s) s)"

section \<open>The allocator's invariant\<close>

text \<open>
  The bitmap covers pages \<open>0\<close> to \<open>TotalPages\<close>, every page below the hint is locked, and the
  two counters count the clear and the set bits of those \<open>TotalPages + 1\<close> pages.
\<close>

definition pmm_inv :: "pmm \<Rightarrow> bool" where
  "pmm_inv s \<longleftrightarrow>
     bitmap_wf (PageMap s) \<and>
     Size (PageMap s) = TotalPages s div 8 + 1 \<and>
     TotalPages s < 4503599627370495 \<and>
     FirstFreePage s \<le> TotalPages s \<and>
     (\<forall>i < FirstFreePage s. bitmap_get (PageMap s) i) \<and>
     TotalFreePages s = of_nat (card (bm.clear_set (PageMap s) (TotalPages s + 1))) \<and>
     TotalFreePages s + TotalUsedPages s = TotalPages s + 1"

lemma pmm_inv_TotalPages: "pmm_inv s \<Longrightarrow> unat (TotalPages s) + 1 < 4503599627370496"
  by (simp add: pmm_inv_def word_less_nat_alt)

lemma TotalPages_Suc:
  "pmm_inv s \<Longrightarrow> unat (TotalPages s + 1) = Suc (unat (TotalPages s))"
  using pmm_inv_TotalPages [of s] by (simp add: unat_u64_plus_small)

lemma less_TotalPages_Suc [simp]:
  "pmm_inv s \<Longrightarrow> i < TotalPages s + 1 \<longleftrightarrow> i \<le> TotalPages s"
  by (simp add: word_less_nat_alt word_le_nat_alt TotalPages_Suc less_Suc_eq_le)

lemma pmm_inv_in_range:
  assumes "pmm_inv s" and "i \<le> TotalPages s"
  shows "bitmap_in_range (PageMap s) i"
proof -
  have "unat (TotalPages s) + 1 < 4503599627370496"
    by (rule pmm_inv_TotalPages [OF assms(1)])
  then have "unat (TotalPages s div 8 + 1) = unat (TotalPages s) div 8 + 1"
    by (subst unat_u64_plus_small) (simp_all add: unat_ops)
  moreover have "unat i div 8 \<le> unat (TotalPages s) div 8"
    using assms(2) by (simp add: word_le_nat_alt div_le_mono)
  ultimately show ?thesis
    using assms(1) by (simp add: bitmap_in_range_def pmm_inv_def word_less_nat_alt unat_ops)
qed

lemma pmm_inv_wf: "pmm_inv s \<Longrightarrow> bitmap_wf (PageMap s)"
  by (simp add: pmm_inv_def)

lemma page_address_index:
  assumes "pmm_inv s" and "i \<le> TotalPages s"
  shows "(i * PAGE_SIZE) div PAGE_SIZE = i"
  using assms pmm_inv_TotalPages [OF assms(1)] by (intro page_index_inverse) (simp add: word_le_nat_alt)

subsection \<open>One page\<close>

lemma lock_page_eq:
  assumes "pmm_inv s" and "a div PAGE_SIZE \<le> TotalPages s"
  shows "lock_page a s =
     (if bitmap_get (PageMap s) (a div PAGE_SIZE) then s
      else s\<lparr>PageMap := snd (bitmap_set (PageMap s) (a div PAGE_SIZE) True),
            TotalFreePages := TotalFreePages s - 1, TotalUsedPages := TotalUsedPages s + 1\<rparr>)"
  using bm.set_result [OF pmm_inv_wf [OF assms(1)], of "a div PAGE_SIZE" True]
        pmm_inv_in_range [OF assms]
  by (simp add: lock_page_def Let_def split_beta)

lemma free_page_impl_eq:
  assumes "pmm_inv s" and "a div PAGE_SIZE \<le> TotalPages s"
  shows "free_page_impl a s =
     s\<lparr>PageMap := snd (bitmap_set (PageMap s) (a div PAGE_SIZE) False),
       FirstFreePage := (if a div PAGE_SIZE < FirstFreePage s then a div PAGE_SIZE else FirstFreePage s),
       TotalUsedPages := TotalUsedPages s - 1,
       TotalFreePages := TotalFreePages s + 1\<rparr>"
  using bm.set_result [OF pmm_inv_wf [OF assms(1)], of "a div PAGE_SIZE" False]
        pmm_inv_in_range [OF assms]
  by (simp add: free_page_impl_def Let_def split_beta)

lemma get_lock_page:
  assumes "pmm_inv s" and "a div PAGE_SIZE \<le> TotalPages s"
  shows "bitmap_get (PageMap (lock_page a s)) j \<longleftrightarrow> j = a div PAGE_SIZE \<or> bitmap_get (PageMap s) j"
  using assms pmm_inv_in_range [OF assms]
  by (auto simp: lock_page_eq bitmap_get_set pmm_inv_wf)

lemma get_free_page_impl:
  assumes "pmm_inv s" and "a div PAGE_SIZE \<le> TotalPages s"
  shows "bitmap_get (PageMap (free_page_impl a s)) j \<longleftrightarrow> j \<noteq> a div PAGE_SIZE \<and> bitmap_get (PageMap s) j"
  using assms pmm_inv_in_range [OF assms]
  by (auto simp: free_page_impl_eq bitmap_get_set pmm_inv_wf)

lemma lock_page_frame [frame, simp]:
  "TotalPages (lock_page a s) = TotalPages s"
  "FirstFreePage (lock_page a s) = FirstFreePage s"
  "MaxFreePagesInARow (lock_page a s) = MaxFreePagesInARow s"
  "Size (PageMap (lock_page a s)) = Size (PageMap s)"
  using bitmap_Size_set [of "PageMap s" "a div PAGE_SIZE" True]
  by (simp_all add: lock_page_def Let_def split_beta)

lemma free_page_impl_frame [frame, simp]:
  "TotalPages (free_page_impl a s) = TotalPages s"
  "MaxFreePagesInARow (free_page_impl a s) = MaxFreePagesInARow s"
  "Size (PageMap (free_page_impl a s)) = Size (PageMap s)"
  using bitmap_Size_set [of "PageMap s" "a div PAGE_SIZE" False]
  by (simp_all add: free_page_impl_def Let_def split_beta)

lemma lock_page_inv:
  assumes "pmm_inv s" and "a div PAGE_SIZE \<le> TotalPages s"
  shows "pmm_inv (lock_page a s)"
proof (cases "bitmap_get (PageMap s) (a div PAGE_SIZE)")
  case True
  then show ?thesis using assms by (simp add: lock_page_eq)
next
  case False
  let ?i = "a div PAGE_SIZE" and ?n = "TotalPages s + 1"
  have "Suc (card (bm.clear_set (snd (bitmap_set (PageMap s) ?i True)) ?n))
        = card (bm.clear_set (PageMap s) ?n)"
    using assms False by (intro bm.card_clear_set_lock) (auto simp: pmm_inv_wf pmm_inv_in_range)
  moreover have "TotalFreePages s = of_nat (card (bm.clear_set (PageMap s) ?n))"
    using assms(1) by (simp add: pmm_inv_def)
  ultimately have cnt: "of_nat (card (bm.clear_set (snd (bitmap_set (PageMap s) ?i True)) ?n))
      = TotalFreePages s - 1"
    by (metis add_diff_cancel_left' of_nat_Suc)
  have "\<forall>j < FirstFreePage s. bitmap_get (snd (bitmap_set (PageMap s) ?i True)) j"
    using assms pmm_inv_in_range [OF assms] by (simp add: bitmap_get_set pmm_inv_def)
  then show ?thesis
    using assms(1) False cnt by (simp add: lock_page_eq [OF assms]) (auto simp: pmm_inv_def)
qed

lemma free_page_impl_inv:
  assumes "pmm_inv s" and "a div PAGE_SIZE \<le> TotalPages s"
    and "bitmap_get (PageMap s) (a div PAGE_SIZE)"
  shows "pmm_inv (free_page_impl a s)"
proof -
  let ?i = "a div PAGE_SIZE" and ?n = "TotalPages s + 1"
  have "card (bm.clear_set (snd (bitmap_set (PageMap s) ?i False)) ?n)
        = Suc (card (bm.clear_set (PageMap s) ?n))"
    using assms by (intro bm.card_clear_set_free) (auto simp: pmm_inv_wf pmm_inv_in_range)
  moreover have "bitmap_get (snd (bitmap_set (PageMap s) ?i False)) j"
    if "j < (if ?i < FirstFreePage s then ?i else FirstFreePage s)" for j
    using that assms(1) pmm_inv_in_range [OF assms(1,2)]
    by (auto simp: bitmap_get_set pmm_inv_def split: if_splits)
  ultimately show ?thesis
    using assms(1,2) by (auto simp: free_page_impl_eq [OF assms(1,2)] pmm_inv_def add.commute)
qed

subsection \<open>Runs of pages\<close>

text \<open>The indices of a run of \<open>n\<close> pages from page \<open>i\<close> on.\<close>

definition page_run :: "u64 \<Rightarrow> u64 \<Rightarrow> u64 set" where
  "page_run i n = {j. unat i \<le> unat j \<and> unat j < unat i + unat n}"

lemma run_address_index:
  assumes "pmm_inv s" and "unat i + k \<le> unat (TotalPages s)"
  shows "(i * PAGE_SIZE + of_nat k * PAGE_SIZE) div PAGE_SIZE = i + of_nat k"
    and "unat (i + of_nat k) = unat i + k"
proof -
  have bound: "unat i + k < 4503599627370496"
    using assms pmm_inv_TotalPages [OF assms(1)] by simp
  then show k: "unat (i + of_nat k) = unat i + k"
    by (simp add: unat_u64_plus_small unat_of_nat_u64)
  have "((i + of_nat k) * PAGE_SIZE) div PAGE_SIZE = i + of_nat k"
    using bound by (intro page_index_inverse) (simp add: k)
  then show "(i * PAGE_SIZE + of_nat k * PAGE_SIZE) div PAGE_SIZE = i + of_nat k"
    by (simp add: algebra_simps)
qed

lemma lock_pages_frame [frame, simp]:
  "TotalPages (lock_pages a n s) = TotalPages s"
  "FirstFreePage (lock_pages a n s) = FirstFreePage s"
  "MaxFreePagesInARow (lock_pages a n s) = MaxFreePagesInARow s"
  "Size (PageMap (lock_pages a n s)) = Size (PageMap s)"
  unfolding lock_pages_def
  by (rule for_loop_frame, simp)
     (rule for_loop_frame, simp,
      rule for_loop_frame, simp,
      rule for_loop_frame [where f = "\<lambda>s. Size (PageMap s)"], simp)

lemma free_pages_frame [frame, simp]:
  "TotalPages (free_pages a n s) = TotalPages s"
  "MaxFreePagesInARow (free_pages a n s) = MaxFreePagesInARow s"
  "Size (PageMap (free_pages a n s)) = Size (PageMap s)"
  unfolding free_pages_def
  by (rule for_loop_frame, simp)
     (rule for_loop_frame, simp,
      rule for_loop_frame [where f = "\<lambda>s. Size (PageMap s)"], simp)

lemma lock_pages_spec:
  assumes "pmm_inv s" and "unat i + unat n \<le> Suc (unat (TotalPages s))"
  shows "pmm_inv (lock_pages (i * PAGE_SIZE) n s)"
    and "bitmap_get (PageMap (lock_pages (i * PAGE_SIZE) n s)) j \<longleftrightarrow>
           j \<in> page_run i n \<or> bitmap_get (PageMap s) j"
proof -
  let ?P = "\<lambda>k t. pmm_inv t \<and> TotalPages t = TotalPages s \<and>
     (\<forall>j. bitmap_get (PageMap t) j \<longleftrightarrow>
        (unat i \<le> unat j \<and> unat j < unat i + k) \<or> bitmap_get (PageMap s) j)"
  have "?P (unat n) (for_loop (unat n) (\<lambda>k. lock_page (i * PAGE_SIZE + of_nat k * PAGE_SIZE)) s)"
  proof (rule for_loop_invariant [where P = ?P])
    show "?P 0 s" using assms(1) by auto
  next
    fix k t
    assume k: "k < unat n" and P: "?P k t"
    have le: "unat i + k \<le> unat (TotalPages t)" using k P assms(2) by auto
    note idx = run_address_index [OF conjunct1 [OF P] le]
    have "i + of_nat k \<le> TotalPages t" using idx(2) le by (simp add: word_le_nat_alt)
    then have ok: "(i * PAGE_SIZE + of_nat k * PAGE_SIZE) div PAGE_SIZE \<le> TotalPages t"
      by (simp only: idx(1))
    have "j = i + of_nat k \<longleftrightarrow> unat j = unat i + k" for j
      using idx(2) by (auto simp: word_unat_eq_iff)
    then show "?P (Suc k) (lock_page (i * PAGE_SIZE + of_nat k * PAGE_SIZE) t)"
      using P by (auto simp: lock_page_inv [OF _ ok] get_lock_page [OF _ ok] idx(1) less_Suc_eq)
  qed
  then show "pmm_inv (lock_pages (i * PAGE_SIZE) n s)"
    and "bitmap_get (PageMap (lock_pages (i * PAGE_SIZE) n s)) j \<longleftrightarrow>
           j \<in> page_run i n \<or> bitmap_get (PageMap s) j"
    by (simp_all add: lock_pages_def page_run_def)
qed

lemma free_pages_spec:
  assumes "pmm_inv s" and "unat i + unat n \<le> Suc (unat (TotalPages s))"
    and "\<And>j. j \<in> page_run i n \<Longrightarrow> bitmap_get (PageMap s) j"
  shows "pmm_inv (free_pages (i * PAGE_SIZE) n s)"
    and "bitmap_get (PageMap (free_pages (i * PAGE_SIZE) n s)) j \<longleftrightarrow>
           j \<notin> page_run i n \<and> bitmap_get (PageMap s) j"
proof -
  let ?P = "\<lambda>k t. pmm_inv t \<and> TotalPages t = TotalPages s \<and>
     (\<forall>j. bitmap_get (PageMap t) j \<longleftrightarrow>
        \<not> (unat i \<le> unat j \<and> unat j < unat i + k) \<and> bitmap_get (PageMap s) j)"
  have "?P (unat n) (for_loop (unat n) (\<lambda>k. free_page_impl (i * PAGE_SIZE + of_nat k * PAGE_SIZE)) s)"
  proof (rule for_loop_invariant [where P = ?P])
    show "?P 0 s" using assms(1) by auto
  next
    fix k t
    assume k: "k < unat n" and P: "?P k t"
    have le: "unat i + k \<le> unat (TotalPages t)" using k P assms(2) by auto
    note idx = run_address_index [OF conjunct1 [OF P] le]
    have "i + of_nat k \<le> TotalPages t" using idx(2) le by (simp add: word_le_nat_alt)
    then have ok: "(i * PAGE_SIZE + of_nat k * PAGE_SIZE) div PAGE_SIZE \<le> TotalPages t"
      by (simp only: idx(1))
    have "bitmap_get (PageMap s) (i + of_nat k)"
      using k idx(2) by (intro assms(3)) (simp add: page_run_def)
    then have locked: "bitmap_get (PageMap t) ((i * PAGE_SIZE + of_nat k * PAGE_SIZE) div PAGE_SIZE)"
      using P idx by simp
    have "j = i + of_nat k \<longleftrightarrow> unat j = unat i + k" for j
      using idx(2) by (auto simp: word_unat_eq_iff)
    then show "?P (Suc k) (free_page_impl (i * PAGE_SIZE + of_nat k * PAGE_SIZE) t)"
      using P by (auto simp: free_page_impl_inv [OF _ ok locked] get_free_page_impl [OF _ ok] idx(1) less_Suc_eq)
  qed
  then show "pmm_inv (free_pages (i * PAGE_SIZE) n s)"
    and "bitmap_get (PageMap (free_pages (i * PAGE_SIZE) n s)) j \<longleftrightarrow>
           j \<notin> page_run i n \<and> bitmap_get (PageMap s) j"
    by (simp_all add: free_pages_def page_run_def)
qed

section \<open>Allocating one page\<close>

text \<open>The pages \<open>request_page\<close> may hand out.\<close>

definition allocatable :: "pmm \<Rightarrow> u64 set" where
  "allocatable s = bm.clear_set (PageMap s) (TotalPages s)"

lemma mem_allocatable:
  "i \<in> allocatable s \<longleftrightarrow> i < TotalPages s \<and> \<not> bitmap_get (PageMap s) i"
  by (simp add: allocatable_def bm.clear_set_def)

lemma finite_allocatable [simp]: "finite (allocatable s)"
  by (simp add: allocatable_def)

lemma FirstFreePage_advance_inv:
  assumes "pmm_inv s" and "FirstFreePage s < TotalPages s"
    and "bitmap_get (PageMap s) (FirstFreePage s)"
  shows "pmm_inv (s\<lparr>FirstFreePage := FirstFreePage s + 1\<rparr>)"
proof -
  have "FirstFreePage s + 1 \<le> TotalPages s"
    using assms(2) unat_u64_Suc [OF assms(2)] by (simp add: word_le_nat_alt word_less_nat_alt)
  moreover have "bitmap_get (PageMap s) i" if "i < FirstFreePage s + 1" for i
    using that assms u64_less_Suc_mono [OF assms(2), of i]
    by (cases "i = FirstFreePage s") (auto simp: pmm_inv_def)
  ultimately show ?thesis using assms(1) by (auto simp: pmm_inv_def)
qed

lemma FirstFreePage_is_Min:
  assumes "pmm_inv s" and "FirstFreePage s < TotalPages s"
    and "\<not> bitmap_get (PageMap s) (FirstFreePage s)"
  shows "Min (allocatable s) = FirstFreePage s" and "allocatable s \<noteq> {}"
proof -
  have mem: "FirstFreePage s \<in> allocatable s"
    using assms by (simp add: mem_allocatable)
  moreover have "FirstFreePage s \<le> i" if "i \<in> allocatable s" for i
    using that assms(1) by (auto simp: mem_allocatable pmm_inv_def not_less [symmetric])
  ultimately show "Min (allocatable s) = FirstFreePage s"
    by (intro Min_eqI) simp_all
  show "allocatable s \<noteq> {}" using mem by auto
qed

lemma request_page_None:
  assumes "pmm_inv s" and "\<not> FirstFreePage s < TotalPages s"
  shows "allocatable s = {}"
  using assms by (auto simp: mem_allocatable pmm_inv_def)

lemma request_page_spec:
  assumes "pmm_inv s"
  shows "pmm_inv (snd (request_page s))
    \<and> TotalPages (snd (request_page s)) = TotalPages s
    \<and> MaxFreePagesInARow (snd (request_page s)) = MaxFreePagesInARow s
    \<and> (allocatable s = {} \<longrightarrow> fst (request_page s) = 0 \<and> PageMap (snd (request_page s)) = PageMap s)
    \<and> (allocatable s \<noteq> {} \<longrightarrow>
         fst (request_page s) = Min (allocatable s) * PAGE_SIZE \<and>
         (\<forall>j. bitmap_get (PageMap (snd (request_page s))) j \<longleftrightarrow>
               j = Min (allocatable s) \<or> bitmap_get (PageMap s) j))"
  using assms
proof (induction s rule: request_page.induct)
  case (1 s)
  consider (out) "\<not> FirstFreePage s < TotalPages s"
    | (found) "FirstFreePage s < TotalPages s" "\<not> bitmap_get (PageMap s) (FirstFreePage s)"
    | (skip) "FirstFreePage s < TotalPages s" "bitmap_get (PageMap s) (FirstFreePage s)"
    by blast
  then show ?case
  proof cases
    case out
    then show ?thesis
      using "1.prems" request_page_None [OF "1.prems" out]
      by (simp add: request_page.simps [of s])
  next
    case found
    let ?f = "FirstFreePage s"
    have le: "?f \<le> TotalPages s" using found(1) by simp
    have idx: "(?f * PAGE_SIZE) div PAGE_SIZE = ?f"
      by (rule page_address_index [OF "1.prems" le])
    then have ok: "(?f * PAGE_SIZE) div PAGE_SIZE \<le> TotalPages s" using le by simp
    have inv: "pmm_inv (lock_page (?f * PAGE_SIZE) s)" by (rule lock_page_inv [OF "1.prems" ok])
    have get: "bitmap_get (PageMap (lock_page (?f * PAGE_SIZE) s)) j \<longleftrightarrow> j = ?f \<or> bitmap_get (PageMap s) j" for j
      using get_lock_page [OF "1.prems" ok, of j] by (simp add: idx)
    have "pmm_inv ((lock_page (?f * PAGE_SIZE) s)\<lparr>FirstFreePage := FirstFreePage (lock_page (?f * PAGE_SIZE) s) + 1\<rparr>)"
      by (rule FirstFreePage_advance_inv [OF inv]) (simp_all add: found get)
    then show ?thesis
      using found FirstFreePage_is_Min [OF "1.prems" found] get
      by (simp add: request_page.simps [of s] Let_def)
  next
    case skip
    let ?t = "s\<lparr>FirstFreePage := FirstFreePage s + 1\<rparr>"
    have "allocatable ?t = allocatable s" by (simp add: allocatable_def)
    then show ?thesis
      using "1.IH" [OF skip(1) _ FirstFreePage_advance_inv [OF "1.prems" skip]] skip
      by (simp add: request_page.simps [of s])
  qed
qed

section \<open>Allocating a run of pages\<close>

lemma run_scan_spec:
  "i < bitmap_length pm \<Longrightarrow> r < n \<Longrightarrow>
   (case run_scan pm n i r of
      RunFound \<Rightarrow> unat i + (unat n - unat r) < unat (bitmap_length pm) \<and>
        (\<forall>j. unat i \<le> unat j \<and> unat j < unat i + (unat n - unat r) \<longrightarrow> \<not> bitmap_get pm j)
    | RunPanic \<Rightarrow> unat r + (unat (bitmap_length pm) - unat i) \<le> unat n
    | RunStopped k \<Rightarrow> i \<le> k \<and> k < bitmap_length pm \<and> bitmap_get pm k \<and>
        unat r + (unat k - unat i) < unat n)"
proof (induction pm n i r rule: run_scan.induct)
  case (1 pm n i r)
  let ?len = "bitmap_length pm"
  have i: "unat (i + 1) = Suc (unat i)" by (rule unat_u64_Suc [OF "1.prems"(1)])
  have r: "unat (r + 1) = Suc (unat r)" by (rule unat_u64_Suc [OF "1.prems"(2)])
  have lt: "unat i < unat ?len" "unat r < unat n"
    using "1.prems" by (simp_all add: word_less_nat_alt)
  have head: "unat i \<le> unat j \<and> unat j < unat i + m \<longleftrightarrow>
      j = i \<and> 0 < m \<or> Suc (unat i) \<le> unat j \<and> unat j < unat i + m" for j m
    by (auto simp: word_unat_eq_iff)
  consider (stop) "bitmap_get pm i"
    | (panic) "\<not> bitmap_get pm i" "?len \<le> i + 1"
    | (found) "\<not> bitmap_get pm i" "\<not> ?len \<le> i + 1" "n \<le> r + 1"
    | (more) "\<not> bitmap_get pm i" "\<not> ?len \<le> i + 1" "\<not> n \<le> r + 1"
    by blast
  then show ?case
  proof cases
    case stop
    then show ?thesis using "1.prems" lt by (simp add: run_scan.simps [of pm n i r])
  next
    case panic
    then show ?thesis
      using lt i by (simp add: run_scan.simps [of pm n i r] word_le_nat_alt)
  next
    case found
    then have "unat n - unat r = 1" using lt r by (simp add: word_le_nat_alt)
    moreover have "\<not> bitmap_get pm j" if "unat i \<le> unat j" "unat j < Suc (unat i)" for j
      using that found(1) head [of j 1] by auto
    ultimately show ?thesis
      using found lt i by (simp add: run_scan.simps [of pm n i r] word_le_nat_alt)
  next
    case more
    have "i + 1 < ?len" "r + 1 < n" using more by simp_all
    note IH = "1.IH" [OF more(1) refl refl more(2,3) this]
    have step: "run_scan pm n i r = run_scan pm n (i + 1) (r + 1)"
      using more by (simp add: run_scan.simps [of pm n i r])
    have lt': "Suc (unat i) < unat ?len" "Suc (unat r) < unat n"
      using more i r by (simp_all add: word_le_nat_alt not_le)
    show ?thesis
    proof (cases "run_scan pm n (i + 1) (r + 1)")
      case RunFound
      have free: "\<not> bitmap_get pm j" if "unat i \<le> unat j" "unat j < unat i + (unat n - unat r)" for j
        using that IH RunFound more(1) lt' i r head [of j "unat n - unat r"] by auto
      show ?thesis using RunFound IH step lt' free by (auto simp: i r)
    qed (use IH step lt' in \<open>auto simp: i r word_le_nat_alt\<close>)
  qed
qed

text \<open>
  A window run is what the outer loop can find: a run of free pages that ends below
  \<open>PageMap.length()\<close>, the number of \<^emph>\<open>bytes\<close> of the bitmap.
\<close>

definition window_run :: "pmm \<Rightarrow> u64 \<Rightarrow> u64 \<Rightarrow> bool" where
  "window_run s n i \<longleftrightarrow>
     unat i + unat n < unat (bitmap_length (PageMap s)) \<and>
     (\<forall>j \<in> page_run i n. \<not> bitmap_get (PageMap s) j)"

definition window_runs :: "pmm \<Rightarrow> u64 \<Rightarrow> u64 \<Rightarrow> u64 set" where
  "window_runs s n i = {k. i \<le> k \<and> window_run s n k}"

lemma finite_window_runs [simp]: "finite (window_runs s n i)"
  by (simp add: window_runs_def)

lemma window_runs_skip:
  assumes "i < bitmap_length (PageMap s)" and "i \<le> m" and "m < bitmap_length (PageMap s)"
    and "bitmap_get (PageMap s) m" and "unat m - unat i < unat n"
  shows "window_runs s n i = window_runs s n (m + 1)"
proof -
  have m: "unat (m + 1) = Suc (unat m)" by (rule unat_u64_Suc [OF assms(3)])
  have "\<not> window_run s n k" if "i \<le> k" "k \<le> m" for k
  proof -
    have "m \<in> page_run k n"
      using that assms(5) by (auto simp: page_run_def word_le_nat_alt)
    then show ?thesis using assms(4) by (auto simp: window_run_def)
  qed
  then show ?thesis
    using assms(2) m
    by (auto simp: window_runs_def word_le_nat_alt) (meson not_less_eq_eq)
qed

lemma request_pages_loop_eq:
  assumes "0 < n"
  shows "request_pages_loop n i s =
    (if window_runs s n i = {} then (0, s)
     else (Min (window_runs s n i) * PAGE_SIZE, lock_pages (Min (window_runs s n i) * PAGE_SIZE) n s))"
  using assms
proof (induction n i s rule: request_pages_loop.induct)
  case (1 n i s)
  let ?len = "bitmap_length (PageMap s)"
  have n: "0 < unat n" using "1.prems" by (simp add: word_less_nat_alt)
  show ?case
  proof (cases "i < ?len")
    case False
    then have "window_runs s n i = {}"
      by (auto simp: window_runs_def window_run_def word_less_nat_alt word_le_nat_alt)
    with False show ?thesis by (simp add: request_pages_loop.simps [of n i s])
  next
    case lt: True
    show ?thesis
    proof (cases "bitmap_get (PageMap s) i")
      case True
      have "window_runs s n i = window_runs s n (i + 1)"
        by (rule window_runs_skip [OF lt _ lt True]) (simp_all add: n)
      then show ?thesis
        using True lt "1.IH"(1) [OF lt True "1.prems"] by (simp add: request_pages_loop.simps [of n i s])
    next
      case False
      note spec = run_scan_spec [OF lt, of 0 n]
      show ?thesis
      proof (cases "run_scan (PageMap s) n i 0")
        case RunPanic
        then have "unat ?len - unat i \<le> unat n" using spec "1.prems" by simp
        then have "window_runs s n i = {}"
          by (auto simp: window_runs_def window_run_def word_le_nat_alt)
        then show ?thesis
          using lt False RunPanic by (simp add: request_pages_loop.simps [of n i s])
      next
        case RunFound
        then have "window_run s n i"
          using spec "1.prems" by (auto simp: window_run_def page_run_def)
        then have mem: "i \<in> window_runs s n i" by (simp add: window_runs_def)
        then have "Min (window_runs s n i) = i"
          by (intro Min_eqI) (auto simp: window_runs_def)
        then show ?thesis
          using mem lt False RunFound by (auto simp: request_pages_loop.simps [of n i s])
      next
        case (RunStopped k)
        then have "window_runs s n i = window_runs s n (k + 1)"
          using spec "1.prems" lt by (intro window_runs_skip) auto
        then show ?thesis
          using RunStopped lt False "1.IH"(2) [OF lt False RunStopped "1.prems"]
          by (simp add: request_pages_loop.simps [of n i s])
      qed
    qed
  qed
qed

text \<open>The hint never hides a run: every page below it is locked.\<close>

lemma window_runs_from_hint:
  assumes "pmm_inv s" and "0 < n"
  shows "window_runs s n (FirstFreePage s) = window_runs s n 0"
proof -
  have "FirstFreePage s \<le> k" if "window_run s n k" for k
  proof (rule ccontr)
    assume "\<not> FirstFreePage s \<le> k"
    then have "bitmap_get (PageMap s) k" using assms(1) by (simp add: pmm_inv_def)
    moreover have "k \<in> page_run k n" using assms(2) by (simp add: page_run_def word_less_nat_alt)
    ultimately show False using that by (auto simp: window_run_def)
  qed
  then show ?thesis by (auto simp: window_runs_def)
qed

lemma window_run_bound:
  assumes "pmm_inv s" and "window_run s n i"
  shows "unat i + unat n \<le> unat (TotalPages s) div 8"
proof -
  have "unat (TotalPages s) + 1 < 4503599627370496" by (rule pmm_inv_TotalPages [OF assms(1)])
  then have "unat (TotalPages s div 8 + 1) = unat (TotalPages s) div 8 + 1"
    by (subst unat_u64_plus_small) (simp_all add: unat_ops)
  then show ?thesis
    using assms by (simp add: window_run_def pmm_inv_def bitmap_length_def)
qed

lemma request_pages_eq:
  assumes "pmm_inv s" and "2 \<le> n"
  shows "request_pages n s =
    (if n \<le> TotalFreePages s \<and> n \<le> MaxFreePagesInARow s \<and> window_runs s n 0 \<noteq> {}
     then (Min (window_runs s n 0) * PAGE_SIZE, lock_pages (Min (window_runs s n 0) * PAGE_SIZE) n s)
     else (0, s))"
proof -
  have n: "0 < n" "n \<noteq> 0" "n \<noteq> 1" using assms(2) by (auto simp: word_le_nat_alt word_less_nat_alt)
  show ?thesis
    using n(2,3) by (auto simp: request_pages_def request_pages_loop_eq [OF n(1)]
                              window_runs_from_hint [OF assms(1) n(1)])
qed

lemma Min_window_run:
  "window_runs s n 0 \<noteq> {} \<Longrightarrow> window_run s n (Min (window_runs s n 0))"
  using Min_in [of "window_runs s n 0"] by (simp add: window_runs_def)

lemma lock_window_run:
  assumes "pmm_inv s" and "window_run s n i"
  shows "pmm_inv (lock_pages (i * PAGE_SIZE) n s)"
    and "bitmap_get (PageMap (lock_pages (i * PAGE_SIZE) n s)) j \<longleftrightarrow>
           j \<in> page_run i n \<or> bitmap_get (PageMap s) j"
    and "unat i + unat n \<le> Suc (unat (TotalPages s))"
proof -
  show le: "unat i + unat n \<le> Suc (unat (TotalPages s))"
    using window_run_bound [OF assms] by linarith
  show "pmm_inv (lock_pages (i * PAGE_SIZE) n s)"
    and "bitmap_get (PageMap (lock_pages (i * PAGE_SIZE) n s)) j \<longleftrightarrow>
           j \<in> page_run i n \<or> bitmap_get (PageMap s) j"
    by (rule lock_pages_spec [OF assms(1) le])+
qed

text \<open>Two states whose bitmaps agree have the same counters.\<close>

lemma pmm_counters_eq:
  assumes "pmm_inv s" "pmm_inv t" "TotalPages s = TotalPages t"
    and "\<And>j. bitmap_get (PageMap s) j = bitmap_get (PageMap t) j"
  shows "TotalFreePages s = TotalFreePages t" and "TotalUsedPages s = TotalUsedPages t"
proof -
  have "bm.clear_set (PageMap s) (TotalPages s + 1) = bm.clear_set (PageMap t) (TotalPages t + 1)"
    using assms(3,4) by (simp add: bm.clear_set_def)
  then show "TotalFreePages s = TotalFreePages t" using assms(1,2) by (simp add: pmm_inv_def)
  then show "TotalUsedPages s = TotalUsedPages t"
    using assms(1-3) by (metis add_left_cancel pmm_inv_def)
qed

section \<open>Runs of the allocator\<close>

text \<open>
  What the rest of the kernel does to the allocator: it asks for one page, for a run, locks a
  run, and frees a run it holds. \<open>owned\<close> says every page of the run is locked.
\<close>

definition owned :: "pmm \<Rightarrow> u64 \<Rightarrow> u64 \<Rightarrow> bool" where
  "owned s i n \<longleftrightarrow>
     unat i + unat n \<le> Suc (unat (TotalPages s)) \<and>
     (\<forall>j \<in> page_run i n. bitmap_get (PageMap s) j)"

inductive pmm_step :: "pmm \<Rightarrow> pmm \<Rightarrow> bool" where
  step_request_page: "pmm_step s (snd (request_page s))"
| step_request_pages: "pmm_step s (snd (request_pages n s))"
| step_lock_pages: "unat i + unat n \<le> Suc (unat (TotalPages s)) \<Longrightarrow>
     pmm_step s (lock_pages (i * PAGE_SIZE) n s)"
| step_free_pages: "owned s i n \<Longrightarrow> pmm_step s (free_pages (i * PAGE_SIZE) n s)"

lemma request_pages_inv:
  assumes "pmm_inv s"
  shows "pmm_inv (snd (request_pages n s)) \<and> TotalPages (snd (request_pages n s)) = TotalPages s"
proof (cases "2 \<le> n")
  case True
  show ?thesis
    using assms lock_window_run(1) [OF assms Min_window_run]
    by (auto simp: request_pages_eq [OF assms True])
next
  case False
  then have "unat n < 2" by (simp add: word_le_nat_alt)
  then have "unat n = 0 \<or> unat n = 1" by linarith
  then have "n = 0 \<or> n = 1" by (auto simp: word_unat_eq_iff)
  then show ?thesis
    using assms request_page_spec [OF assms] by (auto simp: request_pages_def)
qed

lemma pmm_step_inv: "pmm_step s t \<Longrightarrow> pmm_inv s \<Longrightarrow> pmm_inv t \<and> TotalPages t = TotalPages s"
proof (induction rule: pmm_step.induct)
  case (step_request_page s)
  then show ?case using request_page_spec by blast
next
  case (step_request_pages s n)
  then show ?case by (rule request_pages_inv)
next
  case (step_lock_pages i n s)
  then show ?case using lock_pages_spec(1) by simp
next
  case (step_free_pages s i n)
  then show ?case using free_pages_spec(1) [of s i n] by (simp add: owned_def)
qed

section \<open>Properties\<close>

text \<open>The invariant, in a form that evaluates on a concrete state.\<close>

lemma pmm_inv_eval:
  "pmm_inv s \<longleftrightarrow>
     bitmap_wf (PageMap s) \<and>
     Size (PageMap s) = TotalPages s div 8 + 1 \<and>
     TotalPages s < 4503599627370495 \<and>
     FirstFreePage s \<le> TotalPages s \<and>
     list_all (bitmap_get (PageMap s)) (u64_upto (FirstFreePage s)) \<and>
     TotalFreePages s = of_nat (length (filter (\<lambda>i. \<not> bitmap_get (PageMap s) i) (u64_upto (TotalPages s + 1)))) \<and>
     TotalFreePages s + TotalUsedPages s = TotalPages s + 1"
  by (simp add: pmm_inv_def bm.clear_set_def card_less_u64 all_less_u64)

text \<open>
  A machine of 16 pages in which pages 0, 1 and 8 are locked, as are the bits past the end.
\<close>

definition example_pmm :: pmm where
  "example_pmm = \<lparr>PageMap = \<lparr>Size = 3, Buffer = [0b11000000, 0b10000000, 0b11111111]\<rparr>,
     TotalPages = 16, TotalFreePages = 13, TotalUsedPages = 4,
     MaxFreePagesInARow = 7, FirstFreePage = 1\<rparr>"

lemma example_pmm_inv: "pmm_inv example_pmm"
  unfolding pmm_inv_eval by code_simp

text \<open>
  C12: \<open>request_page\<close> returns the lowest-numbered free page, locks it and no other page,
  and keeps the invariant; when no page below \<open>TotalPages\<close> is free it returns null and the
  bitmap is unchanged.
\<close>

theorem request_page_lowest_free:
  assumes "pmm_inv s"
  shows "pmm_inv (snd (request_page s))
    \<and> (allocatable s = {} \<longrightarrow> fst (request_page s) = 0 \<and> PageMap (snd (request_page s)) = PageMap s)
    \<and> (allocatable s \<noteq> {} \<longrightarrow>
         fst (request_page s) = Min (allocatable s) * PAGE_SIZE \<and>
         (\<forall>j. bitmap_get (PageMap (snd (request_page s))) j \<longleftrightarrow>
               j = Min (allocatable s) \<or> bitmap_get (PageMap s) j))"
  using request_page_spec [OF assms] by blast

theorem request_page_lowest_free_witness:
  "pmm_inv example_pmm \<and> pmm_inv (snd (request_page example_pmm)) \<and>
   2 \<in> allocatable example_pmm \<and> fst (request_page example_pmm) = Min (allocatable example_pmm) * PAGE_SIZE"
proof -
  have "2 \<in> allocatable example_pmm"
    unfolding mem_allocatable by code_simp
  then show ?thesis
    using request_page_lowest_free [OF example_pmm_inv] example_pmm_inv by auto
qed

text \<open>
  C1: \<open>request_pages\<close> for two or more pages is first fit over the window it searches: it
  returns the lowest run of free pages that ends below \<open>PageMap.length()\<close>, locks exactly that
  run and keeps the invariant; otherwise it returns null and changes nothing.
\<close>

theorem request_pages_first_fit:
  assumes "pmm_inv s" and "2 \<le> n"
  shows "pmm_inv (snd (request_pages n s))
    \<and> (n \<le> TotalFreePages s \<and> n \<le> MaxFreePagesInARow s \<and> window_runs s n 0 \<noteq> {} \<longrightarrow>
         fst (request_pages n s) = Min (window_runs s n 0) * PAGE_SIZE \<and>
         (\<forall>j \<in> page_run (Min (window_runs s n 0)) n. \<not> bitmap_get (PageMap s) j) \<and>
         (\<forall>j. bitmap_get (PageMap (snd (request_pages n s))) j \<longleftrightarrow>
               j \<in> page_run (Min (window_runs s n 0)) n \<or> bitmap_get (PageMap s) j))
    \<and> (\<not> (n \<le> TotalFreePages s \<and> n \<le> MaxFreePagesInARow s \<and> window_runs s n 0 \<noteq> {}) \<longrightarrow>
         request_pages n s = (0, s))"
proof (cases "n \<le> TotalFreePages s \<and> n \<le> MaxFreePagesInARow s \<and> window_runs s n 0 \<noteq> {}")
  case True
  then have "window_run s n (Min (window_runs s n 0))" by (simp add: Min_window_run)
  then show ?thesis
    using True lock_window_run [OF assms(1)]
    by (simp add: request_pages_eq [OF assms] window_run_def)
next
  case False
  then show ?thesis using assms(1) by (auto simp: request_pages_eq [OF assms])
qed

text \<open>A machine of 32 pages with pages 2 and 3 free, and 12 to 31.\<close>

definition example_pmm32 :: pmm where
  "example_pmm32 = \<lparr>PageMap = \<lparr>Size = 5, Buffer = [0b11001111, 0b11110000, 0, 0, 0b11111111]\<rparr>,
     TotalPages = 32, TotalFreePages = 22, TotalUsedPages = 11,
     MaxFreePagesInARow = 20, FirstFreePage = 0\<rparr>"

lemma example_pmm32_inv: "pmm_inv example_pmm32"
  unfolding pmm_inv_eval by code_simp

theorem request_pages_first_fit_witness:
  "pmm_inv example_pmm32 \<and> (2::u64) \<le> 2 \<and> request_pages 2 example_pmm32 \<noteq> (0, example_pmm32) \<and>
   pmm_inv (snd (request_pages 2 example_pmm32)) \<and>
   window_runs example_pmm32 2 0 \<noteq> {}"
proof -
  have *: "fst (request_pages 2 example_pmm32) = 2 * PAGE_SIZE" by code_simp
  then have **: "request_pages 2 example_pmm32 \<noteq> (0, example_pmm32)" by (auto simp: PAGE_SIZE_def)
  have "(2::u64) \<le> 2" by simp
  from request_pages_first_fit [OF example_pmm32_inv this]
  show ?thesis using ** example_pmm32_inv by auto
qed

text \<open>
  C13: a run handed out by \<open>request_pages\<close> and given back with \<open>free_pages\<close> restores the
  allocator: the same pages are locked and both counters have their old values.
\<close>

theorem request_free_pages_roundtrip:
  assumes "pmm_inv s" and "2 \<le> n" and "request_pages n s = (a, s')" and "(a, s') \<noteq> (0, s)"
  shows "pmm_inv (free_pages a n s')
    \<and> (\<forall>j. bitmap_get (PageMap (free_pages a n s')) j = bitmap_get (PageMap s) j)
    \<and> TotalFreePages (free_pages a n s') = TotalFreePages s
    \<and> TotalUsedPages (free_pages a n s') = TotalUsedPages s"
proof -
  define i where "i = Min (window_runs s n 0)"
  have run: "window_run s n i" and a: "a = i * PAGE_SIZE" and s': "s' = lock_pages (i * PAGE_SIZE) n s"
    using assms(3,4) Min_window_run [of s n]
    by (auto simp: request_pages_eq [OF assms(1,2)] i_def split: if_splits)
  note lock = lock_window_run [OF assms(1) run]
  have le: "unat i + unat n \<le> Suc (unat (TotalPages s'))" using lock(3) by (simp add: s')
  have locked: "\<And>j. j \<in> page_run i n \<Longrightarrow> bitmap_get (PageMap s') j" by (simp add: s' lock(2))
  have inv': "pmm_inv s'" by (simp add: s' lock(1))
  note free = free_pages_spec [OF inv' le locked, folded a]
  have bits: "bitmap_get (PageMap (free_pages a n s')) j = bitmap_get (PageMap s) j" for j
    using free(2) run by (auto simp: s' lock(2) window_run_def)
  then show ?thesis
    using free(1) pmm_counters_eq [OF free(1) assms(1) _ bits] by (simp add: s')
qed

theorem request_free_pages_roundtrip_witness:
  "\<exists>a s'. request_pages 2 example_pmm32 = (a, s') \<and> (a, s') \<noteq> (0, example_pmm32) \<and>
     pmm_inv example_pmm32 \<and> TotalFreePages (free_pages a 2 s') = TotalFreePages example_pmm32"
proof -
  obtain a s' where eq: "request_pages 2 example_pmm32 = (a, s')" by fastforce
  have "fst (request_pages 2 example_pmm32) = 2 * PAGE_SIZE" by code_simp
  then have ne: "(a, s') \<noteq> (0, example_pmm32)" by (auto simp: eq PAGE_SIZE_def)
  have "(2::u64) \<le> 2" by simp
  from request_free_pages_roundtrip [OF example_pmm32_inv this eq ne]
  show ?thesis using eq ne example_pmm32_inv by blast
qed

text \<open>
  C36: \<open>request_pages\<close> bounds its search by \<open>PageMap.length()\<close>, a number of bytes, so a
  request for two or more pages only ever locks pages of the first eighth of memory, and a
  request for more pages than that is refused however much memory is free.
\<close>

theorem request_pages_first_eighth_only:
  assumes "pmm_inv s" and "2 \<le> n"
  shows "(\<forall>j. bitmap_get (PageMap (snd (request_pages n s))) j \<and> \<not> bitmap_get (PageMap s) j \<longrightarrow>
            unat j < unat (TotalPages s) div 8)
    \<and> (unat (TotalPages s) div 8 < unat n \<longrightarrow> request_pages n s = (0, s))"
proof (intro conjI allI impI)
  fix j
  assume j: "bitmap_get (PageMap (snd (request_pages n s))) j \<and> \<not> bitmap_get (PageMap s) j"
  define i where "i = Min (window_runs s n 0)"
  have some: "window_runs s n 0 \<noteq> {}"
    using j by (auto simp: request_pages_eq [OF assms] split: if_splits)
  then have run: "window_run s n i" by (simp add: i_def Min_window_run)
  have "j \<in> page_run i n"
    using j lock_window_run(2) [OF assms(1) run, of j]
    by (auto simp: request_pages_eq [OF assms] i_def split: if_splits)
  then show "unat j < unat (TotalPages s) div 8"
    using window_run_bound [OF assms(1) run] by (simp add: page_run_def)
next
  assume big: "unat (TotalPages s) div 8 < unat n"
  have "window_runs s n 0 = {}"
    using window_run_bound [OF assms(1)] big by (fastforce simp: window_runs_def)
  then show "request_pages n s = (0, s)" by (simp add: request_pages_eq [OF assms])
qed

text \<open>20 contiguous pages are free, yet a request for 5 is refused.\<close>

theorem request_pages_first_eighth_only_witness:
  "pmm_inv example_pmm32 \<and> list_all (\<lambda>j. \<not> bitmap_get (PageMap example_pmm32) j) (drop 12 (u64_upto 32)) \<and>
   request_pages 5 example_pmm32 = (0, example_pmm32)"
proof -
  have le: "(2::u64) \<le> 5" by simp
  have "unat (TotalPages example_pmm32) div 8 < unat (5 :: u64)" by code_simp
  then have "request_pages 5 example_pmm32 = (0, example_pmm32)"
    using request_pages_first_eighth_only [OF example_pmm32_inv le] by blast
  moreover have "list_all (\<lambda>j. \<not> bitmap_get (PageMap example_pmm32) j) (drop 12 (u64_upto 32))"
    by code_simp
  ultimately show ?thesis using example_pmm32_inv by blast
qed

text \<open>
  C14: over any sequence of page requests, locks and frees of owned runs the books balance:
  the free and used counters always sum to \<open>TotalPages + 1\<close>, the free counter is the number of
  clear bits, and every page below the hint \<open>FirstFreePage\<close> is locked.
\<close>

theorem pmm_accounting:
  assumes "pmm_inv s" and "pmm_step\<^sup>*\<^sup>* s t"
  shows "TotalPages t = TotalPages s
    \<and> TotalFreePages t + TotalUsedPages t = TotalPages s + 1
    \<and> TotalFreePages t = of_nat (card {i. i \<le> TotalPages s \<and> \<not> bitmap_get (PageMap t) i})
    \<and> (\<forall>i < FirstFreePage t. bitmap_get (PageMap t) i)"
proof -
  have inv: "pmm_inv t \<and> TotalPages t = TotalPages s"
    using assms(2)
    by (induction rule: rtranclp_induct) (use assms(1) pmm_step_inv in auto)
  then have "bm.clear_set (PageMap t) (TotalPages t + 1) = {i. i \<le> TotalPages s \<and> \<not> bitmap_get (PageMap t) i}"
    using less_TotalPages_Suc [of t] by (auto simp: bm.clear_set_def)
  then show ?thesis using inv by (auto simp: pmm_inv_def)
qed

theorem pmm_accounting_witness:
  "\<exists>t. pmm_inv example_pmm \<and> pmm_step\<^sup>*\<^sup>* example_pmm t \<and> t \<noteq> example_pmm \<and>
       TotalFreePages t + TotalUsedPages t = TotalPages example_pmm + 1"
proof -
  let ?t = "snd (request_page example_pmm)"
  have step: "pmm_step\<^sup>*\<^sup>* example_pmm ?t" by (intro r_into_rtranclp pmm_step.intros)
  have "TotalFreePages ?t = 12" "TotalFreePages example_pmm = 13" by code_simp+
  then have "?t \<noteq> example_pmm" by auto
  then show ?thesis
    using step example_pmm_inv pmm_accounting [OF example_pmm_inv step] by blast
qed

text \<open>
  \<open>free_page\<close> does not look whether the page is locked, unlike \<open>lock_page\<close>: freeing a
  page that is already free leaves the bitmap as it was and still counts one more free page
  and one fewer used page, so the counters no longer match the bitmap.
\<close>

theorem double_free_miscounts:
  assumes "pmm_inv s" and "a div PAGE_SIZE \<le> TotalPages s"
    and "\<not> bitmap_get (PageMap s) (a div PAGE_SIZE)"
  shows "(\<forall>j. bitmap_get (PageMap (free_page a s)) j = bitmap_get (PageMap s) j)
    \<and> TotalFreePages (free_page a s) = TotalFreePages s + 1
    \<and> TotalUsedPages (free_page a s) = TotalUsedPages s - 1
    \<and> \<not> pmm_inv (free_page a s)
    \<and> lock_page a (free_page a s) \<noteq> free_page a s"
proof -
  have bits: "bitmap_get (PageMap (free_page a s)) j = bitmap_get (PageMap s) j" for j
    using assms(3) by (auto simp: free_page_def get_free_page_impl [OF assms(1,2)])
  have cnt: "TotalFreePages (free_page a s) = TotalFreePages s + 1"
    "TotalUsedPages (free_page a s) = TotalUsedPages s - 1"
    by (simp_all add: free_page_def free_page_impl_eq [OF assms(1,2)])
  have "\<not> pmm_inv (free_page a s)"
    using pmm_counters_eq(1) [OF _ assms(1) _ bits] cnt(1) by (auto simp: free_page_def)
  moreover have "lock_page a (free_page a s) \<noteq> free_page a s"
  proof -
    have "bitmap_in_range (PageMap (free_page a s)) (a div PAGE_SIZE)"
      using pmm_inv_in_range [OF assms(1,2)] by (simp add: bitmap_in_range_def free_page_def)
    moreover have "bitmap_wf (PageMap (free_page a s))"
      using pmm_inv_wf [OF assms(1)] by (simp add: free_page_def free_page_impl_eq [OF assms(1,2)])
    ultimately have "TotalFreePages (lock_page a (free_page a s)) = TotalFreePages (free_page a s) - 1"
      using bits assms(3) bm.set_result [of "PageMap (free_page a s)"]
      by (simp add: lock_page_def Let_def split_beta)
    then show ?thesis by (metis diff_add_cancel add_cancel_right_right zero_neq_one)
  qed
  ultimately show ?thesis using bits cnt by blast
qed

theorem double_free_miscounts_witness:
  "pmm_inv example_pmm \<and> \<not> bitmap_get (PageMap example_pmm) 2 \<and> \<not> pmm_inv (free_page 8192 example_pmm)"
proof -
  have i: "(8192 :: u64) div PAGE_SIZE = 2" by code_simp
  have "\<not> bitmap_get (PageMap example_pmm) 2" "(2 :: u64) \<le> TotalPages example_pmm" by code_simp+
  then show ?thesis
    using double_free_miscounts [of example_pmm 8192] example_pmm_inv by (simp add: i)
qed

end

