(* ===== verification/Paging.thy ===== *)
theory Paging
  imports LensorPrelude
begin

text \<open>
  Page tables of \<open>kernel/src/memory/paging.h\<close>: the flag bits, the split of a virtual address
  into four nine-bit indices, and the packed page directory entry. An entry is the 64-bit word
  the class \<open>PageDirectoryEntry\<close> wraps; its setters return the new word. The lemmas describe
  every accessor bit by bit, which is what the virtual memory manager's proofs use.
\<close>

section \<open>Flags\<close>

datatype PageTableFlag =
    Present | ReadWrite | UserSuper | WriteThrough | CacheDisabled | Accessed | Dirty
  | LargerPages | Global | Lensor_CopyOnWrite | NX

fun flag_pos :: "PageTableFlag \<Rightarrow> nat" where
  "flag_pos Present = 0"
| "flag_pos ReadWrite = 1"
| "flag_pos UserSuper = 2"
| "flag_pos WriteThrough = 3"
| "flag_pos CacheDisabled = 4"
| "flag_pos Accessed = 5"
| "flag_pos Dirty = 6"
| "flag_pos LargerPages = 7"
| "flag_pos Global = 8"
| "flag_pos Lensor_CopyOnWrite = 9"
| "flag_pos NX = 63"

definition flag_bit :: "PageTableFlag \<Rightarrow> u64" where
  "flag_bit f = push_bit (flag_pos f) 1"

lemma flag_pos_less [simp]: "flag_pos f < 64"
  by (cases f) simp_all

lemma flag_pos_outside_address [dest]: "12 \<le> flag_pos f \<Longrightarrow> flag_pos f < 52 \<Longrightarrow> False"
  by (cases f) simp_all

lemma flag_pos_inject [simp]: "flag_pos f = flag_pos g \<longleftrightarrow> f = g"
  by (cases f; cases g) simp_all

lemma flag_pos_eq_Present [simp]: "flag_pos f = 0 \<longleftrightarrow> f = Present"
  by (cases f) simp_all

lemma bit_flag_bit [simp]: "bit (flag_bit f) n \<longleftrightarrow> n = flag_pos f"
  by (auto simp: flag_bit_def bit_simps)

lemma and_flag_bit: "x AND flag_bit f \<noteq> 0 \<longleftrightarrow> bit x (flag_pos f)"
  by (auto simp: flag_bit_def push_bit_eq_mult and_exp_eq_0_iff_not_bit)

section \<open>Splitting a virtual address\<close>

record PageMapIndexer =
  PageDirectoryPointerIndex :: u64
  PageDirectoryIndex :: u64
  PageTableIndex :: u64
  PageIndex :: u64

definition page_map_indexer :: "u64 \<Rightarrow> PageMapIndexer" where
  "page_map_indexer virtualAddress =
     (let v1 = drop_bit 12 virtualAddress;
          v2 = drop_bit 9 v1;
          v3 = drop_bit 9 v2;
          v4 = drop_bit 9 v3
      in \<lparr>PageDirectoryPointerIndex = v4 AND 0x1ff, PageDirectoryIndex = v3 AND 0x1ff,
          PageTableIndex = v2 AND 0x1ff, PageIndex = v1 AND 0x1ff\<rparr>)"

text \<open>The indices as a path from the root table, and the address printed back from a path.\<close>

definition page_path :: "u64 \<Rightarrow> u64 list" where
  "page_path va = (let ix = page_map_indexer va
     in [PageDirectoryPointerIndex ix, PageDirectoryIndex ix, PageTableIndex ix, PageIndex ix])"

definition virtual_address :: "u64 \<Rightarrow> u64 \<Rightarrow> u64 \<Rightarrow> u64 \<Rightarrow> u64" where
  "virtual_address i j k l =
     push_bit 12 (((0 OR push_bit 27 i) OR push_bit 18 j) OR push_bit 9 k OR push_bit 0 l)"

definition same_page :: "u64 \<Rightarrow> u64 \<Rightarrow> bool" where
  "same_page a b \<longleftrightarrow> drop_bit 12 (take_bit 48 a) = drop_bit 12 (take_bit 48 b)"

lemma mask_0x1ff: "(0x1ff :: u64) = mask 9"
  by (simp add: mask_eq_exp_minus_1)

lemma and_0x1ff: "x AND 0x1ff = take_bit 9 (x :: u64)"
  by (simp add: mask_0x1ff take_bit_eq_mask)

lemma take_bit_9_less [simp]: "take_bit 9 (x :: u64) < 512"
proof -
  have "unat (take_bit 9 x) = take_bit 9 (unat x)" by (simp add: unsigned_take_bit_eq)
  also have "\<dots> < 2 ^ 9" by (rule take_bit_nat_less_exp)
  finally show ?thesis by (simp add: word_less_nat_alt)
qed

lemma page_path_eq:
  "page_path va = [take_bit 9 (drop_bit 39 va), take_bit 9 (drop_bit 30 va),
                   take_bit 9 (drop_bit 21 va), take_bit 9 (drop_bit 12 va)]"
  by (simp add: page_path_def page_map_indexer_def Let_def and_0x1ff)

lemma length_page_path [simp]: "length (page_path va) = 4"
  by (simp add: page_path_eq)

lemma page_path_bound [simp]: "list_all (\<lambda>i. i < 512) (page_path va)"
  by (simp add: page_path_eq)

lemma virtual_address_page_path:
  assumes "page_path va = [i, j, k, l]"
  shows "virtual_address i j k l = push_bit 12 (drop_bit 12 (take_bit 48 va))"
proof (rule bit_word_eqI)
  fix n
  assume "n < LENGTH(64)"
  then have "n < 64" by simp
  have [simp]: "i = take_bit 9 (drop_bit 39 va)" "j = take_bit 9 (drop_bit 30 va)"
     "k = take_bit 9 (drop_bit 21 va)" "l = take_bit 9 (drop_bit 12 va)"
    using assms by (simp_all add: page_path_eq)
  consider "n < 12" | "12 \<le> n" "n < 21" | "21 \<le> n" "n < 30" | "30 \<le> n" "n < 39"
    | "39 \<le> n" "n < 48" | "48 \<le> n" by linarith
  then show "bit (virtual_address i j k l) n = bit (push_bit 12 (drop_bit 12 (take_bit 48 va))) n"
    using \<open>n < 64\<close>
    by cases (simp_all add: virtual_address_def bit_or_iff bit_push_bit_iff bit_take_bit_iff bit_drop_bit_eq less_diff_conv2)
qed

lemma page_path_eq_iff: "page_path a = page_path b \<longleftrightarrow> same_page a b"
proof
  assume "page_path a = page_path b"
  then obtain i j k l where a: "page_path a = [i, j, k, l]" and b: "page_path b = [i, j, k, l]"
    by (auto simp: page_path_eq)
  have "push_bit 12 (drop_bit 12 (take_bit 48 a)) = push_bit 12 (drop_bit 12 (take_bit 48 b))"
    using virtual_address_page_path [OF a] virtual_address_page_path [OF b] by simp
  then have "drop_bit 12 (push_bit 12 (drop_bit 12 (take_bit 48 a))) =
             drop_bit 12 (push_bit 12 (drop_bit 12 (take_bit 48 b)))" by simp
  moreover have "drop_bit 12 (push_bit 12 (drop_bit 12 (take_bit 48 x))) = drop_bit 12 (take_bit 48 x)"
    for x :: u64
    by (rule bit_word_eqI) (auto simp: bit_push_bit_iff bit_take_bit_iff bit_drop_bit_eq)
  ultimately show "same_page a b" by (simp add: same_page_def)
next
  assume eq: "same_page a b"
  have digit: "take_bit 9 (drop_bit n x) = take_bit 9 (drop_bit (n - 12) (drop_bit 12 (take_bit 48 x)))"
    if "12 \<le> n" "n \<le> 39" for n and x :: u64
    using that by (intro bit_word_eqI) (auto simp: bit_take_bit_iff bit_drop_bit_eq)
  have "take_bit 9 (drop_bit n a) = take_bit 9 (drop_bit n b)" if "12 \<le> n" "n \<le> 39" for n
    using eq unfolding digit [OF that, of a] digit [OF that, of b] same_page_def by metis
  then show "page_path a = page_path b" by (simp add: page_path_eq)
qed

section \<open>Page directory entries\<close>

definition pde_address :: "u64 \<Rightarrow> u64" where
  "pde_address Value = Value AND 0x000ffffffffff000"

definition pde_set_address :: "u64 \<Rightarrow> u64 \<Rightarrow> u64" where
  "pde_set_address addr Value = (Value AND 0xfff0000000000fff) OR (addr AND 0x000ffffffffff000)"

definition pde_flag :: "u64 \<Rightarrow> PageTableFlag \<Rightarrow> bool" where
  "pde_flag Value f \<longleftrightarrow> Value AND flag_bit f \<noteq> 0"

text \<open>\<open>flags()\<close> assigns: it returns the masked word and also leaves it in the entry.\<close>

definition pde_flags :: "u64 \<Rightarrow> u64 \<times> u64" where
  "pde_flags Value = (let Value' = Value AND 0xfff0000000000fff in (Value', Value'))"

definition pde_set_flag :: "PageTableFlag \<Rightarrow> bool \<Rightarrow> u64 \<Rightarrow> u64" where
  "pde_set_flag f enabled Value =
     (let bitSelector = flag_bit f; Value' = Value AND NOT bitSelector
      in if enabled then Value' OR bitSelector else Value')"

definition pde_or_flag :: "PageTableFlag \<Rightarrow> u64 \<Rightarrow> u64" where
  "pde_or_flag f Value = Value OR flag_bit f"

definition pde_or_flag_if :: "PageTableFlag \<Rightarrow> bool \<Rightarrow> u64 \<Rightarrow> u64" where
  "pde_or_flag_if f enabled Value = (if enabled then Value OR flag_bit f else Value)"

lemma address_mask: "(0x000ffffffffff000 :: u64) = push_bit 12 (mask 40)"
  by (simp add: mask_eq_exp_minus_1 push_bit_eq_mult)

lemma flags_mask: "(0xfff0000000000fff :: u64) = NOT (push_bit 12 (mask 40))"
  by (simp add: mask_eq_exp_minus_1 push_bit_eq_mult not_eq_complement)

lemma bit_address_mask: "bit (0x000ffffffffff000 :: u64) n \<longleftrightarrow> 12 \<le> n \<and> n < 52"
  unfolding address_mask bit_push_bit_iff bit_mask_iff by auto

lemma bit_flags_mask: "bit (0xfff0000000000fff :: u64) n \<longleftrightarrow> n < 64 \<and> \<not> (12 \<le> n \<and> n < 52)"
  unfolding flags_mask bit_not_iff bit_push_bit_iff bit_mask_iff by auto

lemma bit_pde_address: "bit (pde_address v) n \<longleftrightarrow> 12 \<le> n \<and> n < 52 \<and> bit v n"
  unfolding pde_address_def bit_and_iff bit_address_mask by auto

lemma bit_pde_set_address:
  "bit (pde_set_address a v) n \<longleftrightarrow> (if 12 \<le> n \<and> n < 52 then bit a n else bit v n)"
  unfolding pde_set_address_def bit_and_iff bit_or_iff bit_address_mask bit_flags_mask
  using bit_imp_le_length [of v n] by auto

lemma pde_flag_iff: "pde_flag v f \<longleftrightarrow> bit v (flag_pos f)"
  by (simp add: pde_flag_def and_flag_bit)

lemma bit_pde_set_flag:
  "bit (pde_set_flag f b v) n \<longleftrightarrow> (if n = flag_pos f then b else bit v n)"
  by (auto simp: pde_set_flag_def Let_def bit_simps dest: bit_imp_le_length)

lemma bit_pde_or_flag_if:
  "bit (pde_or_flag_if f b v) n \<longleftrightarrow> bit v n \<or> (n = flag_pos f \<and> b)"
  by (auto simp: pde_or_flag_if_def bit_simps)

lemmas bit_pde = bit_pde_address bit_pde_set_address bit_pde_set_flag bit_pde_or_flag_if

lemma pde_address_set_address [simp]: "pde_address (pde_set_address a v) = pde_address a"
  by (rule bit_word_eqI) (auto simp: bit_pde)

lemma pde_flag_set_address [simp]: "pde_flag (pde_set_address a v) f = pde_flag v f"
  by (auto simp: pde_flag_iff bit_pde)

lemma pde_address_set_flag [simp]: "pde_address (pde_set_flag f b v) = pde_address v"
  by (rule bit_word_eqI) (auto simp: bit_pde)

lemma pde_flag_set_flag [simp]: "pde_flag (pde_set_flag g b v) f = (if f = g then b else pde_flag v f)"
  by (simp add: pde_flag_iff bit_pde)

lemma pde_address_or_flag_if [simp]: "pde_address (pde_or_flag_if f b v) = pde_address v"
  by (rule bit_word_eqI) (auto simp: bit_pde)

lemma pde_flag_or_flag_if [simp]:
  "pde_flag (pde_or_flag_if g b v) f \<longleftrightarrow> pde_flag v f \<or> (f = g \<and> b)"
  by (simp add: pde_flag_iff bit_pde)

lemma pde_flag_0 [simp]: "\<not> pde_flag 0 f"
  by (simp add: pde_flag_iff)

lemma pde_address_page_aligned:
  assumes "a mod PAGE_SIZE = 0" and "a < 0x10000000000000"
  shows "pde_address a = a"
proof -
  have hi: "take_bit 52 a = a"
  proof -
    have "unat a < 2 ^ 52" using assms(2) by (simp add: word_less_nat_alt)
    then have "unat (take_bit 52 a) = unat a"
      by (simp add: unsigned_take_bit_eq take_bit_nat_eq_self)
    then show ?thesis by (simp add: word_unat_eq_iff)
  qed
  have lo: "take_bit 12 a = 0"
    using assms(1) by (simp add: take_bit_eq_mod PAGE_SIZE_def)
  show ?thesis
  proof (rule bit_word_eqI)
    fix n
    show "bit (pde_address a) n = bit a n"
      using arg_cong [OF hi, of "\<lambda>x. bit x n"] arg_cong [OF lo, of "\<lambda>x. bit x n"]
      by (auto simp: bit_pde bit_simps)
  qed
qed

end
