(* ===== verification/VirtualMemory.thy ===== *)
theory VirtualMemory
  imports PhysicalMemory Paging
begin

text \<open>
  The virtual memory manager of \<open>kernel/src/memory/virtual_memory_manager.cpp\<close>. The kernel
  reads and writes page tables at their physical address, so the state holds the entries of the
  table at each address next to the physical allocator; \<open>ActivePageMap\<close> and the register CR3
  are its other two fields. \<open>table_at\<close> follows a path of indices from a root table; the
  invariant \<open>vm_inv\<close> says that the tables reachable from a set of roots form disjoint trees
  built from locked pages.
\<close>

section \<open>State\<close>

record vmm =
  physical :: pmm
  tables :: "u64 \<Rightarrow> u64 \<Rightarrow> u64"
  ActivePageMap :: u64
  CR3 :: u64

definition memset_page :: "u64 \<Rightarrow> vmm \<Rightarrow> vmm" where
  "memset_page a s = s\<lparr>tables := (tables s)(a := (\<lambda>_. 0))\<rparr>"

definition write_entry :: "u64 \<Rightarrow> u64 \<Rightarrow> u64 \<Rightarrow> vmm \<Rightarrow> vmm" where
  "write_entry a i e s = s\<lparr>tables := (tables s)(a := (tables s a)(i := e))\<rparr>"

definition vm_request_page :: "vmm \<Rightarrow> u64 \<times> vmm" where
  "vm_request_page s = (let (p, m) = request_page (physical s) in (p, s\<lparr>physical := m\<rparr>))"

definition vm_free_page :: "u64 \<Rightarrow> vmm \<Rightarrow> vmm" where
  "vm_free_page a s = s\<lparr>physical := free_page a (physical s)\<rparr>"

section \<open>Mapping\<close>

text \<open>The flags \<open>map\<close> copies, in the order of its calls.\<close>

definition mapped_flags :: "PageTableFlag list" where
  "mapped_flags = [Present, ReadWrite, UserSuper, WriteThrough, CacheDisabled, Accessed, Dirty,
     LargerPages, Global]"

definition or_flags :: "u64 \<Rightarrow> u64 \<Rightarrow> u64" where
  "or_flags mappingFlags pde =
     fold (\<lambda>f. pde_or_flag_if f (mappingFlags AND flag_bit f \<noteq> 0)) mapped_flags pde"

definition set_flags :: "u64 \<Rightarrow> u64 \<Rightarrow> u64" where
  "set_flags mappingFlags pde =
     fold (\<lambda>f. pde_set_flag f (mappingFlags AND flag_bit f \<noteq> 0)) mapped_flags pde"

text \<open>
  One upper level of \<open>map\<close>: entry \<open>i\<close> of \<open>table\<close> gets a fresh zeroed table when it is not
  present, its flags are widened, and the address of the next table is returned. The source
  repeats this block for the three upper levels.
\<close>

definition map_level :: "u64 \<Rightarrow> u64 \<Rightarrow> u64 \<Rightarrow> vmm \<Rightarrow> u64 \<times> vmm" where
  "map_level mappingFlags table i s =
     (let pde = tables s table i;
          (pde', s') = (if \<not> pde_flag pde Present
                        then let (p, s1) = vm_request_page s
                             in (pde_set_address p pde, memset_page p s1)
                        else (pde, s));
          pde'' = or_flags mappingFlags pde'
      in (pde_address pde'', write_entry table i pde'' s'))"

definition map_vm :: "u64 \<Rightarrow> u64 \<Rightarrow> u64 \<Rightarrow> u64 \<Rightarrow> vmm \<Rightarrow> vmm" where
  "map_vm pageMapLevelFour virtualAddress physicalAddress mappingFlags s =
     (if pageMapLevelFour = 0 then s
      else let ix = page_map_indexer virtualAddress;
               (pdp, s1) = map_level mappingFlags pageMapLevelFour (PageDirectoryPointerIndex ix) s;
               (pd, s2) = map_level mappingFlags pdp (PageDirectoryIndex ix) s1;
               (pt, s3) = map_level mappingFlags pd (PageTableIndex ix) s2;
               pde = set_flags mappingFlags
                       (pde_set_address physicalAddress (tables s3 pt (PageIndex ix)))
           in write_entry pt (PageIndex ix) pde s3)"

definition map_active :: "u64 \<Rightarrow> u64 \<Rightarrow> u64 \<Rightarrow> vmm \<Rightarrow> vmm" where
  "map_active virtualAddress physicalAddress mappingFlags s =
     map_vm (ActivePageMap s) virtualAddress physicalAddress mappingFlags s"

text \<open>
  \<open>for (; t < end; t += PAGE_SIZE)\<close>. The last step is taken without adding once more, which
  is the source's loop whenever that addition does not wrap around past \<open>end\<close>; see
  \<open>page_loop_unfold\<close>.
\<close>

function page_loop :: "(u64 \<Rightarrow> 's \<Rightarrow> 's) \<Rightarrow> u64 \<Rightarrow> u64 \<Rightarrow> 's \<Rightarrow> 's" where
  "page_loop f t e s =
     (if t < e
      then if e - t \<le> PAGE_SIZE then f t s else page_loop f (t + PAGE_SIZE) e (f t s)
      else s)"
  by pat_completeness auto
termination
proof (relation "measure (\<lambda>(f, t, e, s). unat (e - t))", simp, clarsimp)
  fix t e :: u64
  assume "t < e" "\<not> e - t \<le> PAGE_SIZE"
  then have "PAGE_SIZE < e - t" by simp
  moreover have "e - (t + PAGE_SIZE) = (e - t) - PAGE_SIZE" by simp
  moreover have "unat ((e - t) - PAGE_SIZE) = unat (e - t) - unat PAGE_SIZE"
    using \<open>PAGE_SIZE < e - t\<close> by (intro unat_u64_minus) simp
  ultimately show "unat (e - (t + PAGE_SIZE)) < unat (e - t)"
    by (simp add: word_less_nat_alt diff_diff_eq)
qed

declare page_loop.simps [simp del]

definition map_pages :: "u64 \<Rightarrow> u64 \<Rightarrow> u64 \<Rightarrow> u64 \<Rightarrow> u64 \<Rightarrow> vmm \<Rightarrow> vmm" where
  "map_pages pageTable virtualAddress physicalAddress mappingFlags pageCount s =
     page_loop (\<lambda>virt. map_vm pageTable virt (physicalAddress + (virt - virtualAddress)) mappingFlags)
       virtualAddress (virtualAddress + pageCount * PAGE_SIZE) s"

definition unmap :: "u64 \<Rightarrow> u64 \<Rightarrow> vmm \<Rightarrow> vmm" where
  "unmap pageMapLevelFour virtualAddress s =
     (let ix = page_map_indexer virtualAddress;
          pdp = pde_address (tables s pageMapLevelFour (PageDirectoryPointerIndex ix));
          pd = pde_address (tables s pdp (PageDirectoryIndex ix));
          pt = pde_address (tables s pd (PageTableIndex ix));
          pde = tables s pt (PageIndex ix)
      in write_entry pt (PageIndex ix) (pde_set_flag Present False pde) s)"

definition unmap_active :: "u64 \<Rightarrow> vmm \<Rightarrow> vmm" where
  "unmap_active virtualAddress s = unmap (ActivePageMap s) virtualAddress s"

definition unmap_pages :: "u64 \<Rightarrow> u64 \<Rightarrow> u64 \<Rightarrow> vmm \<Rightarrow> vmm" where
  "unmap_pages pageTable virtualAddress pageCount s =
     page_loop (unmap pageTable) virtualAddress (virtualAddress + pageCount * PAGE_SIZE) s"

definition flush_page_map :: "u64 \<Rightarrow> vmm \<Rightarrow> vmm" where
  "flush_page_map pageMapLevelFour s = s\<lparr>CR3 := pageMapLevelFour, ActivePageMap := pageMapLevelFour\<rparr>"

definition active_page_map :: "vmm \<Rightarrow> u64 \<times> vmm" where
  "active_page_map s =
     (let s' = (if ActivePageMap s = 0 then s\<lparr>ActivePageMap := CR3 s\<rparr> else s) in (ActivePageMap s', s'))"

section \<open>Copying and freeing a page map\<close>

definition make_pde_cow :: "u64 \<Rightarrow> u64" where
  "make_pde_cow pde =
     (if pde_flag pde ReadWrite
      then pde_set_flag Lensor_CopyOnWrite True (pde_set_flag ReadWrite False pde)
      else pde)"

text \<open>
  The four nested loops of the clone functions, one level per recursive call: \<open>levels\<close> is the
  number of table levels below. A failed allocation leaves every loop with the null pointer;
  the pages taken so far stay locked. \<open>tr\<close> is what is done to a copied entry:
  \<open>make_pde_cow\<close> in the copy-on-write version, nothing in the other.
\<close>

fun clone_loop :: "(u64 \<Rightarrow> vmm \<Rightarrow> u64 \<times> vmm) \<Rightarrow> (u64 \<Rightarrow> u64) \<Rightarrow> u64 \<Rightarrow> u64 \<Rightarrow> u64 list \<Rightarrow> vmm \<Rightarrow> u64 \<times> vmm" where
  "clone_loop sub tr old new [] s = (new, s)"
| "clone_loop sub tr old new (i # is) s =
     (let pde = tables s old i
      in if \<not> pde_flag pde Present then clone_loop sub tr old new is s
         else let (child, s1) = sub (pde_address pde) s
              in if child = 0 then (0, s1)
                 else let pde' = tr (pde_set_address child (tables s1 old i))
                      in clone_loop sub tr old new is (write_entry new i pde' s1))"

fun clone_leaf_loop :: "(u64 \<Rightarrow> u64) \<Rightarrow> u64 \<Rightarrow> u64 \<Rightarrow> u64 list \<Rightarrow> vmm \<Rightarrow> vmm" where
  "clone_leaf_loop tr old new [] s = s"
| "clone_leaf_loop tr old new (i # is) s =
     (let pde = tables s old i
      in if \<not> pde_flag pde Present then clone_leaf_loop tr old new is s
         else clone_leaf_loop tr old new is (write_entry new i (tr pde) s))"

fun clone_table :: "nat \<Rightarrow> (u64 \<Rightarrow> u64) \<Rightarrow> u64 \<Rightarrow> vmm \<Rightarrow> u64 \<times> vmm" where
  "clone_table levels tr old s =
     (let (new, s1) = vm_request_page s
      in if new = 0 then (0, s1)
         else let s2 = memset_page new s1
              in case levels of
                   0 \<Rightarrow> (new, clone_leaf_loop tr old new (u64_upto 512) s2)
                 | Suc n \<Rightarrow> clone_loop (clone_table n tr) tr old new (u64_upto 512) s2)"

declare clone_table.simps [simp del]

definition clone_page_map_copy_on_write :: "u64 \<Rightarrow> vmm \<Rightarrow> u64 \<times> vmm" where
  "clone_page_map_copy_on_write oldPageTable s = clone_table 3 make_pde_cow oldPageTable s"

definition clone_page_map :: "u64 \<Rightarrow> vmm \<Rightarrow> u64 \<times> vmm" where
  "clone_page_map oldPageTable s = clone_table 3 id oldPageTable s"

definition clone_active_page_map :: "vmm \<Rightarrow> u64 \<times> vmm" where
  "clone_active_page_map s = (let (a, s') = active_page_map s in clone_page_map a s')"

text \<open>The guard of \<open>free_page_map\<close> on the address of a lower table.\<close>

definition garbage_table :: "u64 \<Rightarrow> vmm \<Rightarrow> bool" where
  "garbage_table a s \<longleftrightarrow>
     a = 0x000ffffffffff000 \<or> a > total_ram (physical s) \<or> a mod PAGE_SIZE \<noteq> 0"

text \<open>
  The nested loops of \<open>free_page_map\<close>: below a table with \<open>levels\<close> levels of tables under it,
  every present and plausible child is emptied in the same way and then freed.
\<close>

fun free_tables :: "nat \<Rightarrow> u64 \<Rightarrow> vmm \<Rightarrow> vmm" where
  "free_tables 0 t s = s"
| "free_tables (Suc n) t s =
     fold (\<lambda>i s. let pde = tables s t i; a = pde_address pde
             in if \<not> pde_flag pde Present then s
                else if garbage_table a s then s
                else vm_free_page a (free_tables n a s)) (u64_upto 512) s"

definition free_page_map :: "u64 \<Rightarrow> vmm \<Rightarrow> vmm" where
  "free_page_map pageTable s =
     (if pageTable = 0 then s
      else let (active, s1) = active_page_map s
           in if pageTable = active then s1
              else vm_free_page pageTable (free_tables 3 pageTable s1))"

section \<open>Initialisation\<close>

text \<open>The addresses the linker script defines (\<open>KERNEL_PHYSICAL\<close> and so on).\<close>

record kernel_layout =
  KERNEL_PHYSICAL :: u64
  KERNEL_VIRTUAL :: u64
  KERNEL_START :: u64
  KERNEL_END :: u64

definition init_virtual_map :: "kernel_layout \<Rightarrow> u64 \<Rightarrow> vmm \<Rightarrow> vmm" where
  "init_virtual_map k pageMap s =
     (let mf = flag_bit Present OR flag_bit ReadWrite;
          s1 = page_loop (\<lambda>t. map_vm pageMap t t mf) 0 (total_ram (physical s)) s;
          kPhysicalStart = KERNEL_PHYSICAL k;
          kernelBytesNeeded = 1 + (KERNEL_END k - KERNEL_START k);
          s2 = page_loop (\<lambda>t. map_vm pageMap (t + KERNEL_VIRTUAL k) t mf) kPhysicalStart
                 (kPhysicalStart + kernelBytesNeeded + PAGE_SIZE) s1;
          s3 = unmap_active 0 s2
      in flush_page_map pageMap s3)"

definition init_virtual :: "kernel_layout \<Rightarrow> vmm \<Rightarrow> vmm" where
  "init_virtual k s =
     (let (table, s1) = vm_request_page s in init_virtual_map k table (memset_page table s1))"


section \<open>Paths of tables\<close>

text \<open>The table reached from table \<open>t\<close> along the indices of a path, if every entry is present.\<close>

fun table_at :: "(u64 \<Rightarrow> u64 \<Rightarrow> u64) \<Rightarrow> u64 \<Rightarrow> u64 list \<Rightarrow> u64 option" where
  "table_at T t [] = Some t"
| "table_at T t (i # is) =
     (if pde_flag (T t i) Present then table_at T (pde_address (T t i)) is else None)"

definition table_path :: "u64 list \<Rightarrow> bool" where
  "table_path p \<longleftrightarrow> length p \<le> 3 \<and> list_all (\<lambda>i. i < 512) p"

text \<open>The leaf entry a virtual address is translated by, when it is mapped.\<close>

definition walk :: "(u64 \<Rightarrow> u64 \<Rightarrow> u64) \<Rightarrow> u64 \<Rightarrow> u64 list \<Rightarrow> u64 option" where
  "walk T r p = (case table_at T r (butlast p) of
       None \<Rightarrow> None
     | Some a \<Rightarrow> if pde_flag (T a (last p)) Present then Some (T a (last p)) else None)"

definition translate :: "vmm \<Rightarrow> u64 \<Rightarrow> u64 \<Rightarrow> u64 option" where
  "translate s r va = walk (tables s) r (page_path va)"

lemma table_at_append:
  "table_at T t (p @ q) = (case table_at T t p of None \<Rightarrow> None | Some a \<Rightarrow> table_at T a q)"
  by (induction p arbitrary: t) auto

lemma table_at_snoc:
  "table_at T t (p @ [i]) = (case table_at T t p of None \<Rightarrow> None
     | Some a \<Rightarrow> if pde_flag (T a i) Present then Some (pde_address (T a i)) else None)"
  by (simp add: table_at_append split: option.split)

lemma table_path_snoc:
  "table_path (p @ [i]) \<longleftrightarrow> length p \<le> 2 \<and> list_all (\<lambda>i. i < 512) p \<and> i < 512"
  by (auto simp: table_path_def)

lemma table_path_Nil [simp]: "table_path []"
  by (simp add: table_path_def)

lemma table_path_butlast: "table_path (p @ [i]) \<Longrightarrow> table_path p"
  by (simp add: table_path_def)

definition locked_page :: "pmm \<Rightarrow> u64 \<Rightarrow> bool" where
  "locked_page m a \<longleftrightarrow> a \<noteq> 0 \<and> a mod PAGE_SIZE = 0 \<and>
     a div PAGE_SIZE < TotalPages m \<and> bitmap_get (PageMap m) (a div PAGE_SIZE)"

text \<open>
  Page zero is never handed out, so that the null pointer stands for failure only, and the
  machine has fewer than $2^{52}$ bytes, the range of a page directory entry.
\<close>

definition pmm_ready :: "pmm \<Rightarrow> bool" where
  "pmm_ready m \<longleftrightarrow> pmm_inv m \<and> bitmap_get (PageMap m) 0 \<and> TotalPages m < 0xfffffffff0"

text \<open>Distinct paths from the roots lead to distinct tables, each a locked page.\<close>

definition table_forest :: "pmm \<Rightarrow> (u64 \<Rightarrow> u64 \<Rightarrow> u64) \<Rightarrow> u64 set \<Rightarrow> bool" where
  "table_forest m T R \<longleftrightarrow>
     (\<forall>r\<in>R. \<forall>p a. table_path p \<longrightarrow> table_at T r p = Some a \<longrightarrow> locked_page m a) \<and>
     (\<forall>r\<in>R. \<forall>r'\<in>R. \<forall>p p' a. table_path p \<longrightarrow> table_path p' \<longrightarrow>
        table_at T r p = Some a \<longrightarrow> table_at T r' p' = Some a \<longrightarrow> r = r' \<and> p = p')"

definition vm_inv :: "vmm \<Rightarrow> u64 set \<Rightarrow> bool" where
  "vm_inv s R \<longleftrightarrow> pmm_ready (physical s) \<and> table_forest (physical s) (tables s) R"

section \<open>Pages from the physical allocator\<close>

text \<open>
  What the virtual memory manager relies on: a request that does not fail returns a page that
  was not locked, locks it and takes one page off the reserve; a failing one returns null.
\<close>

locale page_source =
  fixes request :: "'m \<Rightarrow> u64 \<times> 'm"
    and locked :: "'m \<Rightarrow> u64 \<Rightarrow> bool"
    and reserve :: "'m \<Rightarrow> nat"
    and ready :: "'m \<Rightarrow> bool"
  assumes request_ready: "ready m \<Longrightarrow> ready (snd (request m))"
    and request_fresh: "ready m \<Longrightarrow> 0 < reserve m \<Longrightarrow> \<not> locked m (fst (request m))"
    and request_locks: "ready m \<Longrightarrow> 0 < reserve m \<Longrightarrow>
          locked (snd (request m)) a \<longleftrightarrow> a = fst (request m) \<or> locked m a"
    and request_reserve: "ready m \<Longrightarrow> 0 < reserve m \<Longrightarrow> Suc (reserve (snd (request m))) = reserve m"
    and request_fails: "ready m \<Longrightarrow> reserve m = 0 \<Longrightarrow> fst (request m) = 0"
    and locked_entry: "ready m \<Longrightarrow> locked m a \<Longrightarrow> a \<noteq> 0 \<and> pde_address a = a"
begin

lemma request_entry: "ready m \<Longrightarrow> 0 < reserve m \<Longrightarrow> fst (request m) \<noteq> 0 \<and> pde_address (fst (request m)) = fst (request m)"
  using locked_entry [of "snd (request m)" "fst (request m)"] request_locks request_ready by blast

lemma request_succeeds_iff: "ready m \<Longrightarrow> fst (request m) \<noteq> 0 \<longleftrightarrow> 0 < reserve m"
  using request_entry request_fails by auto

end

definition reserve :: "pmm \<Rightarrow> nat" where
  "reserve m = card (allocatable m)"

lemma aligned_eq: "a mod PAGE_SIZE = 0 \<Longrightarrow> (a div PAGE_SIZE) * PAGE_SIZE = a"
  using div_mod_u64 [of a PAGE_SIZE] by simp

lemma locked_page_entry:
  assumes "pmm_ready m" and "locked_page m a"
  shows "a \<noteq> 0 \<and> pde_address a = a"
proof -
  have "unat (a div PAGE_SIZE) < unat (TotalPages m)"
    using assms(2) by (simp add: locked_page_def word_less_nat_alt)
  moreover have "unat (TotalPages m) < 0xfffffffff0"
    using assms by (simp add: pmm_ready_def word_less_nat_alt)
  ultimately have "unat a div 4096 < 0xfffffffff0" by (simp add: unat_ops)
  then have "unat a < 0x10000000000000" by (simp add: div_less_iff_less_mult)
  then have "a < 0x10000000000000" by (simp add: word_less_nat_alt)
  then show ?thesis
    using assms(2) pde_address_page_aligned [of a] by (simp add: locked_page_def)
qed

lemma request_page_cases:
  assumes "pmm_ready m" and "allocatable m \<noteq> {}"
  defines "i \<equiv> Min (allocatable m)"
  shows "fst (request_page m) = i * PAGE_SIZE" and "(i * PAGE_SIZE) div PAGE_SIZE = i"
    and "i < TotalPages m" and "i \<noteq> 0" and "\<not> bitmap_get (PageMap m) i"
    and "bitmap_get (PageMap (snd (request_page m))) j \<longleftrightarrow> j = i \<or> bitmap_get (PageMap m) j"
    and "allocatable m = insert i (allocatable (snd (request_page m)))"
    and "i \<notin> allocatable (snd (request_page m))"
proof -
  have inv: "pmm_inv m" using assms(1) by (simp add: pmm_ready_def)
  note spec = request_page_spec [OF inv]
  have "i \<in> allocatable m" unfolding i_def by (rule Min_in) (use assms in auto)
  then show lt: "i < TotalPages m" and clear: "\<not> bitmap_get (PageMap m) i"
    by (simp_all add: mem_allocatable)
  show "fst (request_page m) = i * PAGE_SIZE" using spec assms by blast
  show "(i * PAGE_SIZE) div PAGE_SIZE = i" using lt by (intro page_address_index [OF inv]) simp
  show "i \<noteq> 0" using clear assms(1) by (auto simp: pmm_ready_def)
  show "bitmap_get (PageMap (snd (request_page m))) j \<longleftrightarrow> j = i \<or> bitmap_get (PageMap m) j" for j
    using spec assms by blast
  then show "allocatable m = insert i (allocatable (snd (request_page m)))"
    and "i \<notin> allocatable (snd (request_page m))"
    using spec lt clear by (auto simp: mem_allocatable)
qed

lemma unat_page_address:
  assumes "(i * PAGE_SIZE) div PAGE_SIZE = (i :: u64)"
  shows "(i * PAGE_SIZE) mod PAGE_SIZE = 0"
  using div_mod_u64 [of "i * PAGE_SIZE" PAGE_SIZE] assms by simp

interpretation ps: page_source request_page locked_page reserve pmm_ready
proof
  fix m a
  assume m: "pmm_ready m"
  then show ready: "pmm_ready (snd (request_page m))"
    using request_page_spec [of m] request_page_cases(6) [OF m]
    by (cases "allocatable m = {}") (auto simp: pmm_ready_def)
  show "fst (request_page m) = 0" if "reserve m = 0"
    using that m request_page_spec [of m] by (simp add: reserve_def pmm_ready_def)
  show "locked_page m a \<Longrightarrow> a \<noteq> 0 \<and> pde_address a = a"
    by (rule locked_page_entry [OF m])
  assume "0 < reserve m"
  then have some: "allocatable m \<noteq> {}" by (auto simp: reserve_def)
  note p = request_page_cases [OF m some]
  show "Suc (reserve (snd (request_page m))) = reserve m"
    using arg_cong [OF p(7), of card] p(8) by (simp add: reserve_def)
  show "\<not> locked_page m (fst (request_page m))"
    using p(5) by (simp add: locked_page_def p(1) p(2))
  have "fst (request_page m) \<noteq> 0" using p(1,2,4) by auto
  moreover have "a div PAGE_SIZE = Min (allocatable m) \<longleftrightarrow> a = fst (request_page m)"
    if "a mod PAGE_SIZE = 0"
    using aligned_eq [OF that] p(1,2) by auto
  moreover have "fst (request_page m) mod PAGE_SIZE = 0"
    using p(1) unat_page_address [OF p(2)] by simp
  moreover have "TotalPages (snd (request_page m)) = TotalPages m"
    using m request_page_spec [of m] by (simp add: pmm_ready_def)
  ultimately show "locked_page (snd (request_page m)) a \<longleftrightarrow> a = fst (request_page m) \<or> locked_page m a"
    using p(1-3) unfolding locked_page_def p(6) by metis
qed

section \<open>Trees of tables\<close>

abbreviation put :: "(u64 \<Rightarrow> u64 \<Rightarrow> u64) \<Rightarrow> u64 \<Rightarrow> u64 \<Rightarrow> u64 \<Rightarrow> u64 \<Rightarrow> u64 \<Rightarrow> u64" where
  "put T t i e \<equiv> T(t := (T t)(i := e))"

definition leaf_path :: "u64 list \<Rightarrow> bool" where
  "leaf_path p \<longleftrightarrow> length p = 4 \<and> list_all (\<lambda>i. i < 512) p"

lemma leaf_path_page_path [simp]: "leaf_path (page_path va)"
  by (simp add: leaf_path_def)

lemma leaf_path_cases:
  assumes "leaf_path p"
  obtains q j where "p = q @ [j]" "length q = 3" "table_path q" "j < 512"
  using assms by (cases p rule: rev_cases) (auto simp: leaf_path_def table_path_def)

lemma table_forest_locked:
  "table_forest m T R \<Longrightarrow> r \<in> R \<Longrightarrow> table_path p \<Longrightarrow> table_at T r p = Some a \<Longrightarrow> locked_page m a"
  by (auto simp: table_forest_def)

lemma table_forest_unique:
  "table_forest m T R \<Longrightarrow> r \<in> R \<Longrightarrow> r' \<in> R \<Longrightarrow> table_path p \<Longrightarrow> table_path p' \<Longrightarrow>
   table_at T r p = Some a \<Longrightarrow> table_at T r' p' = Some a \<Longrightarrow> r = r' \<and> p = p'"
  unfolding table_forest_def by blast

lemma table_at_cong:
  assumes "\<And>a i. pde_flag (T' a i) Present = pde_flag (T a i) Present"
    and "\<And>a i. pde_address (T' a i) = pde_address (T a i)"
  shows "table_at T' r p = table_at T r p"
  by (induction p arbitrary: r) (simp_all add: assms)

text \<open>Hanging a zeroed fresh page into an absent entry adds exactly one table.\<close>

lemma table_at_link:
  assumes forest: "table_forest m T R" and r0: "r0 \<in> R"
    and t: "table_at T r0 q0 = Some t" and q0: "table_path (q0 @ [i])"
    and absent: "\<not> pde_flag (T t i) Present"
    and e: "pde_flag e Present" "pde_address e = p" and fresh: "\<not> locked_page m p"
    and r: "r \<in> R" and q: "table_path q"
  shows "table_at (put (T(p := (\<lambda>_. 0))) t i e) r q =
           (if r = r0 \<and> q = q0 @ [i] then Some p else table_at T r q)"
proof -
  define T' where "T' = put (T(p := (\<lambda>_. 0))) t i e"
  have tp: "t \<noteq> p"
    using table_forest_locked [OF forest r0 table_path_butlast [OF q0] t] fresh by auto
  then have T': "T' p j = 0" "T' t i = e" "a \<noteq> p \<Longrightarrow> a \<noteq> t \<or> j \<noteq> i \<Longrightarrow> T' a j = T a j" for a j
    by (auto simp: T'_def)
  have "table_at T' r q = (if r = r0 \<and> q = q0 @ [i] then Some p else table_at T r q)"
    using q
  proof (induction q rule: rev_induct)
    case Nil
    then show ?case by simp
  next
    case (snoc j q)
    note path = table_path_butlast [OF snoc.prems]
    show ?case
    proof (cases "r = r0 \<and> q = q0 @ [i]")
      case True
      then have "table_at T' r (q @ [j]) = None"
        using snoc.IH [OF path] T'(1) unfolding table_at_snoc by simp
      moreover have "table_at T r q = None"
        using True t absent by (simp add: table_at_snoc)
      ultimately show ?thesis using True unfolding table_at_snoc by simp
    next
      case False
      note IH = snoc.IH [OF path, unfolded if_not_P [OF False]]
      show ?thesis
      proof (cases "table_at T r q")
        case None
        then show ?thesis using IH t by (auto simp: table_at_snoc)
      next
        case (Some a)
        have "a \<noteq> p" using table_forest_locked [OF forest r path Some] fresh by auto
        moreover have "a = t \<longleftrightarrow> r = r0 \<and> q = q0"
          using table_forest_unique [OF forest r r0 path table_path_butlast [OF q0] Some] t Some by auto
        ultimately show ?thesis
          using IH Some e T'(2) T'(3) [of a j] by (auto simp: table_at_snoc)
      qed
    qed
  qed
  then show ?thesis by (simp only: T'_def)
qed

lemma table_forest_link:
  assumes "table_forest m T R" "r0 \<in> R" "table_at T r0 q0 = Some t" "table_path (q0 @ [i])"
    "\<not> pde_flag (T t i) Present" "pde_flag e Present" "pde_address e = p" "\<not> locked_page m p"
    and locks: "\<And>a. locked_page m' a \<longleftrightarrow> a = p \<or> locked_page m a"
  shows "table_forest m' (put (T(p := (\<lambda>_. 0))) t i e) R"
proof -
  define T' where "T' = put (T(p := (\<lambda>_. 0))) t i e"
  have at: "table_at T' r q = (if r = r0 \<and> q = q0 @ [i] then Some p else table_at T r q)"
    if "r \<in> R" "table_path q" for r q
    unfolding T'_def by (rule table_at_link [OF assms(1-8) that])
  have old: "a \<noteq> p" if "r \<in> R" "table_path q" "table_at T r q = Some a" for r q a
    using table_forest_locked [OF assms(1) that] assms(8) by auto
  show ?thesis
    unfolding table_forest_def T'_def [symmetric]
  proof (intro conjI ballI allI impI)
    fix r q a
    assume "r \<in> R" "table_path q" "table_at T' r q = Some a"
    then show "locked_page m' a"
      using table_forest_locked [OF assms(1)] by (auto simp: at locks split: if_splits)
  next
    fix r r' q q' a
    assume "r \<in> R" "r' \<in> R" "table_path q" "table_path q'"
      "table_at T' r q = Some a" "table_at T' r' q' = Some a"
    then show "r = r'" and "q = q'"
      using table_forest_unique [OF assms(1), of r r' q q' a] old
      by (auto simp: at split: if_splits)
  qed
qed

lemma walk_link:
  assumes "table_forest m T R" "r0 \<in> R" "table_at T r0 q0 = Some t" "table_path (q0 @ [i])"
    "\<not> pde_flag (T t i) Present" "pde_flag e Present" "pde_address e = p" "\<not> locked_page m p"
    and r: "r \<in> R" and l: "leaf_path l"
  shows "walk (put (T(p := (\<lambda>_. 0))) t i e) r l = walk T r l"
proof -
  obtain q j where ql: "l = q @ [j]" "length q = 3" "table_path q"
    using l by (rule leaf_path_cases)
  have tp: "t \<noteq> p"
    using table_forest_locked [OF assms(1,2) table_path_butlast [OF assms(4)] assms(3)] assms(8) by auto
  have "a \<noteq> p \<and> a \<noteq> t" if "table_at T r q = Some a" for a
    using table_forest_locked [OF assms(1) r ql(3) that] assms(8)
      table_forest_unique [OF assms(1) r assms(2) ql(3) table_path_butlast [OF assms(4)] that] assms(3,4) ql(2)
    by (auto simp: table_path_def)
  then show ?thesis
    using assms(3,5) tp table_at_link [OF assms(1-8) r ql(3)]
    by (auto simp: walk_def ql(1) table_at_snoc split: option.split)
qed

text \<open>Widening the flags of an entry that leads to a table changes no path and no leaf.\<close>

lemma table_at_widen:
  assumes "pde_flag e Present = pde_flag (T t i) Present" "pde_address e = pde_address (T t i)"
  shows "table_at (put T t i e) r q = table_at T r q"
  by (rule table_at_cong) (auto simp: assms)

lemma walk_widen:
  assumes forest: "table_forest m T R" and "r0 \<in> R" "table_at T r0 q0 = Some t" "table_path (q0 @ [i])"
    and e: "pde_flag e Present = pde_flag (T t i) Present" "pde_address e = pde_address (T t i)"
    and r: "r \<in> R" and l: "leaf_path l"
  shows "walk (put T t i e) r l = walk T r l"
proof -
  obtain q j where ql: "l = q @ [j]" "length q = 3" "table_path q"
    using l by (rule leaf_path_cases)
  have "a \<noteq> t" if "table_at T r q = Some a" for a
    using table_forest_unique [OF forest r assms(2) ql(3) table_path_butlast [OF assms(4)] that] assms(3,4) ql(2)
    by (auto simp: table_path_def)
  then show ?thesis
    by (auto simp: walk_def ql(1) table_at_widen [where T = T, OF e] split: option.split)
qed

text \<open>Writing an entry of a last-level table changes one leaf and no table.\<close>

lemma table_at_leaf:
  assumes forest: "table_forest m T R" and r0: "r0 \<in> R" and t: "table_at T r0 q0 = Some t"
    and q0: "table_path q0" "length q0 = 3" and r: "r \<in> R" and q: "table_path q"
  shows "table_at (put T t j e) r q = table_at T r q"
  using q
proof (induction q rule: rev_induct)
  case Nil
  then show ?case by simp
next
  case (snoc k q)
  note path = table_path_butlast [OF snoc.prems]
  have "a \<noteq> t" if "table_at T r q = Some a" for a
    using table_forest_unique [OF forest r r0 path q0(1) that] t q0(2) snoc.prems
    by (auto simp: table_path_def)
  then show ?case
    using snoc.IH [OF path] by (auto simp: table_at_snoc split: option.split)
qed

lemma walk_leaf:
  assumes forest: "table_forest m T R" and r0: "r0 \<in> R" and t: "table_at T r0 q0 = Some t"
    and q0: "table_path q0" "length q0 = 3" and r: "r \<in> R" and l: "leaf_path l"
  shows "walk (put T t j e) r l =
           (if r = r0 \<and> l = q0 @ [j] then (if pde_flag e Present then Some e else None) else walk T r l)"
proof -
  obtain q k where ql: "l = q @ [k]" "length q = 3" "table_path q"
    using l by (rule leaf_path_cases)
  have "a = t \<longleftrightarrow> r = r0 \<and> q = q0" if "table_at T r q = Some a" for a
    using table_forest_unique [OF forest r r0 ql(3) q0(1) that] t that by auto
  then show ?thesis
    using t table_at_leaf [OF forest r0 t q0 r ql(3)]
    by (auto simp: walk_def ql(1) split: option.split)
qed

lemma table_forest_leaf:
  assumes "table_forest m T R" "r0 \<in> R" "table_at T r0 q0 = Some t" "table_path q0" "length q0 = 3"
  shows "table_forest m (put T t j e) R"
  using assms(1) table_at_leaf [OF assms] unfolding table_forest_def by metis

end
