(* ===== verification/PageMapping.thy ===== *)
theory PageMapping
  imports VirtualMemory
begin

text \<open>
  What \<open>map\<close>, \<open>map_pages\<close> and \<open>unmap\<close> of the virtual memory manager do to the translation of
  every virtual address of every page map: the addressed page changes as asked and nothing else
  does. The supply of pages needed is exact: one for each table missing on the paths mapped.
\<close>

section \<open>Flags of an entry\<close>

lemma pde_address_or_flags [simp]: "pde_address (or_flags mf v) = pde_address v"
proof -
  have "pde_address (fold (\<lambda>f. pde_or_flag_if f (mf AND flag_bit f \<noteq> 0)) fs v) = pde_address v" for fs
    by (induction fs arbitrary: v) simp_all
  then show ?thesis by (simp add: or_flags_def)
qed

lemma pde_flag_or_flags [simp]:
  "pde_flag (or_flags mf v) f \<longleftrightarrow> pde_flag v f \<or> (f \<in> set mapped_flags \<and> pde_flag mf f)"
proof -
  have "pde_flag (fold (\<lambda>f. pde_or_flag_if f (mf AND flag_bit f \<noteq> 0)) fs v) f \<longleftrightarrow>
        pde_flag v f \<or> (f \<in> set fs \<and> mf AND flag_bit f \<noteq> 0)" for fs
    by (induction fs arbitrary: v) auto
  then show ?thesis by (simp add: or_flags_def pde_flag_def)
qed

lemma pde_address_set_flags [simp]: "pde_address (set_flags mf v) = pde_address v"
proof -
  have "pde_address (fold (\<lambda>f. pde_set_flag f (mf AND flag_bit f \<noteq> 0)) fs v) = pde_address v" for fs
    by (induction fs arbitrary: v) simp_all
  then show ?thesis by (simp add: set_flags_def)
qed

lemma pde_flag_set_flags [simp]:
  "pde_flag (set_flags mf v) f \<longleftrightarrow> (if f \<in> set mapped_flags then pde_flag mf f else pde_flag v f)"
proof -
  have "pde_flag (fold (\<lambda>f. pde_set_flag f (mf AND flag_bit f \<noteq> 0)) fs v) f \<longleftrightarrow>
        (if f \<in> set fs then mf AND flag_bit f \<noteq> 0 else pde_flag v f)" for fs
    by (induction fs arbitrary: v) auto
  then show ?thesis by (simp add: set_flags_def pde_flag_def)
qed

lemma Present_mapped [simp]: "Present \<in> set mapped_flags"
  by (simp add: mapped_flags_def)

section \<open>The tables still missing\<close>

text \<open>
  \<open>D\<close> is a set of demands, pairs of a root and the path of a page to be mapped under it; the
  missing tables are the proper prefixes of these paths that lead nowhere yet.
\<close>

definition prefixes :: "(u64 \<times> u64 list) set \<Rightarrow> (u64 \<times> u64 list) set" where
  "prefixes D = (\<lambda>((r, p), n). (r, take n p)) ` (D \<times> {1, 2, 3})"

definition missing :: "(u64 \<Rightarrow> u64 \<Rightarrow> u64) \<Rightarrow> (u64 \<times> u64 list) set \<Rightarrow> (u64 \<times> u64 list) set" where
  "missing T D = {x \<in> prefixes D. table_at T (fst x) (snd x) = None}"

lemma finite_missing: "finite D \<Longrightarrow> finite (missing T D)"
  by (simp add: missing_def prefixes_def)

text \<open>A state extends another when it keeps every table and every leaf and has its supply.\<close>

definition demands_ok :: "u64 set \<Rightarrow> (u64 \<times> u64 list) set \<Rightarrow> bool" where
  "demands_ok R D \<longleftrightarrow> finite D \<and> (\<forall>(r, p) \<in> D. r \<in> R \<and> leaf_path p)"

definition supplied :: "vmm \<Rightarrow> (u64 \<times> u64 list) set \<Rightarrow> bool" where
  "supplied s D \<longleftrightarrow> card (missing (tables s) D) \<le> reserve (physical s)"

definition vm_ext :: "u64 set \<Rightarrow> (u64 \<times> u64 list) set \<Rightarrow> vmm \<Rightarrow> vmm \<Rightarrow> bool" where
  "vm_ext R D s s' \<longleftrightarrow>
     vm_inv s' R \<and> supplied s' D \<and>
     (\<forall>r\<in>R. \<forall>l. leaf_path l \<longrightarrow> walk (tables s') r l = walk (tables s) r l) \<and>
     (\<forall>r\<in>R. \<forall>q a. table_path q \<longrightarrow> table_at (tables s) r q = Some a \<longrightarrow> table_at (tables s') r q = Some a) \<and>
     TotalPages (physical s') = TotalPages (physical s) \<and>
     ActivePageMap s' = ActivePageMap s \<and> CR3 s' = CR3 s"

lemma vm_ext_trans: "vm_ext R D s1 s2 \<Longrightarrow> vm_ext R D s2 s3 \<Longrightarrow> vm_ext R D s1 s3"
  unfolding vm_ext_def by auto

lemma prefixes_paths:
  assumes "demands_ok R D" and "(r, q) \<in> prefixes D"
  shows "r \<in> R \<and> table_path q"
  using assms by (fastforce simp: demands_ok_def prefixes_def leaf_path_def table_path_def list_all_iff
      dest: in_set_takeD)

lemma prefixes_memI:
  assumes "table_path (q @ [i])" "(r, l) \<in> D" "q @ [i] = take (Suc (length q)) l"
  shows "(r, q @ [i]) \<in> prefixes D"
proof -
  have "Suc (length q) \<in> {1, 2, 3}"
    using assms(1) by (auto simp: table_path_def le_Suc_eq numeral_eq_Suc)
  then show ?thesis unfolding prefixes_def using assms(2,3) by force
qed

lemma missing_link:
  assumes forest: "table_forest m T R" "r0 \<in> R" "table_at T r0 q0 = Some t" "table_path (q0 @ [i])"
    "\<not> pde_flag (T t i) Present" "pde_flag e Present" "pde_address e = p" "\<not> locked_page m p"
    and D: "demands_ok R D" "(r0, l) \<in> D" "q0 @ [i] = take (Suc (length q0)) l"
  shows "card (missing T D) = Suc (card (missing (put (T(p := (\<lambda>_. 0))) t i e) D))"
proof -
  define T' where "T' = put (T(p := (\<lambda>_. 0))) t i e"
  have at: "table_at T' r q = (if r = r0 \<and> q = q0 @ [i] then Some p else table_at T r q)"
    if "r \<in> R" "table_path q" for r q
    unfolding T'_def by (rule table_at_link [OF forest that])
  have "table_at T r0 (q0 @ [i]) = None" using forest(3,5) by (simp add: table_at_snoc)
  then have mem: "(r0, q0 @ [i]) \<in> missing T D"
    using prefixes_memI [OF forest(4) D(2,3)] by (simp add: missing_def)
  have "missing T' D = missing T D - {(r0, q0 @ [i])}"
    using prefixes_paths [OF D(1)] at unfolding missing_def by (auto split: if_splits)
  then have "card (missing T D) = Suc (card (missing T' D))"
    using mem finite_missing [of D T] D(1) by (metis card_Suc_Diff1 demands_ok_def)
  then show ?thesis by (simp only: T'_def)
qed

section \<open>One level of a mapping\<close>

lemma vm_inv_ready: "vm_inv s R \<Longrightarrow> pmm_ready (physical s)"
  and vm_inv_forest: "vm_inv s R \<Longrightarrow> table_forest (physical s) (tables s) R"
  by (simp_all add: vm_inv_def)

lemma vm_request_page_eq:
  "vm_request_page s = (fst (request_page (physical s)), s\<lparr>physical := snd (request_page (physical s))\<rparr>)"
  by (simp add: vm_request_page_def split_beta)

lemma request_page_TotalPages:
  "pmm_ready m \<Longrightarrow> TotalPages (snd (request_page m)) = TotalPages m"
  using request_page_spec [of m] by (simp add: pmm_ready_def)

text \<open>The two ways one level goes, as equations on the state.\<close>

lemma map_level_present:
  assumes "pde_flag (tables s t i) Present"
  shows "map_level mf t i s =
    (pde_address (tables s t i), s\<lparr>tables := put (tables s) t i (or_flags mf (tables s t i))\<rparr>)"
  using assms by (simp add: map_level_def write_entry_def Let_def)

lemma map_level_absent:
  assumes "\<not> pde_flag (tables s t i) Present" and "p = fst (request_page (physical s))"
    and "e = or_flags mf (pde_set_address p (tables s t i))"
  shows "map_level mf t i s = (pde_address e,
    s\<lparr>physical := snd (request_page (physical s)), tables := put ((tables s)(p := (\<lambda>_. 0))) t i e\<rparr>)"
  using assms by (simp add: map_level_def write_entry_def memset_page_def vm_request_page_eq Let_def)

lemma map_level_spec:
  assumes inv: "vm_inv s R" and r: "r \<in> R" and t: "table_at (tables s) r q = Some t"
    and path: "table_path (q @ [i])" and mf: "pde_flag mf Present"
    and D: "demands_ok R D" "(r, l) \<in> D" "q @ [i] = take (Suc (length q)) l" and sup: "supplied s D"
  shows "vm_ext R D s (snd (map_level mf t i s))
    \<and> table_at (tables (snd (map_level mf t i s))) r (q @ [i]) = Some (fst (map_level mf t i s))"
proof (cases "pde_flag (tables s t i) Present")
  case True
  define e where "e = or_flags mf (tables s t i)"
  have e: "pde_flag e Present = pde_flag (tables s t i) Present" "pde_address e = pde_address (tables s t i)"
    using True by (simp_all add: e_def)
  note at = table_at_widen [where T = "tables s", OF e]
  have "table_forest (physical s) (put (tables s) t i e) R"
    using vm_inv_forest [OF inv] by (simp only: table_forest_def at)
  moreover have "missing (put (tables s) t i e) D = missing (tables s) D"
    by (simp only: missing_def at)
  ultimately have "vm_ext R D s (s\<lparr>tables := put (tables s) t i e\<rparr>)"
    using inv sup walk_widen [OF vm_inv_forest [OF inv] r t path e] at
    by (simp add: vm_ext_def vm_inv_def supplied_def)
  then show ?thesis
    using True t at by (simp add: map_level_present table_at_snoc e_def)
next
  case False
  define p where "p = fst (request_page (physical s))"
  define e where "e = or_flags mf (pde_set_address p (tables s t i))"
  define m' where "m' = snd (request_page (physical s))"
  define T' where "T' = put ((tables s)(p := (\<lambda>_. 0))) t i e"
  note ready = vm_inv_ready [OF inv] and forest = vm_inv_forest [OF inv]
  have none: "table_at (tables s) r (q @ [i]) = None" using t False by (simp add: table_at_snoc)
  have "(r, q @ [i]) \<in> missing (tables s) D"
    using none prefixes_memI [OF path D(2,3)] by (simp add: missing_def)
  then have res: "0 < reserve (physical s)"
    using sup D(1) finite_missing [of D "tables s"]
    by (auto simp: supplied_def demands_ok_def card_gt_0_iff dest!: less_le_trans [rotated])
  have p: "\<not> locked_page (physical s) p" "pde_address p = p"
    unfolding p_def using ps.request_fresh [OF ready res] ps.request_entry [OF ready res] by auto
  have e: "pde_flag e Present" "pde_address e = p" using mf p by (simp_all add: e_def)
  note link = forest r t path False e p(1)
  have locks: "locked_page m' a \<longleftrightarrow> a = p \<or> locked_page (physical s) a" for a
    unfolding m'_def p_def by (rule ps.request_locks [OF ready res])
  have "vm_inv (s\<lparr>physical := m', tables := T'\<rparr>) R"
    using table_forest_link [OF link locks] ps.request_ready [OF ready]
    by (simp add: vm_inv_def T'_def m'_def)
  moreover have "supplied (s\<lparr>physical := m', tables := T'\<rparr>) D"
    using missing_link [OF link D] sup ps.request_reserve [OF ready res]
    by (simp add: supplied_def T'_def m'_def)
  moreover have "walk T' r' k = walk (tables s) r' k" if "r' \<in> R" "leaf_path k" for r' k
    unfolding T'_def by (rule walk_link [OF link that])
  moreover have at: "table_at T' r' q' = (if r' = r \<and> q' = q @ [i] then Some p else table_at (tables s) r' q')"
    if "r' \<in> R" "table_path q'" for r' q'
    unfolding T'_def by (rule table_at_link [OF link that])
  ultimately have "vm_ext R D s (s\<lparr>physical := m', tables := T'\<rparr>)"
    using request_page_TotalPages [OF ready] none by (auto simp: vm_ext_def m'_def)
  then show ?thesis
    using map_level_absent [OF False p_def e_def] e at [OF r path] by (simp add: T'_def m'_def)
qed

section \<open>A whole mapping\<close>

lemma map_vm_eq:
  assumes "r \<noteq> 0" and "page_path va = [i, j, k, l]"
    and "s1 = map_level mf r i s" and "s2 = map_level mf (fst s1) j (snd s1)"
    and "s3 = map_level mf (fst s2) k (snd s2)"
  shows "map_vm r va pa mf s = (snd s3)\<lparr>tables := put (tables (snd s3)) (fst s3) l
           (set_flags mf (pde_set_address pa (tables (snd s3) (fst s3) l)))\<rparr>"
  using assms by (simp add: map_vm_def page_path_def write_entry_def Let_def split_beta)

lemma vm_inv_root:
  assumes "vm_inv s R" "r \<in> R" shows "r \<noteq> 0"
  using ps.locked_entry [OF vm_inv_ready [OF assms(1)]]
    table_forest_locked [OF vm_inv_forest [OF assms(1)] assms(2) table_path_Nil] by auto

text \<open>
  After \<open>map_vm\<close>: the invariant and the supply hold again, the page addressed has the leaf
  asked for, and every other page of every root keeps its leaf.
\<close>

definition mapped_leaf :: "u64 \<Rightarrow> u64 \<Rightarrow> u64 option \<Rightarrow> bool" where
  "mapped_leaf pa mf e \<longleftrightarrow> (case e of None \<Rightarrow> False | Some v \<Rightarrow>
     pde_address v = pde_address pa \<and> list_all (\<lambda>f. pde_flag v f = pde_flag mf f) mapped_flags)"

definition keeps_tables :: "u64 set \<Rightarrow> vmm \<Rightarrow> vmm \<Rightarrow> bool" where
  "keeps_tables R s s' \<longleftrightarrow> (\<forall>r\<in>R. \<forall>q a. table_path q \<longrightarrow>
     table_at (tables s) r q = Some a \<longrightarrow> table_at (tables s') r q = Some a)"

definition vm_mapped :: "u64 set \<Rightarrow> (u64 \<times> u64 list) set \<Rightarrow> u64 \<Rightarrow> u64 \<Rightarrow> u64 \<Rightarrow> u64 \<Rightarrow> vmm \<Rightarrow> vmm \<Rightarrow> bool" where
  "vm_mapped R D r va pa mf s s' \<longleftrightarrow>
     vm_inv s' R \<and> supplied s' D \<and> keeps_tables R s s' \<and> mapped_leaf pa mf (translate s' r va) \<and>
     (\<forall>r'\<in>R. \<forall>va'. \<not> (r' = r \<and> same_page va' va) \<longrightarrow> translate s' r' va' = translate s r' va') \<and>
     TotalPages (physical s') = TotalPages (physical s) \<and>
     ActivePageMap s' = ActivePageMap s \<and> CR3 s' = CR3 s"

lemma map_vm_spec:
  assumes inv: "vm_inv s R" and r: "r \<in> R" and mf: "pde_flag mf Present"
    and D: "demands_ok R D" "(r, page_path va) \<in> D" and sup: "supplied s D"
  shows "vm_mapped R D r va pa mf s (map_vm r va pa mf s)"
proof -
  obtain i j k l where va: "page_path va = [i, j, k, l]" by (simp add: page_path_eq)
  have small: "i < 512" "j < 512" "k < 512" "l < 512" using page_path_bound [of va] by (simp_all add: va)
  define s1 where "s1 = map_level mf r i s"
  define s2 where "s2 = map_level mf (fst s1) j (snd s1)"
  define s3 where "s3 = map_level mf (fst s2) k (snd s2)"
  have 1: "vm_ext R D s (snd s1) \<and> table_at (tables (snd s1)) r [i] = Some (fst s1)"
    using map_level_spec [OF inv r, of "[]" r i mf D "page_path va"] mf D sup small
    by (simp add: s1_def va table_path_def)
  then have 2: "vm_ext R D (snd s1) (snd s2) \<and> table_at (tables (snd s2)) r [i, j] = Some (fst s2)"
    using map_level_spec [OF _ r, of "snd s1" "[i]" "fst s1" j mf D "page_path va"] mf D small
    by (simp add: s2_def va table_path_def vm_ext_def)
  then have 3: "vm_ext R D (snd s2) (snd s3) \<and> table_at (tables (snd s3)) r [i, j, k] = Some (fst s3)"
    using map_level_spec [OF _ r, of "snd s2" "[i, j]" "fst s2" k mf D "page_path va"] mf D small
    by (simp add: s3_def va table_path_def vm_ext_def)
  have ext: "vm_ext R D s (snd s3)" using 1 2 3 vm_ext_trans by blast
  define e where "e = set_flags mf (pde_set_address pa (tables (snd s3) (fst s3) l))"
  define s' where "s' = (snd s3)\<lparr>tables := put (tables (snd s3)) (fst s3) l e\<rparr>"
  have s': "map_vm r va pa mf s = s'"
    unfolding s'_def e_def by (rule map_vm_eq [OF vm_inv_root [OF inv r] va s1_def s2_def s3_def])
  have inv3: "vm_inv (snd s3) R" using ext by (simp add: vm_ext_def)
  have q: "table_path [i, j, k]" "length [i, j, k] = 3" using small by (simp_all add: table_path_def)
  note leaf = vm_inv_forest [OF inv3] r conjunct2 [OF 3] q
  have "missing (tables s') D = missing (tables (snd s3)) D"
    using table_at_leaf [OF leaf] prefixes_paths [OF D(1)] unfolding missing_def s'_def by auto
  then have sup': "supplied s' D" using ext by (simp add: supplied_def s'_def vm_ext_def)
  have inv': "vm_inv s' R"
    using inv3 table_forest_leaf [OF leaf] by (simp add: vm_inv_def s'_def)
  have walk: "walk (tables s') r' p = (if r' = r \<and> p = page_path va then Some e else walk (tables s) r' p)"
    if "r' \<in> R" "leaf_path p" for r' p
    using walk_leaf [OF leaf that, of l e] ext that mf by (simp add: s'_def va vm_ext_def e_def)
  have "keeps_tables R s s'"
    using ext table_at_leaf [OF leaf] by (auto simp: keeps_tables_def vm_ext_def s'_def)
  moreover have "mapped_leaf pa mf (translate s' r va)"
    using walk [OF r] by (simp add: translate_def mapped_leaf_def e_def mapped_flags_def)
  moreover have "translate s' r' va' = translate s r' va'"
    if "r' \<in> R" "\<not> (r' = r \<and> same_page va' va)" for r' va'
    using walk [OF that(1)] that(2) by (auto simp: translate_def page_path_eq_iff)
  ultimately show ?thesis
    using inv' sup' ext by (simp add: vm_mapped_def s' s'_def vm_ext_def)
qed

section \<open>Runs of pages\<close>

lemma page_loop_unfold:
  assumes "t < e" and "unat t + 4096 < 18446744073709551616 \<or> e = t + PAGE_SIZE"
  shows "page_loop f t e s = page_loop f (t + PAGE_SIZE) e (f t s)"
proof (cases "e - t \<le> PAGE_SIZE")
  case True
  have "\<not> t + PAGE_SIZE < e"
    using assms(2)
  proof
    assume "unat t + 4096 < 18446744073709551616"
    then have "unat (t + PAGE_SIZE) = unat t + 4096" by (simp add: unat_u64_plus_small)
    moreover have "unat e - unat t \<le> 4096"
      using True assms(1) by (simp add: word_le_nat_alt unat_u64_minus [OF less_imp_le])
    ultimately show ?thesis by (simp add: word_less_nat_alt)
  qed simp
  then show ?thesis
    using True assms(1) by (simp add: page_loop.simps [of f t] page_loop.simps [of f "t + PAGE_SIZE"])
next
  case False
  then show ?thesis using assms(1) by (simp add: page_loop.simps [of f t])
qed

abbreviation page_offset :: "u64 \<Rightarrow> nat \<Rightarrow> u64" where
  "page_offset a k \<equiv> a + of_nat k * PAGE_SIZE"

lemma unat_page_offset:
  assumes "unat a + k * 4096 < 18446744073709551616"
  shows "unat (page_offset a k) = unat a + k * 4096"
proof -
  have "k < 18446744073709551616" using assms by linarith
  then have "unat (of_nat k * PAGE_SIZE :: u64) = k * 4096"
    using assms by (simp add: unat_u64_mult_small unat_of_nat_u64)
  then show ?thesis using assms by (simp add: unat_u64_plus_small)
qed

lemma page_loop_fold:
  assumes "unat a + n * 4096 < 18446744073709551616"
  shows "page_loop f a (page_offset a n) s = fold (\<lambda>k. f (page_offset a k)) [0..<n] s"
  using assms
proof (induction n arbitrary: a s)
  case 0
  then show ?case by (simp add: page_loop.simps)
next
  case (Suc n)
  have b: "unat (a + PAGE_SIZE) = unat a + 4096"
    using Suc.prems by (simp add: unat_u64_plus_small)
  have "a < page_offset a (Suc n)"
    using unat_page_offset [OF Suc.prems] by (simp add: word_less_nat_alt)
  moreover have "page_offset a (Suc n) = page_offset (a + PAGE_SIZE) n" by (simp add: algebra_simps)
  ultimately have "page_loop f a (page_offset a (Suc n)) s =
      page_loop f (a + PAGE_SIZE) (page_offset (a + PAGE_SIZE) n) (f a s)"
    using page_loop_unfold [of a "page_offset a (Suc n)" f s] Suc.prems by (simp add: add.assoc)
  also have "\<dots> = fold (\<lambda>k. f (page_offset (a + PAGE_SIZE) k)) [0..<n] (f a s)"
    using Suc.prems b by (intro Suc.IH) simp
  also have "\<dots> = fold (\<lambda>k. f (page_offset a k)) (map Suc [0..<n]) (f a s)"
    by (simp add: fold_map comp_def algebra_simps)
  finally show ?case by (simp add: map_Suc_upt upt_conv_Cons del: upt_Suc)
qed

lemma same_page_unat:
  "same_page a b \<longleftrightarrow> unat a div 4096 mod 68719476736 = unat b div 4096 mod 68719476736"
proof -
  have "unat (drop_bit 12 (take_bit 48 x)) = unat x div 4096 mod 68719476736" for x :: u64
  proof -
    have "unat (drop_bit 12 (take_bit 48 x)) = (unat x mod (4096 * 68719476736)) div 4096"
      by (simp add: drop_bit_eq_div take_bit_eq_mod unat_div unat_mod)
    also have "\<dots> = unat x div 4096 mod 68719476736"
      by (simp only: mod_mult2_eq)
    finally show ?thesis .
  qed
  then show ?thesis by (simp add: same_page_def word_unat_eq_iff)
qed

lemma same_page_refl [simp]: "same_page a a"
  by (simp add: same_page_def)

lemma mod_add_cancel_nat:
  fixes c j m k :: nat
  assumes "(c + j) mod m = (c + k) mod m" "j < m" "k < m"
  shows "j = k"
  using assms
proof (induction j k rule: linorder_wlog)
  case (le j k)
  then have "m dvd (c + k) - (c + j)" using mod_eq_dvd_iff_nat [of "c + j" "c + k" m] by simp
  with le show ?case by (auto dest!: dvd_imp_le)
qed simp

lemma same_page_offset:
  assumes "unat a + n * 4096 < 18446744073709551616" "n \<le> 68719476736" "j < n" "k < n"
  shows "same_page (page_offset a j) (page_offset a k) \<longleftrightarrow> j = k"
proof
  assume "same_page (page_offset a j) (page_offset a k)"
  then have eq: "(unat a div 4096 + j) mod 68719476736 = (unat a div 4096 + k) mod 68719476736"
    using assms by (simp add: same_page_unat unat_page_offset add.commute)
  then show "j = k"
    using assms(2-4) by (intro mod_add_cancel_nat [of "unat a div 4096" j 68719476736 k]) simp_all
qed simp

lemma same_page_sym: "same_page a b \<longleftrightarrow> same_page b a"
  by (auto simp: same_page_def)

definition run_demands :: "u64 \<Rightarrow> u64 \<Rightarrow> nat \<Rightarrow> (u64 \<times> u64 list) set" where
  "run_demands r va n = (\<lambda>k. (r, page_path (page_offset va k))) ` {..<n}"

lemma run_demands_ok: "r \<in> R \<Longrightarrow> demands_ok R (run_demands r va n)"
  by (auto simp: demands_ok_def run_demands_def)

lemma demands_ok_Un: "demands_ok R D \<Longrightarrow> demands_ok R E \<Longrightarrow> demands_ok R (D \<union> E)"
  by (auto simp: demands_ok_def)

definition vm_mapped_run :: "u64 set \<Rightarrow> (u64 \<times> u64 list) set \<Rightarrow> u64 \<Rightarrow> u64 \<Rightarrow> u64 \<Rightarrow> u64 \<Rightarrow> nat \<Rightarrow> vmm \<Rightarrow> vmm \<Rightarrow> bool" where
  "vm_mapped_run R D r va pa mf n s s' \<longleftrightarrow>
     vm_inv s' R \<and> supplied s' D \<and> keeps_tables R s s' \<and>
     (\<forall>k<n. mapped_leaf (page_offset pa k) mf (translate s' r (page_offset va k))) \<and>
     (\<forall>r'\<in>R. \<forall>va'. \<not> (r' = r \<and> (\<exists>k<n. same_page va' (page_offset va k))) \<longrightarrow>
        translate s' r' va' = translate s r' va') \<and>
     TotalPages (physical s') = TotalPages (physical s) \<and>
     ActivePageMap s' = ActivePageMap s \<and> CR3 s' = CR3 s"

lemma map_run_spec:
  assumes "vm_inv s R" "r \<in> R" "pde_flag mf Present" "demands_ok R D" "supplied s D"
    and "unat va + n * 4096 < 18446744073709551616" "n \<le> 68719476736" "run_demands r va n \<subseteq> D"
  shows "vm_mapped_run R D r va pa mf n s
    (fold (\<lambda>k. map_vm r (page_offset va k) (page_offset pa k) mf) [0..<n] s)"
  using assms(6-8)
proof (induction n)
  case 0
  then show ?case using assms(1,5) by (simp add: vm_mapped_run_def keeps_tables_def)
next
  case (Suc n)
  define s1 where "s1 = fold (\<lambda>k. map_vm r (page_offset va k) (page_offset pa k) mf) [0..<n] s"
  have sub: "run_demands r va n \<subseteq> D" "(r, page_path (page_offset va n)) \<in> D"
    using Suc.prems(3) by (auto simp: run_demands_def)
  have IH: "vm_mapped_run R D r va pa mf n s s1"
    using Suc.IH Suc.prems sub by (simp add: s1_def)
  then have new: "vm_mapped R D r (page_offset va n) (page_offset pa n) mf s1
      (map_vm r (page_offset va n) (page_offset pa n) mf s1)"
    using map_vm_spec [OF _ assms(2-4) sub(2)] by (simp add: vm_mapped_run_def)
  have "\<not> same_page (page_offset va k) (page_offset va n)" if "k < n" for k
    using same_page_offset [OF Suc.prems(1,2), of k n] that by simp
  moreover define s2 where "s2 = map_vm r (page_offset va n) (page_offset pa n) mf s1"
  moreover have "fold (\<lambda>k. map_vm r (page_offset va k) (page_offset pa k) mf) [0..<Suc n] s = s2"
    by (simp add: s2_def s1_def)
  moreover have "keeps_tables R s s2"
    using IH new by (auto simp: vm_mapped_run_def vm_mapped_def keeps_tables_def s2_def)
  moreover have "translate s2 r' va' = translate s r' va'"
    if "r' \<in> R" "\<not> (r' = r \<and> (\<exists>k<Suc n. same_page va' (page_offset va k)))" for r' va'
  proof -
    have "translate s2 r' va' = translate s1 r' va'"
      using new that unfolding vm_mapped_def s2_def by blast
    also have "\<dots> = translate s r' va'"
      using IH that unfolding vm_mapped_run_def by (blast intro: less_SucI)
    finally show ?thesis .
  qed
  ultimately show ?case
    using IH new assms(2) by (simp add: vm_mapped_run_def vm_mapped_def less_Suc_eq)
qed

lemma map_pages_fold:
  assumes "unat va + unat n * 4096 < 18446744073709551616"
  shows "map_pages r va pa mf n s =
    fold (\<lambda>k. map_vm r (page_offset va k) (page_offset pa k) mf) [0..<unat n] s"
  using page_loop_fold [OF assms, of "\<lambda>v. map_vm r v (pa + (v - va)) mf" s]
  by (simp add: map_pages_def)

section \<open>Unmapping\<close>

lemma unmap_spec:
  assumes inv: "vm_inv s R" and r: "r \<in> R"
    and pt: "table_at (tables s) r (butlast (page_path va)) \<noteq> None"
  shows "vm_inv (unmap r va s) R \<and> translate (unmap r va s) r va = None \<and>
    (\<forall>r'\<in>R. \<forall>va'. \<not> (r' = r \<and> same_page va' va) \<longrightarrow> translate (unmap r va s) r' va' = translate s r' va') \<and>
    physical (unmap r va s) = physical s"
proof -
  obtain i j k l where va: "page_path va = [i, j, k, l]" by (simp add: page_path_eq)
  have small: "i < 512" "j < 512" "k < 512" using page_path_bound [of va] by (simp_all add: va)
  obtain t where t: "table_at (tables s) r [i, j, k] = Some t" using pt by (auto simp: va)
  define e where "e = pde_set_flag Present False (tables s t l)"
  have eq: "unmap r va s = s\<lparr>tables := put (tables s) t l e\<rparr>"
    using va t by (simp add: unmap_def page_path_def write_entry_def e_def Let_def split: if_splits)
  have q: "table_path [i, j, k]" "length [i, j, k] = 3" using small by (simp_all add: table_path_def)
  note leaf = vm_inv_forest [OF inv] r t q
  have walk: "walk (tables (unmap r va s)) r' p = (if r' = r \<and> p = page_path va then None else walk (tables s) r' p)"
    if "r' \<in> R" "leaf_path p" for r' p
    using walk_leaf [OF leaf that, of l e] by (simp add: eq va e_def)
  moreover have "vm_inv (unmap r va s) R"
    using inv table_forest_leaf [OF leaf] by (simp add: vm_inv_def eq)
  ultimately show ?thesis
    using r by (auto simp: translate_def page_path_eq_iff eq)
qed

section \<open>Initialisation\<close>

text \<open>The last step of a loop may overshoot the bound by less than a page.\<close>

lemma page_loop_fold_ragged:
  assumes "unat a + Suc n * 4096 < 18446744073709551616"
    and "unat a + n * 4096 < unat e" "unat e \<le> unat a + Suc n * 4096"
  shows "page_loop f a e s = fold (\<lambda>k. f (page_offset a k)) [0..<Suc n] s"
  using assms
proof (induction n arbitrary: a s)
  case 0
  then have "a < e" "e - a \<le> PAGE_SIZE"
    by (simp_all add: word_less_nat_alt word_le_nat_alt unat_u64_minus)
  then show ?case by (simp add: page_loop.simps)
next
  case (Suc n)
  have b: "unat (a + PAGE_SIZE) = unat a + 4096"
    using Suc.prems by (simp add: unat_u64_plus_small)
  have "a < e" using Suc.prems(2) by (simp add: word_less_nat_alt)
  then have "page_loop f a e s = page_loop f (a + PAGE_SIZE) e (f a s)"
    using Suc.prems(1) by (intro page_loop_unfold) auto
  also have "\<dots> = fold (\<lambda>k. f (page_offset (a + PAGE_SIZE) k)) [0..<Suc n] (f a s)"
    using Suc.prems b by (intro Suc.IH) simp_all
  also have "\<dots> = fold (\<lambda>k. f (page_offset a k)) (map Suc [0..<Suc n]) (f a s)"
    by (simp add: fold_map comp_def algebra_simps del: upt_Suc)
  finally show ?case by (simp add: map_Suc_upt upt_conv_Cons del: upt_Suc)
qed

lemma mapped_leaf_present: "mapped_leaf pa mf e \<Longrightarrow> pde_flag mf Present \<Longrightarrow> \<exists>v. e = Some v \<and> pde_flag v Present"
  by (auto simp: mapped_leaf_def mapped_flags_def split: option.splits)

text \<open>The number of steps of the loop over the kernel image.\<close>

definition kernel_pages :: "kernel_layout \<Rightarrow> nat" where
  "kernel_pages k = (unat (KERNEL_END k - KERNEL_START k) + 8192) div 4096"

definition kernel_base :: "kernel_layout \<Rightarrow> u64" where
  "kernel_base k = KERNEL_PHYSICAL k + KERNEL_VIRTUAL k"

text \<open>
  A layout fits a machine with \<open>n\<close> pages: neither range of kernel addresses wraps around, and
  the kernel's virtual range lies apart from the identity-mapped one, which fits into 48 bits.
\<close>

definition layout_fits :: "kernel_layout \<Rightarrow> nat \<Rightarrow> bool" where
  "layout_fits k n \<longleftrightarrow>
     unat (KERNEL_PHYSICAL k) + kernel_pages k * 4096 < 18446744073709551616 \<and>
     unat (kernel_base k) + kernel_pages k * 4096 < 18446744073709551616 \<and>
     kernel_pages k \<le> 68719476736 \<and> n \<le> 68719476736 \<and>
     (\<forall>i<n. \<forall>j<kernel_pages k. \<not> same_page (page_offset 0 i) (page_offset (kernel_base k) j))"

lemma kernel_loop:
  assumes "layout_fits k m"
  shows "page_loop f (KERNEL_PHYSICAL k) (KERNEL_PHYSICAL k + (1 + (KERNEL_END k - KERNEL_START k)) + PAGE_SIZE) s =
    fold (\<lambda>j. f (page_offset (KERNEL_PHYSICAL k) j)) [0..<kernel_pages k] s"
proof -
  define d where "d = KERNEL_END k - KERNEL_START k"
  obtain n where n: "kernel_pages k = Suc n" "Suc n = (unat d + 8192) div 4096"
    by (cases "kernel_pages k") (auto simp: kernel_pages_def d_def)
  obtain r where "Suc n * 4096 + r = unat d + 8192" "r < 4096"
    using that [OF div_mult_mod_eq [of "unat d + 8192" 4096, folded n(2)]] by simp
  then have b: "n * 4096 < unat d + 4097 \<and> unat d + 4097 \<le> Suc n * 4096" by simp
  have fit: "unat (KERNEL_PHYSICAL k) + Suc n * 4096 < 18446744073709551616"
    using assms n(1) by (simp add: layout_fits_def)
  have d1: "unat (1 + d) = unat d + 1" using fit b by (subst unat_u64_plus_small) simp_all
  have kd: "unat (KERNEL_PHYSICAL k + (1 + d)) = unat (KERNEL_PHYSICAL k) + (unat d + 1)"
    using fit b d1 by (subst unat_u64_plus_small) simp_all
  have "unat (KERNEL_PHYSICAL k + (1 + d) + PAGE_SIZE) = unat (KERNEL_PHYSICAL k) + (unat d + 4097)"
    using fit b kd by (subst unat_u64_plus_small) simp_all
  then show ?thesis
    unfolding n(1) d_def [symmetric]
    using fit b by (intro page_loop_fold_ragged) simp_all
qed

lemma total_ram_loop:
  assumes "pmm_ready m"
  shows "page_loop f 0 (total_ram m) s = fold (\<lambda>i. f (page_offset 0 i)) [0..<unat (TotalPages m)] s"
proof -
  have "unat (TotalPages m) < 0xfffffffff0"
    using assms by (simp add: pmm_ready_def word_less_nat_alt)
  then show ?thesis
    using page_loop_fold [of 0 "unat (TotalPages m)" f s] by (simp add: total_ram_def)
qed

definition init_flags :: u64 where
  "init_flags = flag_bit Present OR flag_bit ReadWrite"

lemma init_flags_Present [simp]: "pde_flag init_flags Present"
  by (simp add: init_flags_def pde_flag_iff bit_or_iff)

definition init_demands :: "kernel_layout \<Rightarrow> u64 \<Rightarrow> vmm \<Rightarrow> (u64 \<times> u64 list) set" where
  "init_demands k pageMap s = run_demands pageMap 0 (unat (TotalPages (physical s)))
     \<union> run_demands pageMap (kernel_base k) (kernel_pages k)"

lemma init_maps_spec:
  assumes inv: "vm_inv s R" and pm: "pageMap \<in> R" and sup: "supplied s (init_demands k pageMap s)"
    and fit: "layout_fits k (unat (TotalPages (physical s)))"
  defines "s1 \<equiv> page_loop (\<lambda>t. map_vm pageMap t t init_flags) 0 (total_ram (physical s)) s"
  defines "s2 \<equiv> page_loop (\<lambda>t. map_vm pageMap (t + KERNEL_VIRTUAL k) t init_flags) (KERNEL_PHYSICAL k)
    (KERNEL_PHYSICAL k + (1 + (KERNEL_END k - KERNEL_START k)) + PAGE_SIZE) s1"
  shows "vm_inv s2 R \<and> keeps_tables R s s2 \<and> ActivePageMap s2 = ActivePageMap s
    \<and> (\<forall>i < unat (TotalPages (physical s)).
         mapped_leaf (page_offset 0 i) init_flags (translate s2 pageMap (page_offset 0 i)))
    \<and> (\<forall>j < kernel_pages k. mapped_leaf (page_offset (KERNEL_PHYSICAL k) j) init_flags
         (translate s2 pageMap (page_offset (kernel_base k) j)))"
proof -
  define D where "D = init_demands k pageMap s"
  define N where "N = unat (TotalPages (physical s))"
  have D: "demands_ok R D"
    unfolding D_def init_demands_def by (intro demands_ok_Un run_demands_ok pm)
  have "N < 0xfffffffff0"
    using vm_inv_ready [OF inv] by (simp add: pmm_ready_def word_less_nat_alt N_def)
  then have 1: "vm_mapped_run R D pageMap 0 0 init_flags N s s1"
    unfolding s1_def total_ram_loop [OF vm_inv_ready [OF inv]] N_def [symmetric]
    using inv pm D sup fit by (intro map_run_spec) (auto simp: D_def init_demands_def N_def layout_fits_def)
  have s2: "s2 = fold (\<lambda>j. map_vm pageMap (page_offset (kernel_base k) j)
      (page_offset (KERNEL_PHYSICAL k) j) init_flags) [0..<kernel_pages k] s1"
    unfolding s2_def kernel_loop [OF fit] by (simp add: kernel_base_def algebra_simps)
  have 2: "vm_mapped_run R D pageMap (kernel_base k) (KERNEL_PHYSICAL k) init_flags (kernel_pages k) s1 s2"
    unfolding s2 using 1 pm D fit
    by (intro map_run_spec) (auto simp: vm_mapped_run_def layout_fits_def D_def init_demands_def)
  have "translate s2 pageMap (page_offset 0 i) = translate s1 pageMap (page_offset 0 i)" if "i < N" for i
    using 2 pm fit that unfolding vm_mapped_run_def layout_fits_def N_def by blast
  then show ?thesis
    using 1 2 by (simp add: vm_mapped_run_def keeps_tables_def N_def)
qed

lemma init_virtual_map_eq:
  "init_virtual_map k pageMap s = flush_page_map pageMap (unmap_active 0
     (page_loop (\<lambda>t. map_vm pageMap (t + KERNEL_VIRTUAL k) t init_flags) (KERNEL_PHYSICAL k)
       (KERNEL_PHYSICAL k + (1 + (KERNEL_END k - KERNEL_START k)) + PAGE_SIZE)
       (page_loop (\<lambda>t. map_vm pageMap t t init_flags) 0 (total_ram (physical s)) s)))"
  by (simp add: init_virtual_map_def init_flags_def Let_def)

lemma translate_flush [simp]: "translate (flush_page_map p s) = translate s"
  by (simp add: translate_def flush_page_map_def fun_eq_iff)

lemma vm_inv_flush [simp]: "vm_inv (flush_page_map p s) R = vm_inv s R"
  by (simp add: vm_inv_def flush_page_map_def)

section \<open>Properties\<close>

lemma table_at_zero: "(\<And>i. T t i = 0) \<Longrightarrow> table_at T t p = (if p = [] then Some t else None)"
  by (cases p) simp_all

lemma table_forest_zero:
  assumes "\<And>r. r \<in> R \<Longrightarrow> locked_page m r" "\<And>r i. r \<in> R \<Longrightarrow> T r i = 0"
  shows "table_forest m T R"
  using assms by (auto simp: table_forest_def table_at_zero split: if_splits)

lemma reserve_eval:
  "reserve m = length (filter (\<lambda>i. \<not> bitmap_get (PageMap m) i) (u64_upto (TotalPages m)))"
proof -
  have "allocatable m = set (filter (\<lambda>i. \<not> bitmap_get (PageMap m) i) (u64_upto (TotalPages m)))"
    by (auto simp: mem_allocatable set_u64_upto)
  then show ?thesis
    by (simp only: reserve_def distinct_card [OF distinct_filter [OF distinct_u64_upto]])
qed

lemma supplied_bound:
  assumes "prefixes D \<subseteq> set xs" and "length xs \<le> reserve (physical s)"
  shows "supplied s D"
proof -
  have "missing (tables s) D \<subseteq> set xs" using assms(1) by (auto simp: missing_def)
  then have "card (missing (tables s) D) \<le> length xs"
    by (meson List.finite_set card_length card_mono le_trans)
  then show ?thesis using assms(2) by (simp add: supplied_def)
qed

text \<open>
  A small machine: thirteen pages, page 0 and the two empty page maps at \<open>0x2000\<close> (active) and
  \<open>0x3000\<close> locked.
\<close>

definition example_vm :: vmm where
  "example_vm = \<lparr>physical = \<lparr>PageMap = \<lparr>Size = 2, Buffer = [0b10110000, 0b00000111]\<rparr>,
       TotalPages = 13, TotalFreePages = 10, TotalUsedPages = 4, MaxFreePagesInARow = 9, FirstFreePage = 1\<rparr>,
     tables = (\<lambda>_ _. 0), ActivePageMap = 0x2000, CR3 = 0x2000\<rparr>"

lemma example_vm_pmm_inv: "pmm_inv (physical example_vm)"
  unfolding pmm_inv_eval by code_simp

lemma example_vm_inv: "vm_inv example_vm {0x2000, 0x3000}"
proof -
  have "bitmap_get (PageMap (physical example_vm)) 0 \<and> TotalPages (physical example_vm) < 0xfffffffff0"
    by code_simp
  moreover have "locked_page (physical example_vm) 0x2000" "locked_page (physical example_vm) 0x3000"
    unfolding locked_page_def by code_simp+
  ultimately show ?thesis
    using example_vm_pmm_inv
    by (auto simp: vm_inv_def pmm_ready_def example_vm_def intro!: table_forest_zero)
qed

text \<open>
  C2: mapping a page sets the translation of that page, in that page map, to the physical
  address and flags asked for, keeps the page tables disjoint trees of locked pages, and leaves
  the translation of every other page of every page map as it was. It needs one free page for
  each table that is missing on the way.
\<close>

theorem map_page_isolated:
  assumes "vm_inv s R" and "r \<in> R" and "pde_flag mf Present"
    and "supplied s {(r, page_path va)}"
  shows "vm_inv (map_vm r va pa mf s) R
    \<and> mapped_leaf pa mf (translate (map_vm r va pa mf s) r va)
    \<and> (\<forall>r'\<in>R. \<forall>va'. \<not> (r' = r \<and> same_page va' va) \<longrightarrow>
          translate (map_vm r va pa mf s) r' va' = translate s r' va')"
proof -
  have "demands_ok R {(r, page_path va)}" using assms(2) by (simp add: demands_ok_def)
  from map_vm_spec [OF assms(1-3) this _ assms(4)] show ?thesis by (simp add: vm_mapped_def)
qed

theorem map_page_isolated_witness:
  "vm_inv example_vm {0x2000, 0x3000} \<and> supplied example_vm {(0x2000, page_path 0x400000)} \<and>
   mapped_leaf 0x5000 3 (translate (map_vm 0x2000 0x400000 0x5000 3 example_vm) 0x2000 0x400000) \<and>
   translate (map_vm 0x2000 0x400000 0x5000 3 example_vm) 0x3000 0x400000 = None"
proof -
  have sup: "supplied example_vm {(0x2000, page_path 0x400000)}"
    unfolding supplied_def reserve_eval by code_simp
  have mf: "pde_flag 3 Present" by code_simp
  have none: "translate example_vm 0x3000 0x400000 = None" by code_simp
  show ?thesis
    using map_page_isolated [OF example_vm_inv _ mf sup, where pa = "0x5000"] example_vm_inv sup none by simp
qed

text \<open>
  C15: mapping a run of pages translates the k-th page of the virtual run to the k-th page of the
  physical run, with the flags asked for, and leaves every other page of every page map alone.
\<close>

theorem map_pages_isolated:
  assumes "vm_inv s R" and "r \<in> R" and "pde_flag mf Present"
    and "unat va + unat n * 4096 < 18446744073709551616" and "unat n \<le> 68719476736"
    and "supplied s (run_demands r va (unat n))"
  shows "vm_inv (map_pages r va pa mf n s) R
    \<and> (\<forall>k < unat n. mapped_leaf (page_offset pa k) mf
          (translate (map_pages r va pa mf n s) r (page_offset va k)))
    \<and> (\<forall>r'\<in>R. \<forall>va'. \<not> (r' = r \<and> (\<exists>k < unat n. same_page va' (page_offset va k))) \<longrightarrow>
          translate (map_pages r va pa mf n s) r' va' = translate s r' va')"
  using map_run_spec [OF assms(1-3) run_demands_ok [OF assms(2)] assms(6,4,5) subset_refl, of pa]
  by (simp add: vm_mapped_run_def map_pages_fold [OF assms(4)])

theorem map_pages_isolated_witness:
  "supplied example_vm (run_demands 0x2000 0x1ff000 3) \<and>
   mapped_leaf (page_offset 0x8000 2) 3
     (translate (map_pages 0x2000 0x1ff000 0x8000 3 3 example_vm) 0x2000 (page_offset 0x1ff000 2))"
proof -
  have sup: "supplied example_vm (run_demands 0x2000 0x1ff000 (unat (3 :: u64)))"
    unfolding supplied_def reserve_eval by code_simp
  have mf: "pde_flag 3 Present" by code_simp
  have "\<forall>k < unat (3 :: u64). mapped_leaf (page_offset 0x8000 k) 3
      (translate (map_pages 0x2000 0x1ff000 0x8000 3 3 example_vm) 0x2000 (page_offset 0x1ff000 k))"
    using map_pages_isolated [OF example_vm_inv _ mf _ _ sup, where pa = "0x8000"] by simp
  moreover have "2 < unat (3 :: u64)" by simp
  ultimately show ?thesis using sup by (auto dest: spec [of _ 2])
qed

text \<open>
  C16: unmapping a page whose tables exist removes its translation and no other, in this page
  map and in all others, and leaves the physical allocator alone.
\<close>

theorem unmap_isolated:
  assumes "vm_inv s R" and "r \<in> R"
    and "table_at (tables s) r (butlast (page_path va)) \<noteq> None"
  shows "vm_inv (unmap r va s) R \<and> translate (unmap r va s) r va = None \<and>
    (\<forall>r'\<in>R. \<forall>va'. \<not> (r' = r \<and> same_page va' va) \<longrightarrow> translate (unmap r va s) r' va' = translate s r' va') \<and>
    physical (unmap r va s) = physical s"
  by (rule unmap_spec [OF assms])

definition example_mapped :: vmm where
  "example_mapped = map_vm 0x2000 0 0 3 example_vm"

lemma example_mapped_inv: "vm_inv example_mapped {0x2000, 0x3000}"
proof -
  have sup: "supplied example_vm {(0x2000, page_path 0)}"
    unfolding supplied_def reserve_eval by code_simp
  have mf: "pde_flag 3 Present" by code_simp
  have "demands_ok {0x2000, 0x3000} {(0x2000, page_path 0)}" by (simp add: demands_ok_def)
  from map_vm_spec [OF example_vm_inv _ mf this _ sup, where pa = 0] show ?thesis
    by (simp add: vm_mapped_def example_mapped_def)
qed

lemma example_mapped_physical:
  "physical example_mapped = \<lparr>PageMap = \<lparr>Size = 2, Buffer = [0b11111100, 0b00000111]\<rparr>,
     TotalPages = 13, TotalFreePages = 7, TotalUsedPages = 7, MaxFreePagesInARow = 9, FirstFreePage = 6\<rparr>"
  by code_simp

theorem unmap_isolated_witness:
  "translate example_mapped 0x2000 0 \<noteq> None \<and> translate (unmap 0x2000 0 example_mapped) 0x2000 0 = None"
proof -
  have "table_at (tables example_mapped) 0x2000 (butlast (page_path 0)) \<noteq> None" by code_simp
  moreover have "translate example_mapped 0x2000 0 \<noteq> None" by code_simp
  ultimately show ?thesis
    using unmap_isolated [OF example_mapped_inv, of "0x2000" 0] by simp
qed

text \<open>
  C17: \<open>init_virtual\<close> maps every page of physical memory to itself and the kernel image at its
  virtual base, both writable, in the new page map and makes it the active one. Page 0 is one of
  the pages mapped: the call \<open>unmap(nullptr)\<close> that is meant to make a null dereference fault
  works on the page map that was active before, so address 0 stays mapped in the new one.
\<close>

theorem init_virtual_maps_all:
  assumes "vm_inv s R" and "pageMap \<in> R" and "supplied s (init_demands k pageMap s)"
    and "layout_fits k (unat (TotalPages (physical s)))" and "0 < TotalPages (physical s)"
    and "ActivePageMap s \<in> R" and "ActivePageMap s \<noteq> pageMap"
    and "table_at (tables s) (ActivePageMap s) (butlast (page_path 0)) \<noteq> None"
  shows "vm_inv (init_virtual_map k pageMap s) R
    \<and> ActivePageMap (init_virtual_map k pageMap s) = pageMap
    \<and> (\<forall>i < unat (TotalPages (physical s)). mapped_leaf (page_offset 0 i) init_flags
          (translate (init_virtual_map k pageMap s) pageMap (page_offset 0 i)))
    \<and> (\<forall>j < kernel_pages k. mapped_leaf (page_offset (KERNEL_PHYSICAL k) j) init_flags
          (translate (init_virtual_map k pageMap s) pageMap (page_offset (kernel_base k) j)))
    \<and> translate (init_virtual_map k pageMap s) pageMap 0 \<noteq> None"
proof -
  define s2 where "s2 = page_loop (\<lambda>t. map_vm pageMap (t + KERNEL_VIRTUAL k) t init_flags) (KERNEL_PHYSICAL k)
    (KERNEL_PHYSICAL k + (1 + (KERNEL_END k - KERNEL_START k)) + PAGE_SIZE)
    (page_loop (\<lambda>t. map_vm pageMap t t init_flags) 0 (total_ram (physical s)) s)"
  note spec = init_maps_spec [OF assms(1-4), folded s2_def]
  have act: "ActivePageMap s2 = ActivePageMap s" "ActivePageMap s2 \<in> R"
    using spec assms(6) by simp_all
  have "table_path (butlast (page_path 0))" by (simp add: page_path_eq table_path_def)
  then have "table_at (tables s2) (ActivePageMap s2) (butlast (page_path 0)) \<noteq> None"
    using spec assms(6,8) act unfolding keeps_tables_def by auto
  note un = unmap_spec [OF conjunct1 [OF spec] act(2) this]
  have keep: "translate (init_virtual_map k pageMap s) pageMap va = translate s2 pageMap va" for va
    using un assms(2,7) act(1) by (simp add: init_virtual_map_eq s2_def [symmetric] unmap_active_def)
  have "mapped_leaf (page_offset 0 0) init_flags (translate s2 pageMap (page_offset 0 0))"
    using spec assms(5) unfolding word_less_nat_alt unsigned_0 by blast
  then have "translate s2 pageMap 0 \<noteq> None" by (auto simp: mapped_leaf_def split: option.splits)
  moreover have "vm_inv (init_virtual_map k pageMap s) R"
    using un by (simp add: init_virtual_map_eq s2_def [symmetric] unmap_active_def)
  moreover have "ActivePageMap (init_virtual_map k pageMap s) = pageMap"
    by (simp add: init_virtual_map_eq flush_page_map_def)
  ultimately show ?thesis using spec by (simp add: keep)
qed

definition example_layout :: kernel_layout where
  "example_layout = \<lparr>KERNEL_PHYSICAL = 0x4000, KERNEL_VIRTUAL = 0xffffffff80000000,
     KERNEL_START = 0xffffffff80004000, KERNEL_END = 0xffffffff80004800\<rparr>"

lemma kernel_pages_example: "kernel_pages example_layout = 2"
  by (simp add: kernel_pages_def example_layout_def)

lemma example_layout_fits: "layout_fits example_layout (unat (TotalPages (physical example_mapped)))"
proof -
  have pages: "unat (TotalPages (physical example_mapped)) = 13" by (simp add: example_mapped_physical)
  have "list_all (\<lambda>i. list_all (\<lambda>j. \<not> same_page (page_offset 0 i)
      (page_offset (kernel_base example_layout) j)) [0..<2]) [0..<13]"
    by code_simp
  moreover have "unat (kernel_base example_layout) = 18446744071562084352"
    by (simp add: kernel_base_def example_layout_def)
  moreover have "unat (KERNEL_PHYSICAL example_layout) = 16384" by (simp add: example_layout_def)
  ultimately show ?thesis by (simp add: layout_fits_def pages kernel_pages_example list_all_iff)
qed

theorem init_virtual_maps_all_witness:
  "translate (init_virtual_map example_layout 0x3000 example_mapped) 0x3000 0 \<noteq> None"
proof -
  have sup: "supplied example_mapped (init_demands example_layout 0x3000 example_mapped)"
  proof (rule supplied_bound)
    have "prefixes (run_demands 0x3000 0 13 \<union>
        run_demands 0x3000 (kernel_base example_layout) 2) \<subseteq>
        set [(0x3000, [0]), (0x3000, [0, 0]), (0x3000, [0, 0, 0]),
             (0x3000, [511]), (0x3000, [511, 510]), (0x3000, [511, 510, 0])]"
      by code_simp
    then show "prefixes (init_demands example_layout 0x3000 example_mapped) \<subseteq> \<dots>"
      by (simp add: init_demands_def example_mapped_physical kernel_pages_example)
  qed (unfold reserve_eval example_mapped_physical, code_simp)
  have "TotalPages (physical example_mapped) > 0" "ActivePageMap example_mapped = 0x2000"
    "table_at (tables example_mapped) 0x2000 (butlast (page_path 0)) \<noteq> None"
    by code_simp+
  then show ?thesis
    using init_virtual_maps_all [OF example_mapped_inv _ sup example_layout_fits] by simp
qed

end
