(* ===== verification/PageMapClone.thy ===== *)
theory PageMapClone
  imports PageMapping
begin

text \<open>
  Copying and freeing whole page maps: \<open>clone_page_map\<close>, its copy-on-write version and
  \<open>free_page_map\<close>. A copy has the shape of the original, lives in pages that were free before
  and translates every address as the original does; freeing a page map gives back exactly the
  pages of its tables.
\<close>

section \<open>Paths and frames\<close>

definition short_path :: "nat \<Rightarrow> u64 list \<Rightarrow> bool" where
  "short_path n q \<longleftrightarrow> length q \<le> n \<and> list_all (\<lambda>i. i < 512) q"

lemma short_path_Nil [simp]: "short_path n []"
  by (simp add: short_path_def)

lemma short_path_Cons [simp]: "short_path (Suc n) (i # q) \<longleftrightarrow> i < 512 \<and> short_path n q"
  by (auto simp: short_path_def)

lemma short_path_0 [simp]: "short_path 0 q \<longleftrightarrow> q = []"
  by (auto simp: short_path_def)

lemma table_path_short: "table_path q = short_path 3 q"
  by (simp add: table_path_def short_path_def)

text \<open>A path depends on the contents of the tables it passes through and on nothing else.\<close>

lemma table_at_frame:
  assumes "\<And>p r a. q = p @ r \<Longrightarrow> r \<noteq> [] \<Longrightarrow> table_at T t p = Some a \<Longrightarrow> T' a = T a"
  shows "table_at T' t q = table_at T t q"
  using assms
proof (induction q arbitrary: t)
  case (Cons i q)
  have t: "T' t = T t" using Cons.prems [of "[]" "i # q"] by simp
  show ?case
  proof (cases "pde_flag (T t i) Present")
    case True
    have "table_at T' (pde_address (T t i)) q = table_at T (pde_address (T t i)) q"
    proof (rule Cons.IH)
      fix p r a
      assume "q = p @ r" "r \<noteq> []" "table_at T (pde_address (T t i)) p = Some a"
      then show "T' a = T a" using Cons.prems [of "i # p" r a] True by simp
    qed
    then show ?thesis using t True by simp
  qed (simp add: t)
qed simp

lemma short_path_prefix: "short_path n (p @ r) \<Longrightarrow> short_path n p"
  by (simp add: short_path_def)

definition keeps :: "pmm \<Rightarrow> (u64 \<Rightarrow> u64 \<Rightarrow> u64) \<Rightarrow> (u64 \<Rightarrow> u64 \<Rightarrow> u64) \<Rightarrow> bool" where
  "keeps m T T' \<longleftrightarrow> (\<forall>a. locked_page m a \<longrightarrow> T' a = T a)"

definition rooted :: "pmm \<Rightarrow> (u64 \<Rightarrow> u64 \<Rightarrow> u64) \<Rightarrow> nat \<Rightarrow> u64 \<Rightarrow> bool" where
  "rooted m T n t \<longleftrightarrow> (\<forall>q a. short_path n q \<longrightarrow> table_at T t q = Some a \<longrightarrow> locked_page m a)"

lemma keeps_table_at:
  assumes "keeps m T T'" "rooted m T n t" "short_path n q"
  shows "table_at T' t q = table_at T t q"
  using assms by (intro table_at_frame) (auto simp: keeps_def rooted_def dest: short_path_prefix)

lemma rooted_child:
  assumes "rooted m T (Suc n) t" "pde_flag (T t i) Present" "i < 512"
  shows "rooted m T n (pde_address (T t i))"
  unfolding rooted_def
proof (intro allI impI)
  fix q a
  assume "short_path n q" "table_at T (pde_address (T t i)) q = Some a"
  then show "locked_page m a"
    using assms(1) [unfolded rooted_def, rule_format, of "i # q" a] assms(2,3) by simp
qed

lemma rooted_root: "rooted m T n t \<Longrightarrow> locked_page m t"
  unfolding rooted_def by (metis short_path_Nil table_at.simps(1))

text \<open>The number of tables of a page map with \<open>n\<close> levels below its root.\<close>

fun tcount :: "(u64 \<Rightarrow> u64 \<Rightarrow> u64) \<Rightarrow> nat \<Rightarrow> u64 \<Rightarrow> nat" where
  "tcount T 0 t = 1"
| "tcount T (Suc n) t = Suc (sum_list (map
     (\<lambda>i. if pde_flag (T t i) Present then tcount T n (pde_address (T t i)) else 0) (u64_upto 512)))"

lemma tcount_keeps:
  assumes "keeps m T T'" "rooted m T n t"
  shows "tcount T' n t = tcount T n t"
  using assms(2)
proof (induction n arbitrary: t)
  case (Suc n)
  have t: "T' t = T t" using assms(1) rooted_root [OF Suc.prems] by (simp add: keeps_def)
  have "map (\<lambda>i. if pde_flag (T' t i) Present then tcount T' n (pde_address (T' t i)) else 0) (u64_upto 512) =
        map (\<lambda>i. if pde_flag (T t i) Present then tcount T n (pde_address (T t i)) else 0) (u64_upto 512)"
    using Suc.IH rooted_child [OF Suc.prems] by (intro map_cong refl) (simp add: t set_u64_upto)
  then show ?case by (simp only: tcount.simps)
qed simp

lemma keeps_trans:
  assumes "keeps m T T'" "keeps m' T' T''" "\<And>a. locked_page m a \<Longrightarrow> locked_page m' a"
  shows "keeps m T T''"
  using assms by (auto simp: keeps_def)

section \<open>A copied tree\<close>

text \<open>
  Node by node: \<open>T'\<close> below \<open>b\<close> has a table exactly where \<open>T\<close> has one below \<open>t\<close>, and the
  entries of its last-level tables are the original ones passed through \<open>tr\<close>.
\<close>

definition mirrors :: "(u64 \<Rightarrow> u64) \<Rightarrow> nat \<Rightarrow> (u64 \<Rightarrow> u64 \<Rightarrow> u64) \<Rightarrow> u64 \<Rightarrow> (u64 \<Rightarrow> u64 \<Rightarrow> u64) \<Rightarrow> u64 \<Rightarrow> u64 list \<Rightarrow> bool" where
  "mirrors tr n T t T' b q \<longleftrightarrow> (case (table_at T t q, table_at T' b q) of
       (None, None) \<Rightarrow> True
     | (Some a, Some a') \<Rightarrow>
         length q = n \<longrightarrow> (\<forall>j<512. T' a' j = (if pde_flag (T a j) Present then tr (T a j) else 0))
     | _ \<Rightarrow> False)"

definition injective_paths :: "nat \<Rightarrow> (u64 \<Rightarrow> u64 \<Rightarrow> u64) \<Rightarrow> u64 \<Rightarrow> bool" where
  "injective_paths n T t \<longleftrightarrow> (\<forall>q q' a. short_path n q \<longrightarrow> short_path n q' \<longrightarrow>
     table_at T t q = Some a \<longrightarrow> table_at T t q' = Some a \<longrightarrow> q = q')"

text \<open>The tables below \<open>b\<close> are locked now and were not locked in \<open>m\<close>.\<close>

definition fresh_tree :: "pmm \<Rightarrow> pmm \<Rightarrow> (u64 \<Rightarrow> u64 \<Rightarrow> u64) \<Rightarrow> nat \<Rightarrow> u64 \<Rightarrow> bool" where
  "fresh_tree m m' T n b \<longleftrightarrow> (\<forall>q a. short_path n q \<longrightarrow> table_at T b q = Some a \<longrightarrow>
     locked_page m' a \<and> \<not> locked_page m a)"

text \<open>What every part of the clone keeps of the state it starts from.\<close>

definition grows :: "vmm \<Rightarrow> vmm \<Rightarrow> bool" where
  "grows s s' \<longleftrightarrow> pmm_ready (physical s') \<and> keeps (physical s) (tables s) (tables s') \<and>
     (\<forall>a. locked_page (physical s) a \<longrightarrow> locked_page (physical s') a) \<and>
     TotalPages (physical s') = TotalPages (physical s) \<and>
     ActivePageMap s' = ActivePageMap s \<and> CR3 s' = CR3 s"

lemma grows_refl: "pmm_ready (physical s) \<Longrightarrow> grows s s"
  by (simp add: grows_def keeps_def)

lemma grows_trans: "grows s1 s2 \<Longrightarrow> grows s2 s3 \<Longrightarrow> grows s1 s3"
  unfolding grows_def keeps_def by simp

definition copied :: "(u64 \<Rightarrow> u64) \<Rightarrow> nat \<Rightarrow> vmm \<Rightarrow> u64 \<Rightarrow> vmm \<Rightarrow> u64 \<Rightarrow> bool" where
  "copied tr n s t s' b \<longleftrightarrow>
     grows s s' \<and> fresh_tree (physical s) (physical s') (tables s') n b \<and>
     injective_paths n (tables s') b \<and>
     (\<forall>q. short_path n q \<longrightarrow> mirrors tr n (tables s) t (tables s') b q)"

lemma mirrors_cong:
  assumes "table_at T1 t1 q1 = table_at T2 t2 q2" "table_at U1 b1 q1 = table_at U2 b2 q2"
    and "\<And>a. table_at T2 t2 q2 = Some a \<Longrightarrow> T1 a = T2 a"
    and "\<And>a. table_at U2 b2 q2 = Some a \<Longrightarrow> U1 a = U2 a"
    and "length q1 = n1 \<longleftrightarrow> length q2 = n2"
  shows "mirrors tr n1 T1 t1 U1 b1 q1 = mirrors tr n2 T2 t2 U2 b2 q2"
  using assms by (cases "table_at T2 t2 q2"; cases "table_at U2 b2 q2") (simp_all add: mirrors_def)

text \<open>Reads of the original give the same in any later state.\<close>

lemma mirrors_keeps:
  assumes "keeps m T0 T" "rooted m T0 n t" "short_path n q"
  shows "mirrors tr n T t T' b q = mirrors tr n T0 t T' b q"
  using assms by (intro mirrors_cong) (auto simp: keeps_table_at keeps_def rooted_def)

section \<open>The last level\<close>

lemma clone_leaf_loop_eq:
  assumes "old \<noteq> new" "distinct is"
  shows "clone_leaf_loop tr old new is s = s\<lparr>tables := (tables s)(new := (\<lambda>i.
    if i \<in> set is \<and> pde_flag (tables s old i) Present then tr (tables s old i) else tables s new i))\<rparr>"
  using assms
proof (induction "is" arbitrary: s)
  case Nil
  then show ?case by simp
next
  case (Cons i "is")
  then show ?case
    by (cases "pde_flag (tables s old i) Present")
       (auto simp: write_entry_def Let_def fun_eq_iff intro!: vmm.equality)
qed

lemma request_zeroed:
  assumes ready: "pmm_ready (physical s)" and res: "0 < reserve (physical s)"
    and b: "b = fst (vm_request_page s)" and s2: "s2 = memset_page b (snd (vm_request_page s))"
  shows "b \<noteq> 0" "pde_address b = b" "grows s s2" "locked_page (physical s2) b" "\<not> locked_page (physical s) b"
    "tables s2 b = (\<lambda>_. 0)" "Suc (reserve (physical s2)) = reserve (physical s)"
proof -
  have p: "physical s2 = snd (request_page (physical s))" "b = fst (request_page (physical s))"
    "tables s2 = (tables s)(b := (\<lambda>_. 0))"
    by (simp_all add: b s2 vm_request_page_eq memset_page_def)
  show "b \<noteq> 0" "pde_address b = b" using ps.request_entry [OF ready res] by (simp_all add: p)
  show fresh: "\<not> locked_page (physical s) b" using ps.request_fresh [OF ready res] by (simp add: p)
  show "locked_page (physical s2) b" using ps.request_locks [OF ready res] by (simp add: p)
  show "tables s2 b = (\<lambda>_. 0)" by (simp add: p)
  show "Suc (reserve (physical s2)) = reserve (physical s)"
    using ps.request_reserve [OF ready res] by (simp add: p)
  show "grows s s2"
    using ps.request_ready [OF ready] ps.request_locks [OF ready res] fresh request_page_TotalPages [OF ready]
    by (auto simp: grows_def keeps_def p s2 memset_page_def vm_request_page_eq)
qed

definition transparent :: "(u64 \<Rightarrow> u64) \<Rightarrow> bool" where
  "transparent tr \<longleftrightarrow> (\<forall>v. pde_flag (tr v) Present = pde_flag v Present \<and> pde_address (tr v) = pde_address v)"

lemma transparent_id: "transparent id"
  by (simp add: transparent_def)

lemma transparent_cow: "transparent make_pde_cow"
  by (simp add: transparent_def make_pde_cow_def)

lemma clone_leaf_spec:
  assumes ready: "pmm_ready (physical s)" and root: "rooted (physical s) (tables s) 0 t"
    and res: "1 \<le> reserve (physical s)"
  shows "fst (clone_table 0 tr t s) \<noteq> 0
    \<and> copied tr 0 s t (snd (clone_table 0 tr t s)) (fst (clone_table 0 tr t s))
    \<and> Suc (reserve (physical (snd (clone_table 0 tr t s)))) = reserve (physical s)"
proof -
  define b where "b = fst (vm_request_page s)"
  define s2 where "s2 = memset_page b (snd (vm_request_page s))"
  have res': "0 < reserve (physical s)" using res by simp
  note z = request_zeroed [OF ready res' b_def s2_def]
  have tb: "t \<noteq> b" using rooted_root [OF root] z(5) by auto
  have tt: "tables s2 t = tables s t" using z(3) rooted_root [OF root] by (simp add: grows_def keeps_def)
  define s3 where "s3 = clone_leaf_loop tr t b (u64_upto 512) s2"
  have s3: "s3 = s2\<lparr>tables := (tables s2)(b := (\<lambda>i. if i < 512 \<and> pde_flag (tables s t i) Present
      then tr (tables s t i) else 0))\<rparr>"
    unfolding s3_def clone_leaf_loop_eq [OF tb distinct_u64_upto] by (simp add: set_u64_upto tt z(6) cong: if_cong)
  have "grows s s3" using z(3,5) by (auto simp: grows_def keeps_def s3)
  then have "copied tr 0 s t s3 b"
    using z(4,5) by (auto simp: copied_def fresh_tree_def injective_paths_def mirrors_def s3)
  moreover have "clone_table 0 tr t s = (b, s3)"
    using z(1) by (simp add: clone_table.simps b_def s2_def s3_def split_beta Let_def)
  ultimately show ?thesis using z(1,7) by (simp add: s3)
qed

section \<open>The upper levels\<close>

text \<open>
  The invariant of the loop over a table: the entries in \<open>D\<close> are done, the others are still
  zero; everything below \<open>b\<close> is a fresh tree.
\<close>

definition loop_inv :: "(u64 \<Rightarrow> u64) \<Rightarrow> nat \<Rightarrow> vmm \<Rightarrow> u64 \<Rightarrow> u64 \<Rightarrow> u64 set \<Rightarrow> vmm \<Rightarrow> bool" where
  "loop_inv tr n s0 t b D s \<longleftrightarrow>
     grows s0 s \<and> fresh_tree (physical s0) (physical s) (tables s) (Suc n) b \<and>
     injective_paths (Suc n) (tables s) b \<and>
     (\<forall>j. j \<notin> D \<longrightarrow> tables s b j = 0) \<and>
     (\<forall>j\<in>D. \<forall>q. short_path (Suc n) (j # q) \<longrightarrow> mirrors tr (Suc n) (tables s0) t (tables s) b (j # q))"

lemma loop_invD:
  assumes "loop_inv tr n s0 t b D s"
  shows "grows s0 s" "fresh_tree (physical s0) (physical s) (tables s) (Suc n) b"
    "injective_paths (Suc n) (tables s) b" "j \<notin> D \<Longrightarrow> tables s b j = 0"
    "j \<in> D \<Longrightarrow> short_path (Suc n) (j # q) \<Longrightarrow> mirrors tr (Suc n) (tables s0) t (tables s) b (j # q)"
  using assms unfolding loop_inv_def by blast+

lemma fresh_treeD:
  "fresh_tree m m' T n b \<Longrightarrow> short_path n q \<Longrightarrow> table_at T b q = Some a \<Longrightarrow> locked_page m' a \<and> \<not> locked_page m a"
  by (simp add: fresh_tree_def)

lemma injective_pathsD:
  "injective_paths n T t \<Longrightarrow> short_path n q \<Longrightarrow> short_path n q' \<Longrightarrow> table_at T t q = Some a \<Longrightarrow>
   table_at T t q' = Some a \<Longrightarrow> q = q'"
  unfolding injective_paths_def by blast

text \<open>Hanging the copied child \<open>c\<close> into entry \<open>i\<close> of \<open>b\<close>.\<close>

lemma table_at_hang:
  assumes inv: "loop_inv tr n s0 t b D s" and i: "i < 512" "i \<notin> D"
    and child: "copied tr n s x s1 c"
    and e: "pde_flag e Present" "pde_address e = c"
  defines "T2 \<equiv> put (tables s1) b i e"
  shows "short_path n q \<Longrightarrow> table_at T2 b (i # q) = table_at (tables s1) c q"
    and "short_path n q \<Longrightarrow> table_at (tables s1) c q = Some a \<Longrightarrow>
           T2 a = tables s1 a \<and> a \<noteq> b \<and> locked_page (physical s1) a \<and> \<not> locked_page (physical s) a"
    and "j \<noteq> i \<Longrightarrow> short_path (Suc n) (j # q) \<Longrightarrow> table_at T2 b (j # q) = table_at (tables s) b (j # q)"
    and "j \<noteq> i \<Longrightarrow> short_path (Suc n) (j # q) \<Longrightarrow> table_at (tables s) b (j # q) = Some a \<Longrightarrow>
           T2 a = tables s a \<and> a \<noteq> b \<and> locked_page (physical s) a"
proof -
  have grow: "grows s s1" using child by (simp add: copied_def)
  have b: "locked_page (physical s) b"
    using inv by (auto simp: loop_inv_def dest: fresh_treeD [where q = "[]" and a = b])
  have Tb: "tables s1 b = tables s b" using grow b by (simp add: grows_def keeps_def)
  show node: "T2 a = tables s1 a \<and> a \<noteq> b \<and> locked_page (physical s1) a \<and> \<not> locked_page (physical s) a"
    if "short_path n q" "table_at (tables s1) c q = Some a" for q a
    using child b fresh_treeD [OF _ that] by (auto simp: copied_def T2_def)
  have "table_at T2 c q = table_at (tables s1) c q" if "short_path n q" for q
    using node that by (intro table_at_frame) (auto dest: short_path_prefix)
  then show "short_path n q \<Longrightarrow> table_at T2 b (i # q) = table_at (tables s1) c q"
    using e by (simp add: T2_def)
  have other: "T2 a = tables s a \<and> a \<noteq> b \<and> locked_page (physical s) a"
    if "short_path (Suc n) (j # q)" "table_at (tables s) b (j # q) = Some a" for j q a
  proof -
    have "locked_page (physical s) a" using fresh_treeD [OF loop_invD(2) [OF inv] that] by blast
    moreover have "a \<noteq> b"
      using injective_pathsD [OF loop_invD(3) [OF inv] that(1) short_path_Nil that(2)] by auto
    ultimately show ?thesis using grow by (auto simp: T2_def grows_def keeps_def)
  qed
  then show "j \<noteq> i \<Longrightarrow> short_path (Suc n) (j # q) \<Longrightarrow> table_at (tables s) b (j # q) = Some a \<Longrightarrow>
    T2 a = tables s a \<and> a \<noteq> b \<and> locked_page (physical s) a" by simp
  show "table_at T2 b (j # q) = table_at (tables s) b (j # q)" if "j \<noteq> i" "short_path (Suc n) (j # q)"
  proof (cases "pde_flag (tables s b j) Present")
    case True
    have "table_at T2 (pde_address (tables s b j)) q = table_at (tables s) (pde_address (tables s b j)) q"
    proof (rule table_at_frame)
      fix p r a
      assume p: "q = p @ r" "table_at (tables s) (pde_address (tables s b j)) p = Some a"
      then have "short_path (Suc n) (j # p)" using that(2) by (auto dest: short_path_prefix)
      with p(2) True show "T2 a = tables s a" using other [of j p a] by simp
    qed
    then show ?thesis using that(1) True Tb by (simp add: T2_def)
  qed (use that(1) Tb in \<open>simp add: T2_def\<close>)
qed

lemma loop_inv_hang:
  assumes inv: "loop_inv tr n s0 t b D s" and i: "i < 512" "i \<notin> D"
    and root: "rooted (physical s0) (tables s0) (Suc n) t" and present: "pde_flag (tables s0 t i) Present"
    and child: "copied tr n s (pde_address (tables s0 t i)) s1 c"
    and e: "pde_flag e Present" "pde_address e = c"
  shows "loop_inv tr n s0 t b (insert i D) (write_entry b i e s1)"
proof -
  let ?T2 = "put (tables s1) b i e"
  note hang = table_at_hang [OF inv i child e]
  have grow: "grows s0 s" "grows s s1" using inv child by (simp_all add: loop_inv_def copied_def)
  have mono: "locked_page (physical s0) a \<Longrightarrow> locked_page (physical s) a"
    "locked_page (physical s) a \<Longrightarrow> locked_page (physical s1) a" for a
    using grow by (simp_all add: grows_def)
  have b: "locked_page (physical s) b \<and> \<not> locked_page (physical s0) b"
    using inv by (auto simp: loop_inv_def dest: fresh_treeD [where q = "[]" and a = b])
  have node: "locked_page (physical s1) a \<and> \<not> locked_page (physical s0) a
      \<and> (q = [] \<longleftrightarrow> a = b) \<and> (q \<noteq> [] \<longrightarrow> (hd q = i \<longleftrightarrow> \<not> locked_page (physical s) a))"
    if q: "short_path (Suc n) q" "table_at ?T2 b q = Some a" for q a
  proof (cases q)
    case Nil
    then show ?thesis using q(2) b mono by auto
  next
    case (Cons j p)
    show ?thesis
    proof (cases "j = i")
      case True
      then show ?thesis using q Cons hang(1,2) mono by auto
    next
      case False
      then have old: "table_at (tables s) b (j # p) = Some a" using q Cons hang(3) by simp
      then have "\<not> locked_page (physical s0) a"
        using fresh_treeD [OF loop_invD(2) [OF inv] _ old] q(1) Cons by simp
      then show ?thesis using hang(4) [OF False _ old] q(1) Cons False mono by auto
    qed
  qed
  have inj: "q = q'"
    if q: "short_path (Suc n) q" "short_path (Suc n) q'" "table_at ?T2 b q = Some a" "table_at ?T2 b q' = Some a" for q q' a
  proof -
    note n = node [OF q(1,3)] node [OF q(2,4)]
    show ?thesis
    proof (cases q; cases q')
      fix j p j' p'
      assume eq: "q = j # p" "q' = j' # p'"
      then have "j = i \<longleftrightarrow> j' = i" using n by auto
      moreover have "p = p'" if "j = i" "j' = i"
        using child q hang(1) that injective_pathsD [of n "tables s1" c p p' a] by (simp add: copied_def eq)
      moreover have "j = j' \<and> p = p'" if "j \<noteq> i" "j' \<noteq> i"
        using inv q hang(3) that injective_pathsD [of "Suc n" "tables s" b "j # p" "j' # p'" a]
        by (simp add: loop_inv_def eq)
      ultimately show ?thesis using eq by blast
    qed (use n in auto)
  qed
  have done_i: "mirrors tr (Suc n) (tables s0) t ?T2 b (i # q)" if q: "short_path n q" for q
  proof -
    have "mirrors tr n (tables s) (pde_address (tables s0 t i)) (tables s1) c q"
      using child q by (simp add: copied_def)
    then have "mirrors tr n (tables s0) (pde_address (tables s0 t i)) (tables s1) c q"
      using grow(1) mirrors_keeps [OF _ rooted_child [OF root present i(1)] q] by (simp add: grows_def)
    moreover have "mirrors tr (Suc n) (tables s0) t ?T2 b (i # q) =
        mirrors tr n (tables s0) (pde_address (tables s0 t i)) (tables s1) c q"
      using present hang(1) [OF q] hang(2) [OF q] by (intro mirrors_cong) simp_all
    ultimately show ?thesis by simp
  qed
  have done_j: "mirrors tr (Suc n) (tables s0) t ?T2 b (j # q)" if "j \<in> D" "short_path (Suc n) (j # q)" for j q
  proof -
    have ji: "j \<noteq> i" using that(1) i(2) by auto
    have "mirrors tr (Suc n) (tables s0) t ?T2 b (j # q) = mirrors tr (Suc n) (tables s0) t (tables s) b (j # q)"
      using hang(3) [OF ji that(2)] hang(4) [OF ji that(2)] by (intro mirrors_cong) blast+
    then show ?thesis using loop_invD(5) [OF inv that] by simp
  qed
  have "grows s0 (write_entry b i e s1)"
    using grows_trans [OF grow] b by (auto simp: grows_def keeps_def write_entry_def)
  moreover have "tables s1 b = tables s b" using grow(2) b by (simp add: grows_def keeps_def)
  ultimately show ?thesis
    using node inj done_i done_j inv i(1)
    by (auto simp: loop_inv_def fresh_tree_def injective_paths_def write_entry_def)
qed

lemma loop_inv_skip:
  assumes inv: "loop_inv tr n s0 t b D s" and "i \<notin> D" "\<not> pde_flag (tables s0 t i) Present"
  shows "loop_inv tr n s0 t b (insert i D) s"
  using inv loop_invD(4) [OF inv assms(2)] assms(3)
  unfolding loop_inv_def by (auto simp: mirrors_def)

lemma loop_inv_start:
  assumes "rooted (physical s0) (tables s0) (Suc n) t" and "grows s0 s" "tables s b = (\<lambda>_. 0)"
    "locked_page (physical s) b" "\<not> locked_page (physical s0) b"
  shows "loop_inv tr n s0 t b {} s"
  using assms by (auto simp: loop_inv_def fresh_tree_def injective_paths_def table_at_zero split: if_splits)

definition clones :: "(u64 \<Rightarrow> u64) \<Rightarrow> nat \<Rightarrow> vmm \<Rightarrow> u64 \<Rightarrow> u64 \<times> vmm \<Rightarrow> bool" where
  "clones tr n s t res \<longleftrightarrow> fst res \<noteq> 0 \<and> copied tr n s t (snd res) (fst res) \<and>
     reserve (physical (snd res)) + tcount (tables s) n t = reserve (physical s)"

definition subtree_cost :: "vmm \<Rightarrow> nat \<Rightarrow> u64 \<Rightarrow> u64 \<Rightarrow> nat" where
  "subtree_cost s n t i =
     (if pde_flag (tables s t i) Present then tcount (tables s) n (pde_address (tables s t i)) else 0)"

lemma clone_loop_spec:
  assumes sub: "\<And>x s. pmm_ready (physical s) \<Longrightarrow> rooted (physical s) (tables s) n x \<Longrightarrow>
      tcount (tables s) n x \<le> reserve (physical s) \<Longrightarrow> clones tr n s x (sub x s)"
    and tr: "transparent tr" and root: "rooted (physical s0) (tables s0) (Suc n) t"
    and "loop_inv tr n s0 t b D s" "distinct is" "set is \<inter> D = {}" "\<forall>i \<in> set is. i < 512"
    and "sum_list (map (subtree_cost s0 n t) is) \<le> reserve (physical s)"
  shows "fst (clone_loop sub tr t b is s) = b
    \<and> loop_inv tr n s0 t b (D \<union> set is) (snd (clone_loop sub tr t b is s))
    \<and> reserve (physical (snd (clone_loop sub tr t b is s))) + sum_list (map (subtree_cost s0 n t) is)
        = reserve (physical s)"
  using assms(4-8)
proof (induction "is" arbitrary: s D)
  case Nil
  then show ?case by simp
next
  case (Cons i "is")
  note inv = Cons.prems(1)
  have grow: "grows s0 s" by (rule loop_invD(1) [OF inv])
  then have tt: "tables s t = tables s0 t"
    using rooted_root [OF root] by (simp add: grows_def keeps_def)
  have i: "i < 512" "i \<notin> D" using Cons.prems(3,4) by auto
  have ins: "D \<union> set (i # is) = insert i D \<union> set is" by simp
  show ?case
  proof (cases "pde_flag (tables s0 t i) Present")
    case False
    have "loop_inv tr n s0 t b (insert i D) s" by (rule loop_inv_skip [OF inv i(2) False])
    from Cons.IH [OF this] Cons.prems show ?thesis
      unfolding ins by (simp add: tt False subtree_cost_def)
  next
    case True
    define x where "x = pde_address (tables s0 t i)"
    define c s1 where "c = fst (sub x s)" and "s1 = snd (sub x s)"
    have rx: "rooted (physical s0) (tables s0) n x"
      unfolding x_def by (rule rooted_child [OF root True i(1)])
    have K: "keeps (physical s0) (tables s0) (tables s)" using grow by (simp add: grows_def)
    have "rooted (physical s) (tables s) n x"
      using rx keeps_table_at [OF K rx] grow unfolding rooted_def grows_def by metis
    moreover have cnt: "tcount (tables s) n x = subtree_cost s0 n t i"
      using tcount_keeps [OF K rx] True by (simp add: subtree_cost_def x_def)
    ultimately have cl: "clones tr n s x (c, s1)"
      using sub [of s x] grow Cons.prems(5) by (simp add: c_def s1_def grows_def)
    then have child: "copied tr n s x s1 c" "c \<noteq> 0"
      and left: "reserve (physical s1) + subtree_cost s0 n t i = reserve (physical s)"
      by (simp_all add: clones_def cnt)
    have "locked_page (physical s1) c" "pmm_ready (physical s1)"
      using child(1) fresh_treeD [of "physical s" "physical s1" "tables s1" n c "[]" c]
      by (simp_all add: copied_def grows_def)
    then have ec: "pde_address c = c" using ps.locked_entry by blast
    define e where "e = tr (pde_set_address c (tables s0 t i))"
    have e: "pde_flag e Present" "pde_address e = c"
      using tr True ec by (simp_all add: e_def transparent_def)
    have t1: "tables s1 t = tables s0 t"
      using child(1) grow rooted_root [OF root] tt by (auto simp: copied_def grows_def keeps_def)
    define s2 where "s2 = write_entry b i e s1"
    have eq: "clone_loop sub tr t b (i # is) s = clone_loop sub tr t b is s2"
      using True child(2)
      by (simp add: tt t1 Let_def split_beta x_def [symmetric] c_def [symmetric] s1_def [symmetric] e_def s2_def)
    have "loop_inv tr n s0 t b (insert i D) s2"
      unfolding s2_def using loop_inv_hang [OF inv i root True _ e] child(1) by (simp add: x_def)
    from Cons.IH [OF this] Cons.prems left show ?thesis
      unfolding eq ins by (simp add: s2_def write_entry_def)
  qed
qed

lemma clone_table_spec:
  assumes "transparent tr" "pmm_ready (physical s)" "rooted (physical s) (tables s) n t"
    and "tcount (tables s) n t \<le> reserve (physical s)"
  shows "clones tr n s t (clone_table n tr t s)"
  using assms(2-4)
proof (induction n arbitrary: s t)
  case 0
  then show ?case using clone_leaf_spec [of s t tr] by (simp add: clones_def)
next
  case (Suc n)
  define b where "b = fst (vm_request_page s)"
  define s2 where "s2 = memset_page b (snd (vm_request_page s))"
  have res: "0 < reserve (physical s)" using Suc.prems(3) by simp
  note z = request_zeroed [OF Suc.prems(1) res b_def s2_def]
  have start: "loop_inv tr n s t b {} s2"
    using loop_inv_start [OF Suc.prems(2) z(3,6,4,5)] .
  have cost: "tcount (tables s) (Suc n) t = Suc (sum_list (map (subtree_cost s n t) (u64_upto 512)))"
    by (simp add: subtree_cost_def [abs_def])
  define out where "out = clone_loop (clone_table n tr) tr t b (u64_upto 512) s2"
  have eq: "clone_table (Suc n) tr t s = out"
    using z(1) by (simp add: clone_table.simps [of "Suc n"] b_def s2_def out_def split_beta Let_def)
  have spec: "fst out = b \<and> loop_inv tr n s t b ({} \<union> set (u64_upto 512)) (snd out) \<and>
      reserve (physical (snd out)) + sum_list (map (subtree_cost s n t) (u64_upto 512)) = reserve (physical s2)"
    unfolding out_def
    using Suc.prems(3) z(7) cost
    by (intro clone_loop_spec [OF Suc.IH assms(1) Suc.prems(2) start distinct_u64_upto])
       (auto simp: set_u64_upto)
  then have inv: "loop_inv tr n s t b {i. i < 512} (snd out)" by (simp add: set_u64_upto)
  have "mirrors tr (Suc n) (tables s) t (tables (snd out)) b q" if "short_path (Suc n) q" for q
  proof (cases q)
    case Nil
    then show ?thesis by (simp add: mirrors_def)
  next
    case (Cons j p)
    then show ?thesis using that loop_invD(5) [OF inv, of j p] by simp
  qed
  then have "copied tr (Suc n) s t (snd out) b"
    using loop_invD(1-3) [OF inv] by (simp add: copied_def)
  then show ?case
    using spec z(1,7) cost unfolding eq clones_def by simp
qed

section \<open>The copy as a page map\<close>

lemma forest_rooted: "table_forest m T R \<Longrightarrow> r \<in> R \<Longrightarrow> rooted m T 3 r"
  by (auto simp: table_forest_def rooted_def table_path_short)

lemma grows_table_at:
  assumes "grows s s'" "vm_inv s R" "r \<in> R" "table_path q"
  shows "table_at (tables s') r q = table_at (tables s) r q"
  using assms keeps_table_at [OF _ forest_rooted [OF vm_inv_forest [OF assms(2)] assms(3)]]
  by (auto simp: grows_def table_path_short)

lemma grows_walk:
  assumes "grows s s'" "vm_inv s R" "r \<in> R" "leaf_path l"
  shows "walk (tables s') r l = walk (tables s) r l"
proof -
  obtain q j where l: "l = q @ [j]" "table_path q" using assms(4) by (rule leaf_path_cases)
  have "tables s' a = tables s a" if "table_at (tables s) r q = Some a" for a
    using assms(1) table_forest_locked [OF vm_inv_forest [OF assms(2)] assms(3) l(2) that]
    by (simp add: grows_def keeps_def)
  then show ?thesis
    using grows_table_at [OF assms(1-3) l(2)] by (simp add: walk_def l(1) split: option.split)
qed

lemma copied_vm_inv:
  assumes inv: "vm_inv s R" and cp: "copied tr 3 s t s' b"
  shows "vm_inv s' (insert b R)"
proof -
  have grow: "grows s s'" using cp by (simp add: copied_def)
  have old: "locked_page (physical s) a" if "r \<in> R" "table_path q" "table_at (tables s') r q = Some a" for r q a
    using that table_forest_locked [OF vm_inv_forest [OF inv]] grows_table_at [OF grow inv] by simp
  have new: "locked_page (physical s') a \<and> \<not> locked_page (physical s) a"
    if "table_path q" "table_at (tables s') b q = Some a" for q a
    using cp that fresh_treeD by (auto simp: copied_def table_path_short)
  have "b \<notin> R" using new [of "[]" b] old [of b "[]" b] by auto
  have "table_forest (physical s') (tables s') (insert b R)"
    unfolding table_forest_def
  proof (intro conjI ballI allI impI)
    fix r q a
    assume "r \<in> insert b R" "table_path q" "table_at (tables s') r q = Some a"
    then show "locked_page (physical s') a" using new old grow by (auto simp: grows_def)
  next
    fix r r' q q' a
    assume a: "r \<in> insert b R" "r' \<in> insert b R" "table_path q" "table_path q'"
      "table_at (tables s') r q = Some a" "table_at (tables s') r' q' = Some a"
    have iff: "r = b \<longleftrightarrow> r' = b" using a new old \<open>b \<notin> R\<close> by blast
    show "r = r'" and "q = q'"
    proof -
      have "r = r' \<and> q = q'"
      proof (cases "r = b")
        case True
        then show ?thesis
          using a iff cp injective_pathsD [of 3 "tables s'" b q q' a] by (simp add: copied_def table_path_short)
      next
        case False
        then show ?thesis
          using a iff table_forest_unique [OF vm_inv_forest [OF inv], of r r' q q' a]
          by (auto simp: grows_table_at [OF grow inv])
      qed
      then show "r = r'" and "q = q'" by simp_all
    qed
  qed
  then show ?thesis using grow by (simp add: vm_inv_def grows_def)
qed

lemma copied_walk:
  assumes cp: "copied tr 3 s t s' b" and tr: "transparent tr" and l: "leaf_path l"
  shows "walk (tables s') b l = map_option tr (walk (tables s) t l)"
proof -
  obtain q j where q: "l = q @ [j]" "table_path q" "length q = 3" "j < 512" using l by (rule leaf_path_cases)
  have "mirrors tr 3 (tables s) t (tables s') b q" using cp q by (simp add: copied_def table_path_short)
  then show ?thesis
    using q tr by (auto simp: mirrors_def walk_def transparent_def split: option.splits)
qed

lemma clone_spec:
  assumes inv: "vm_inv s R" and r: "r \<in> R" and tr: "transparent tr"
    and sup: "tcount (tables s) 3 r \<le> reserve (physical s)"
    and out: "(b, s') = clone_table 3 tr r s"
  shows "b \<noteq> 0" "b \<notin> R" "vm_inv s' (insert b R)"
    "translate s' b va = map_option tr (translate s r va)"
    "r' \<in> R \<Longrightarrow> translate s' r' va = translate s r' va"
    "reserve (physical s') + tcount (tables s) 3 r = reserve (physical s)"
    "ActivePageMap s' = ActivePageMap s" "CR3 s' = CR3 s"
proof -
  have cl: "clones tr 3 s r (b, s')"
    unfolding out using clone_table_spec [OF tr vm_inv_ready [OF inv] forest_rooted [OF vm_inv_forest [OF inv] r] sup] .
  then have cp: "copied tr 3 s r s' b" by (simp add: clones_def)
  show "b \<noteq> 0" "reserve (physical s') + tcount (tables s) 3 r = reserve (physical s)"
    using cl by (simp_all add: clones_def)
  show "vm_inv s' (insert b R)" by (rule copied_vm_inv [OF inv cp])
  show "b \<notin> R"
    using cp fresh_treeD [of "physical s" "physical s'" "tables s'" 3 b "[]" b]
      table_forest_locked [OF vm_inv_forest [OF inv], of b "[]" b] by (auto simp: copied_def)
  show "translate s' b va = map_option tr (translate s r va)"
    by (simp add: translate_def copied_walk [OF cp tr])
  show "r' \<in> R \<Longrightarrow> translate s' r' va = translate s r' va"
    using cp grows_walk [OF _ inv] by (simp add: translate_def copied_def)
  show "ActivePageMap s' = ActivePageMap s" "CR3 s' = CR3 s" using cp by (simp_all add: copied_def grows_def)
qed

section \<open>Giving pages back\<close>

text \<open>A page source that also takes pages back.\<close>

locale page_pool = page_source +
  fixes release :: "u64 \<Rightarrow> 'a \<Rightarrow> 'a"
  assumes release_ready: "ready m \<Longrightarrow> locked m a \<Longrightarrow> ready (release a m)"
    and release_locks: "ready m \<Longrightarrow> locked m a \<Longrightarrow> locked (release a m) x \<longleftrightarrow> locked m x \<and> x \<noteq> a"
    and release_reserve: "ready m \<Longrightarrow> locked m a \<Longrightarrow> reserve (release a m) = Suc (reserve m)"
begin

lemma release_all:
  assumes "ready m" "distinct as" "\<forall>a \<in> set as. locked m a"
  shows "ready (fold release as m) \<and>
    (\<forall>x. locked (fold release as m) x \<longleftrightarrow> locked m x \<and> x \<notin> set as) \<and>
    reserve (fold release as m) = reserve m + length as"
  using assms
proof (induction "as" arbitrary: m)
  case Nil
  then show ?case by simp
next
  case (Cons a "as")
  then have a: "ready m" "locked m a" by auto
  have "\<forall>x \<in> set as. locked (release a m) x"
    using Cons.prems release_locks [OF a] by auto
  from Cons.IH [OF release_ready [OF a] _ this] Cons.prems(2) show ?case
    using release_locks [OF a] release_reserve [OF a] by auto
qed

end

interpretation pool: page_pool request_page locked_page reserve pmm_ready free_page
proof
  fix m a x
  assume m: "pmm_ready m" and a: "locked_page m a"
  have inv: "pmm_inv m" and le: "a div PAGE_SIZE \<le> TotalPages m"
    and set: "bitmap_get (PageMap m) (a div PAGE_SIZE)"
    using m a by (auto simp: pmm_ready_def locked_page_def)
  have ne: "a div PAGE_SIZE \<noteq> 0" using a aligned_eq [of a] by (auto simp: locked_page_def)
  note get = get_free_page_impl [OF inv le, folded free_page_def]
  have T: "TotalPages (free_page a m) = TotalPages m" by (simp add: free_page_def)
  show "pmm_ready (free_page a m)"
    using m free_page_impl_inv [OF inv le set] get ne T by (simp add: pmm_ready_def free_page_def)
  have "x div PAGE_SIZE = a div PAGE_SIZE \<longleftrightarrow> x = a" if "x mod PAGE_SIZE = 0"
    using aligned_eq [OF that] aligned_eq [of a] a by (metis locked_page_def)
  then show "locked_page (free_page a m) x \<longleftrightarrow> locked_page m x \<and> x \<noteq> a"
    unfolding locked_page_def get T by metis
  have "allocatable (free_page a m) = insert (a div PAGE_SIZE) (allocatable m)"
    using a by (auto simp: mem_allocatable get T locked_page_def)
  moreover have "a div PAGE_SIZE \<notin> allocatable m" using set by (simp add: mem_allocatable)
  ultimately show "reserve (free_page a m) = Suc (reserve m)" by (simp add: reserve_def)
qed

section \<open>Freeing a page map\<close>

text \<open>The tables below a table, in the order \<open>free_page_map\<close> frees them.\<close>

fun nodes_below :: "(u64 \<Rightarrow> u64 \<Rightarrow> u64) \<Rightarrow> nat \<Rightarrow> u64 \<Rightarrow> u64 list" where
  "nodes_below T 0 t = []"
| "nodes_below T (Suc n) t = concat (map (\<lambda>i. if pde_flag (T t i) Present
     then nodes_below T n (pde_address (T t i)) @ [pde_address (T t i)] else []) (u64_upto 512))"

lemma nodes_below_iff:
  "a \<in> set (nodes_below T n t) \<longleftrightarrow> (\<exists>q. q \<noteq> [] \<and> short_path n q \<and> table_at T t q = Some a)"
proof (induction n arbitrary: t)
  case 0
  then show ?case by simp
next
  case (Suc n)
  let ?c = "\<lambda>i. pde_address (T t i)"
  have "a \<in> set (nodes_below T (Suc n) t) \<longleftrightarrow>
      (\<exists>i<512. pde_flag (T t i) Present \<and> (a = ?c i \<or> a \<in> set (nodes_below T n (?c i))))"
    by (auto simp: set_u64_upto)
  also have "\<dots> \<longleftrightarrow> (\<exists>i<512. pde_flag (T t i) Present \<and>
      (\<exists>q. short_path n q \<and> table_at T (?c i) q = Some a))"
    unfolding Suc.IH by (metis option.inject short_path_Nil table_at.simps(1))
  also have "\<dots> \<longleftrightarrow> (\<exists>i q. short_path (Suc n) (i # q) \<and> table_at T t (i # q) = Some a)"
    by auto
  also have "\<dots> \<longleftrightarrow> (\<exists>q. q \<noteq> [] \<and> short_path (Suc n) q \<and> table_at T t q = Some a)"
    by (metis list.distinct(1) neq_Nil_conv)
  finally show ?case .
qed

lemma length_nodes_below: "Suc (length (nodes_below T n t)) = tcount T n t"
proof (induction n arbitrary: t)
  case (Suc n)
  have "length (if pde_flag (T t i) Present
      then nodes_below T n (pde_address (T t i)) @ [pde_address (T t i)] else []) =
    (if pde_flag (T t i) Present then tcount T n (pde_address (T t i)) else 0)" for i
    using Suc.IH [of "pde_address (T t i)"] by simp
  then show ?case by (simp add: length_concat comp_def cong: if_cong)
qed simp

lemma distinct_concat_map:
  assumes "distinct xs" "\<And>x. x \<in> set xs \<Longrightarrow> distinct (f x)"
    and "\<And>x y. x \<in> set xs \<Longrightarrow> y \<in> set xs \<Longrightarrow> x \<noteq> y \<Longrightarrow> set (f x) \<inter> set (f y) = {}"
  shows "distinct (concat (map f xs))"
  using assms
proof (induction xs)
  case (Cons x xs)
  have "set (f x) \<inter> set (f y) = {}" if "y \<in> set xs" for y
    using Cons.prems(1) that by (intro Cons.prems(3)) auto
  then have "set (f x) \<inter> set (concat (map f xs)) = {}" by auto
  then show ?case using Cons by simp
qed simp

lemma distinct_nodes_below:
  "injective_paths n T t \<Longrightarrow> distinct (nodes_below T n t)"
proof (induction n arbitrary: t)
  case 0
  then show ?case by simp
next
  case (Suc n)
  let ?c = "\<lambda>i. pde_address (T t i)"
  let ?f = "\<lambda>i. if pde_flag (T t i) Present then nodes_below T n (?c i) @ [?c i] else []"
  have f: "\<exists>q. short_path n q \<and> table_at T t (i # q) = Some a" if "a \<in> set (?f i)" for i a
  proof (cases "a = ?c i")
    case True
    then show ?thesis using that by (intro exI [of _ "[]"]) (simp split: if_splits)
  next
    case False
    then show ?thesis using that by (auto simp: nodes_below_iff split: if_splits)
  qed
  have inj: "injective_paths n T (?c i)" if "pde_flag (T t i) Present" "i < 512" for i
    unfolding injective_paths_def
  proof (intro allI impI)
    fix q q' a
    assume "short_path n q" "short_path n q'" "table_at T (?c i) q = Some a" "table_at T (?c i) q' = Some a"
    then show "q = q'" using injective_pathsD [OF Suc.prems, of "i # q" "i # q'" a] that by simp
  qed
  have "?c i \<notin> set (nodes_below T n (?c i))" if "pde_flag (T t i) Present" "i < 512" for i
  proof
    assume "?c i \<in> set (nodes_below T n (?c i))"
    then obtain q where "q \<noteq> []" "short_path n q" "table_at T (?c i) q = Some (?c i)"
      unfolding nodes_below_iff by blast
    then show False using injective_pathsD [OF inj [OF that], of q "[]"] by simp
  qed
  moreover have "set (?f i) \<inter> set (?f j) = {}" if "i < 512" "j < 512" "i \<noteq> j" for i j
  proof (rule ccontr)
    assume "set (?f i) \<inter> set (?f j) \<noteq> {}"
    then obtain a where "a \<in> set (?f i)" "a \<in> set (?f j)" by blast
    with f obtain q q' where "short_path n q" "table_at T t (i # q) = Some a"
      "short_path n q'" "table_at T t (j # q') = Some a" by metis
    then show False using injective_pathsD [OF Suc.prems, of "i # q" "j # q'" a] that by simp
  qed
  ultimately have "distinct (concat (map ?f (u64_upto 512)))"
    using Suc.IH [OF inj]
    by (intro distinct_concat_map distinct_u64_upto) (auto simp: set_u64_upto)
  then show ?case by simp
qed

lemma vm_free_page_frame [frame, simp]:
  "tables (vm_free_page a s) = tables s"
  "TotalPages (physical (vm_free_page a s)) = TotalPages (physical s)"
  by (simp_all add: vm_free_page_def free_page_def)

lemma fold_vm_free_page:
  "fold vm_free_page as s = s\<lparr>physical := fold free_page as (physical s)\<rparr>"
  by (induction "as" arbitrary: s) (simp_all add: vm_free_page_def)

lemma fold_vm_free_page_frame [simp]:
  "tables (fold vm_free_page as s) = tables s"
  "TotalPages (physical (fold vm_free_page as s)) = TotalPages (physical s)"
  by (induction "as" arbitrary: s) simp_all

lemma locked_not_garbage:
  assumes "pmm_ready m" "locked_page m a" "TotalPages (physical s) = TotalPages m"
  shows "\<not> garbage_table a s"
proof -
  define i where "i = a div PAGE_SIZE"
  have i: "unat i < unat (TotalPages m)" "unat (TotalPages m) < 0xfffffffff0" and a: "a = i * PAGE_SIZE"
    using assms(1,2) aligned_eq [of a]
    by (simp_all add: locked_page_def pmm_ready_def i_def word_less_nat_alt)
  have ua: "unat a = unat i * 4096" using i a by (simp add: unat_u64_mult_small)
  have "unat (total_ram (physical s)) = unat (TotalPages m) * 4096"
    using i assms(3) by (simp add: total_ram_def unat_u64_mult_small)
  then have "\<not> a > total_ram (physical s)" using ua i by (simp add: word_less_nat_alt)
  moreover have "a \<noteq> 0x000ffffffffff000"
  proof
    assume "a = 0x000ffffffffff000"
    then have "unat a = 4503599627366400" by simp
    then show False using ua i by simp
  qed
  moreover have "a mod PAGE_SIZE = 0" using assms(2) unfolding locked_page_def by blast
  ultimately show ?thesis unfolding garbage_table_def by blast
qed

lemma free_tables_eq:
  assumes "\<And>a s'. a \<in> set (nodes_below T n t) \<Longrightarrow> TotalPages (physical s') = N \<Longrightarrow> \<not> garbage_table a s'"
    and "tables s = T" "TotalPages (physical s) = N"
  shows "free_tables n t s = fold vm_free_page (nodes_below T n t) s"
  using assms
proof (induction n arbitrary: t s)
  case 0
  then show ?case by simp
next
  case (Suc n)
  let ?c = "\<lambda>i. pde_address (T t i)"
  let ?f = "\<lambda>i. if pde_flag (T t i) Present then nodes_below T n (?c i) @ [?c i] else []"
  let ?g = "\<lambda>i s. let pde = tables s t i; a = pde_address pde
             in if \<not> pde_flag pde Present then s
                else if garbage_table a s then s
                else vm_free_page a (free_tables n a s)"
  have step: "?g i s' = fold vm_free_page (?f i) s'"
    if "i < 512" "tables s' = T" "TotalPages (physical s') = N" for i s'
  proof (cases "pde_flag (T t i) Present")
    case True
    have mem: "a \<in> set (nodes_below T (Suc n) t)" if "a \<in> set (?f i)" for a
      using that \<open>i < 512\<close> by (auto simp: set_u64_upto)
    have "\<not> garbage_table (?c i) s'" using Suc.prems(1) [OF mem] True that(3) by simp
    moreover have "free_tables n (?c i) s' = fold vm_free_page (nodes_below T n (?c i)) s'"
      using mem True that Suc.prems(1) by (intro Suc.IH) auto
    ultimately show ?thesis using True that(2) by (simp add: Let_def)
  qed (simp add: that(2))
  have "fold ?g is s' = fold vm_free_page (concat (map ?f is)) s'"
    if "\<forall>i \<in> set is. i < 512" "tables s' = T" "TotalPages (physical s') = N" for "is" s'
    using that
  proof (induction "is" arbitrary: s')
    case (Cons i "is")
    have "fold ?g (i # is) s' = fold ?g is (fold vm_free_page (?f i) s')"
      using step [of i s'] Cons.prems by simp
    also have "\<dots> = fold vm_free_page (concat (map ?f is)) (fold vm_free_page (?f i) s')"
      using Cons.prems by (intro Cons.IH) auto
    finally show ?case by simp
  qed simp
  from this [of "u64_upto 512" s] show ?case using Suc.prems(2,3) by (simp add: set_u64_upto)
qed

lemma free_page_map_spec:
  assumes inv: "vm_inv s (insert r R)" and r: "r \<notin> R" and act: "ActivePageMap s \<notin> {0, r}"
  defines "s' \<equiv> free_page_map r s"
  shows "vm_inv s' R" and "r' \<in> R \<Longrightarrow> translate s' r' va = translate s r' va"
    and "reserve (physical s') = reserve (physical s) + tcount (tables s) 3 r"
    and "locked_page (physical s') a \<longleftrightarrow> locked_page (physical s) a \<and> a \<noteq> r \<and> a \<notin> set (nodes_below (tables s) 3 r)"
proof -
  let ?T = "tables s" and ?m = "physical s"
  have inj: "injective_paths 3 ?T r"
    unfolding injective_paths_def table_path_short [symmetric]
    using table_forest_unique [OF vm_inv_forest [OF inv], of r r] by blast
  have rt: "rooted ?m ?T 3 r" by (rule forest_rooted [OF vm_inv_forest [OF inv]]) simp
  have nodes: "locked_page ?m a" if "a \<in> set (nodes_below ?T 3 r)" for a
    using that rt by (auto simp: nodes_below_iff rooted_def)
  define as where "as = nodes_below ?T 3 r @ [r]"
  have "r \<notin> set (nodes_below ?T 3 r)"
    using injective_pathsD [OF inj, of _ "[]" r] by (auto simp: nodes_below_iff)
  then have dist: "distinct as" using distinct_nodes_below [OF inj] by (simp add: as_def)
  have lk: "\<forall>a \<in> set as. locked_page ?m a" using nodes rooted_root [OF rt] by (auto simp: as_def)
  have "free_tables 3 r s = fold vm_free_page (nodes_below ?T 3 r) s"
    using locked_not_garbage [OF vm_inv_ready [OF inv] nodes] by (intro free_tables_eq) auto
  moreover have "r \<noteq> ActivePageMap s" using act by auto
  ultimately have eq: "s' = s\<lparr>physical := fold free_page as ?m\<rparr>"
    using act vm_inv_root [OF inv, of r]
    by (simp add: s'_def free_page_map_def active_page_map_def as_def fold_vm_free_page vm_free_page_def)
  note rel = pool.release_all [OF vm_inv_ready [OF inv] dist lk]
  show "reserve (physical s') = reserve ?m + tcount ?T 3 r"
    using rel length_nodes_below [of ?T 3 r] by (simp add: eq as_def)
  show locks: "locked_page (physical s') a \<longleftrightarrow> locked_page ?m a \<and> a \<noteq> r \<and> a \<notin> set (nodes_below ?T 3 r)" for a
    using rel by (auto simp: eq as_def)
  show "r' \<in> R \<Longrightarrow> translate s' r' va = translate s r' va" by (simp add: translate_def eq)
  have "a \<noteq> r \<and> a \<notin> set (nodes_below ?T 3 r)" if "x \<in> R" "table_path q" "table_at ?T x q = Some a" for x q a
    using table_forest_unique [OF vm_inv_forest [OF inv], of x r q _ a]
      table_forest_unique [OF vm_inv_forest [OF inv], of x r q "[]" a] that r
    by (auto simp: nodes_below_iff table_path_short)
  then have "table_forest (physical s') ?T R"
    using vm_inv_forest [OF inv] locks unfolding table_forest_def by blast
  then show "vm_inv s' R" using rel by (simp add: vm_inv_def eq)
qed

section \<open>Properties\<close>

lemma tcount_single:
  assumes "k < 512" "pde_flag (T t k) Present" "\<And>i. i \<noteq> k \<Longrightarrow> T t i = 0"
  shows "tcount T (Suc n) t = Suc (tcount T n (pde_address (T t k)))"
proof -
  let ?f = "\<lambda>i. if pde_flag (T t i) Present then tcount T n (pde_address (T t i)) else 0"
  have "sum_list (map ?f (u64_upto 512)) = sum ?f {i. i < 512}"
    by (simp add: sum_list_distinct_conv_sum_set [OF distinct_u64_upto] set_u64_upto)
  also have "\<dots> = sum (\<lambda>i. if i = k then ?f k else 0) {i. i < 512}"
    using assms(3) by (intro sum.cong) auto
  also have "\<dots> = ?f k" using assms(1) by (simp add: sum.delta)
  finally show ?thesis using assms(2) by simp
qed

text \<open>
  A machine whose active page map at \<open>0x2000\<close> maps one page, through tables at \<open>0x1000\<close>,
  \<open>0x4000\<close> and \<open>0x5000\<close>; the page map at \<open>0x3000\<close> is empty.
\<close>

definition example_entries :: "u64 \<Rightarrow> u64 \<Rightarrow> u64" where
  "example_entries t i = (if i \<noteq> 0 then 0
     else if t = 0x2000 then 0x1003 else if t = 0x1000 then 0x4003
     else if t = 0x4000 then 0x5003 else if t = 0x5000 then 0x9003 else 0)"

definition example_tree :: vmm where
  "example_tree = \<lparr>physical = \<lparr>PageMap = \<lparr>Size = 2, Buffer = [0b11111100, 0b00000111]\<rparr>,
       TotalPages = 13, TotalFreePages = 7, TotalUsedPages = 7, MaxFreePagesInARow = 9, FirstFreePage = 6\<rparr>,
     tables = example_entries, ActivePageMap = 0x2000, CR3 = 0x2000\<rparr>"

lemma example_pde: "pde_flag 0x1003 Present" "pde_flag 0x4003 Present" "pde_flag 0x5003 Present"
  "pde_flag 0x9003 Present" "pde_address 0x1003 = 0x1000" "pde_address 0x4003 = 0x4000"
  "pde_address 0x5003 = 0x5000"
  by code_simp+

lemma example_paths:
  assumes "table_path q" "table_at example_entries r q = Some a" "r \<in> {0x2000, 0x3000}"
  shows "(r, q, a) \<in> {(0x2000, [], 0x2000), (0x2000, [0], 0x1000), (0x2000, [0, 0], 0x4000),
      (0x2000, [0, 0, 0], 0x5000), (0x3000, [], 0x3000)}"
proof -
  have "length q \<le> 3" using assms(1) by (simp add: table_path_def)
  then consider "q = []" | i where "q = [i]" | i j where "q = [i, j]" | i j k where "q = [i, j, k]"
    by (auto simp: numeral_3_eq_3 le_Suc_eq length_Suc_conv)
  then show ?thesis
    using assms(2,3) by cases (auto simp: example_entries_def example_pde split: if_splits)
qed

lemma example_tree_inv: "vm_inv example_tree {0x2000, 0x3000}"
proof -
  have "pmm_inv (physical example_tree)" unfolding pmm_inv_eval by code_simp
  moreover have "bitmap_get (PageMap (physical example_tree)) 0 \<and> TotalPages (physical example_tree) < 0xfffffffff0"
    by code_simp
  moreover have "list_all (locked_page (physical example_tree)) [0x1000, 0x2000, 0x3000, 0x4000, 0x5000]"
    by code_simp
  moreover have "tables example_tree = example_entries" by (simp add: example_tree_def)
  ultimately show ?thesis
    unfolding vm_inv_def pmm_ready_def table_forest_def
    using example_paths by (simp; fastforce)
qed

lemma example_tree_count: "tcount (tables example_tree) 3 0x2000 = 4"
proof -
  have T: "tables example_tree = example_entries" by (simp add: example_tree_def)
  have step: "tcount example_entries (Suc n) t = Suc (tcount example_entries n (pde_address (example_entries t 0)))"
    if "t \<in> {0x2000, 0x1000, 0x4000}" for n t
    using that by (intro tcount_single) (auto simp: example_entries_def example_pde)
  show ?thesis
    by (simp add: T numeral_3_eq_3 step example_entries_def example_pde del: tcount.simps(2))
qed

lemma example_tree_reserve: "reserve (physical example_tree) = 7"
  unfolding reserve_eval by code_simp

text \<open>
  C5: given as many free pages as the original has tables, \<open>clone_page_map\<close> returns a new page
  map, built from pages that were free, that translates every address exactly as the original
  does. The page tables of the two, and of all other page maps, stay disjoint; no other
  translation changes; and the copy costs exactly one page per table.
\<close>

theorem clone_page_map_copies:
  assumes "vm_inv s R" and "r \<in> R" and "tcount (tables s) 3 r \<le> reserve (physical s)"
    and "(new, s') = clone_page_map r s"
  shows "new \<noteq> 0 \<and> new \<notin> R \<and> vm_inv s' (insert new R)
    \<and> (\<forall>va. translate s' new va = translate s r va)
    \<and> (\<forall>r'\<in>R. \<forall>va. translate s' r' va = translate s r' va)
    \<and> reserve (physical s') + tcount (tables s) 3 r = reserve (physical s)"
  using clone_spec [OF assms(1,2) transparent_id assms(3) assms(4) [unfolded clone_page_map_def]]
  by (simp add: option.map_id)

theorem clone_page_map_copies_witness:
  "\<exists>new s'. (new, s') = clone_page_map 0x2000 example_tree \<and> new \<noteq> 0 \<and>
     translate s' new 0 = Some 0x9003 \<and> vm_inv s' {new, 0x2000, 0x3000} \<and> reserve (physical s') = 3"
proof -
  obtain new s' where out: "(new, s') = clone_page_map 0x2000 example_tree"
    by (cases "clone_page_map 0x2000 example_tree") simp
  have "translate example_tree 0x2000 0 = Some 0x9003" by code_simp
  then show ?thesis
    using clone_page_map_copies [OF example_tree_inv _ _ out] example_tree_count example_tree_reserve out
    by (intro exI [of _ new] exI [of _ s']) auto
qed

text \<open>
  C18: the copy-on-write clone translates every address to the same physical page as the original;
  pages the original could write are read-only and marked copy-on-write in the copy, and all
  other pages have the same flags. The original keeps its own entries, still writable.
\<close>

theorem clone_copy_on_write_copies:
  assumes "vm_inv s R" and "r \<in> R" and "tcount (tables s) 3 r \<le> reserve (physical s)"
    and "(new, s') = clone_page_map_copy_on_write r s"
  shows "new \<noteq> 0 \<and> vm_inv s' (insert new R)
    \<and> (\<forall>va. translate s' r va = translate s r va)
    \<and> (\<forall>va. case translate s r va of
          None \<Rightarrow> translate s' new va = None
        | Some e \<Rightarrow> (\<exists>e'. translate s' new va = Some e' \<and> pde_address e' = pde_address e
            \<and> \<not> pde_flag e' ReadWrite
            \<and> (pde_flag e ReadWrite \<longrightarrow> pde_flag e' Lensor_CopyOnWrite)
            \<and> (\<forall>f. f \<notin> {ReadWrite, Lensor_CopyOnWrite} \<longrightarrow> pde_flag e' f = pde_flag e f)))"
proof -
  note c = clone_spec [OF assms(1,2) transparent_cow assms(3) assms(4) [unfolded clone_page_map_copy_on_write_def]]
  have "case translate s r va of
          None \<Rightarrow> translate s' new va = None
        | Some e \<Rightarrow> (\<exists>e'. translate s' new va = Some e' \<and> pde_address e' = pde_address e
            \<and> \<not> pde_flag e' ReadWrite
            \<and> (pde_flag e ReadWrite \<longrightarrow> pde_flag e' Lensor_CopyOnWrite)
            \<and> (\<forall>f. f \<notin> {ReadWrite, Lensor_CopyOnWrite} \<longrightarrow> pde_flag e' f = pde_flag e f))" for va
    using c(4) [of va] by (simp add: make_pde_cow_def split: option.split)
  then show ?thesis using c(1,3,5) assms(2) by blast
qed

theorem clone_copy_on_write_copies_witness:
  "\<exists>new s'. (new, s') = clone_page_map_copy_on_write 0x2000 example_tree \<and> new \<noteq> 0 \<and>
     (\<exists>e'. translate s' new 0 = Some e' \<and> pde_address e' = 0x9000 \<and> \<not> pde_flag e' ReadWrite)"
proof -
  obtain new s' where out: "(new, s') = clone_page_map_copy_on_write 0x2000 example_tree"
    by (cases "clone_page_map_copy_on_write 0x2000 example_tree") simp
  have "translate example_tree 0x2000 0 = Some 0x9003" "pde_address 0x9003 = 0x9000" by code_simp+
  then have "\<exists>e'. translate s' new 0 = Some e' \<and> pde_address e' = 0x9000 \<and> \<not> pde_flag e' ReadWrite"
    using clone_copy_on_write_copies [OF example_tree_inv _ _ out] example_tree_count example_tree_reserve
    by (auto dest!: spec [of _ 0])
  moreover have "new \<noteq> 0"
    using clone_copy_on_write_copies [OF example_tree_inv _ _ out] example_tree_count example_tree_reserve by auto
  ultimately show ?thesis using out by blast
qed

text \<open>
  C19: \<open>free_page_map\<close> on an inactive page map unlocks exactly the pages of its tables, root
  included, and no page any other page map is built from; all other translations stay. Freeing a
  fresh clone restores the supply of free pages.
\<close>

theorem free_page_map_releases:
  assumes "vm_inv s (insert r R)" and "r \<notin> R" and "ActivePageMap s \<notin> {0, r}"
  shows "vm_inv (free_page_map r s) R
    \<and> (\<forall>r'\<in>R. \<forall>va. translate (free_page_map r s) r' va = translate s r' va)
    \<and> reserve (physical (free_page_map r s)) = reserve (physical s) + tcount (tables s) 3 r
    \<and> (\<forall>a. locked_page (physical (free_page_map r s)) a \<longleftrightarrow>
          locked_page (physical s) a \<and> a \<noteq> r \<and> a \<notin> set (nodes_below (tables s) 3 r))"
  using free_page_map_spec [OF assms] by blast

theorem free_page_map_releases_witness:
  "vm_inv (free_page_map 0x2000 (flush_page_map 0x3000 example_tree)) {0x3000} \<and>
   reserve (physical (free_page_map 0x2000 (flush_page_map 0x3000 example_tree))) = 11"
proof -
  have "vm_inv (flush_page_map 0x3000 example_tree) (insert 0x2000 {0x3000})"
    using example_tree_inv by simp
  from free_page_map_releases [OF this] show ?thesis
    using example_tree_count example_tree_reserve by (simp add: flush_page_map_def)
qed

end
