(* ===== verification/HeapAllocator.thy ===== *)
theory HeapAllocator
  imports PageMapping "HOL-Library.Monad_Syntax"
begin

text \<open>
  The kernel heap of \<open>kernel/src/memory/heap.cpp\<close>: a doubly linked list of segment headers that
  tiles the heap's address range, searched first fit. Headers live in a store from virtual
  addresses to header records; the words \<open>aligned_new\<close> keeps in front of its blocks live in a
  second store. The abstract heap is the list of segments in address order, and every operation
  refines a function on that list.
\<close>

section \<open>State\<close>

record HeapSegmentHeader =
  seg_last :: u64
  seg_next :: u64
  seg_length :: u64
  seg_free :: bool

record heap =
  vm :: vmm
  process_maps :: "u64 list"
  hdr :: "u64 \<Rightarrow> HeapSegmentHeader"
  payload_words :: "u64 \<Rightarrow> u64"
  sHeapStart :: u64
  sHeapEnd :: u64
  sLastHeader :: u64

definition HEAP_VIRTUAL_BASE :: u64 where
  "HEAP_VIRTUAL_BASE = 0xffffffffff000000"

definition HEAP_INITIAL_PAGES :: u64 where
  "HEAP_INITIAL_PAGES = 1"

definition HEAP_BYTE_ALIGN :: u64 where
  "HEAP_BYTE_ALIGN = 16"

text \<open>\<open>sizeof(HeapSegmentHeader)\<close>: two pointers, a length and a padded flag.\<close>

definition HEADER_SIZE :: u64 where
  "HEADER_SIZE = 32"

definition upd_hdr :: "u64 \<Rightarrow> (HeapSegmentHeader \<Rightarrow> HeapSegmentHeader) \<Rightarrow> heap \<Rightarrow> heap" where
  "upd_hdr a f s = s\<lparr>hdr := (hdr s)(a := f (hdr s a))\<rparr>"

section \<open>Segments\<close>

definition combine_forward :: "u64 \<Rightarrow> heap \<Rightarrow> heap" where
  "combine_forward this s =
     (let nxt = seg_next (hdr s this)
      in if nxt = 0 then s
         else if \<not> seg_free (hdr s nxt) then s
         else let s1 = (if nxt = sLastHeader s then s\<lparr>sLastHeader := this\<rparr> else s);
                  nn = seg_next (hdr s1 nxt);
                  s2 = (if nn \<noteq> 0 then upd_hdr nn (\<lambda>h. h\<lparr>seg_last := this\<rparr>) s1 else s1);
                  s3 = upd_hdr this (\<lambda>h. h\<lparr>seg_length := seg_length h + seg_length (hdr s2 nxt) + HEADER_SIZE\<rparr>) s2
              in upd_hdr this (\<lambda>h. h\<lparr>seg_next := seg_next (hdr s3 nxt)\<rparr>) s3)"

definition combine_backward :: "u64 \<Rightarrow> heap \<Rightarrow> heap" where
  "combine_backward this s =
     (let prev = seg_last (hdr s this)
      in if prev = 0 then s
         else if \<not> seg_free (hdr s prev) then s
         else combine_forward prev s)"

text \<open>\<open>split\<close> returns the segment itself, or null when it cannot be split.\<close>

definition split_segment :: "u64 \<Rightarrow> u64 \<Rightarrow> heap \<Rightarrow> u64 \<times> heap" where
  "split_segment this splitLength s =
     (let len = seg_length (hdr s this)
      in if splitLength + HEADER_SIZE > len then (0, s)
         else if splitLength < HEAP_BYTE_ALIGN then (0, s)
         else let splitSegmentLength = len - splitLength - HEADER_SIZE
              in if splitSegmentLength < HEAP_BYTE_ALIGN then (0, s)
                 else let splitHeader = this + HEADER_SIZE + splitLength;
                          nxt = seg_next (hdr s this);
                          s1 = (if nxt \<noteq> 0
                                then upd_hdr splitHeader (\<lambda>h. h\<lparr>seg_next := nxt\<rparr>)
                                       (upd_hdr nxt (\<lambda>h. h\<lparr>seg_last := splitHeader\<rparr>) s)
                                else (upd_hdr splitHeader (\<lambda>h. h\<lparr>seg_next := 0\<rparr>) s)\<lparr>sLastHeader := splitHeader\<rparr>);
                          s2 = upd_hdr this (\<lambda>h. h\<lparr>seg_next := splitHeader\<rparr>) s1;
                          s3 = upd_hdr splitHeader (\<lambda>h. h\<lparr>seg_last := this\<rparr>) s2;
                          s4 = upd_hdr this (\<lambda>h. h\<lparr>seg_length := splitLength\<rparr>) s3;
                          s5 = upd_hdr splitHeader (\<lambda>h. h\<lparr>seg_length := splitSegmentLength\<rparr>) s4;
                          s6 = upd_hdr splitHeader (\<lambda>h. h\<lparr>seg_free := seg_free (hdr s5 this)\<rparr>) s5
                      in (this, s6))"

section \<open>Growing the heap\<close>

definition heap_flags :: u64 where
  "heap_flags = flag_bit Present OR flag_bit ReadWrite"

definition init_heap :: "heap \<Rightarrow> heap" where
  "init_heap s =
     (let numBytes = HEAP_INITIAL_PAGES * PAGE_SIZE;
          vm1 = page_loop (\<lambda>i v. let (p, v1) = vm_request_page v
                                 in map_active (HEAP_VIRTUAL_BASE + i) p heap_flags v1)
                  0 (HEAP_INITIAL_PAGES * PAGE_SIZE) (vm s);
          s1 = s\<lparr>vm := vm1, sHeapStart := HEAP_VIRTUAL_BASE, sHeapEnd := HEAP_VIRTUAL_BASE + numBytes\<rparr>;
          s2 = upd_hdr HEAP_VIRTUAL_BASE (\<lambda>_. \<lparr>seg_last = 0, seg_next = 0,
                 seg_length = numBytes - HEADER_SIZE, seg_free = True\<rparr>) s1
      in s2\<lparr>sLastHeader := HEAP_VIRTUAL_BASE\<rparr>)"

text \<open>\<open>Scheduler::map_pages_in_all_processes\<close>, over the page maps of the process queue.\<close>

definition map_pages_in_all_processes :: "u64 list \<Rightarrow> u64 \<Rightarrow> u64 \<Rightarrow> u64 \<Rightarrow> u64 \<Rightarrow> vmm \<Rightarrow> vmm" where
  "map_pages_in_all_processes maps virtualAddress physicalAddress mappingFlags pages v =
     fold (\<lambda>cr3. map_pages cr3 virtualAddress physicalAddress mappingFlags pages) maps v"

definition expand_page :: "u64 list \<Rightarrow> u64 \<Rightarrow> vmm \<Rightarrow> vmm" where
  "expand_page maps virt v =
     (let (addr, v1) = vm_request_page v;
          v2 = memset_page addr v1;
          v3 = map_pages_in_all_processes maps virt addr heap_flags 1 v2;
          (active, v4) = active_page_map v3
      in map_vm active virt addr heap_flags v4)"

definition expand_heap :: "u64 \<Rightarrow> heap \<Rightarrow> heap" where
  "expand_heap numBytes s =
     (let numPages = numBytes div PAGE_SIZE + 1;
          numBytes' = numPages * PAGE_SIZE;
          vm1 = page_loop (\<lambda>i. expand_page (process_maps s) (sHeapEnd s + i)) 0 (numPages * PAGE_SIZE) (vm s);
          extension = sHeapEnd s;
          s1 = s\<lparr>vm := vm1, sHeapEnd := extension + numBytes'\<rparr>;
          s2 = upd_hdr extension (\<lambda>h. h\<lparr>seg_free := True, seg_last := sLastHeader s1\<rparr>) s1;
          s3 = upd_hdr (sLastHeader s2) (\<lambda>h. h\<lparr>seg_next := extension\<rparr>) s2;
          s4 = s3\<lparr>sLastHeader := extension\<rparr>;
          s5 = upd_hdr extension (\<lambda>h. h\<lparr>seg_next := 0, seg_length := numBytes' - HEADER_SIZE\<rparr>) s4
      in combine_backward extension s5)"

section \<open>Allocating and freeing\<close>

text \<open>
  The search loop of \<open>malloc\<close>. \<open>None\<close> of the outer option is a list that never ends; the inner
  option is the block found, or none when the last header is passed.
\<close>

partial_function (option) malloc_search :: "u64 \<Rightarrow> u64 \<Rightarrow> heap \<Rightarrow> (u64 \<times> heap) option option" where
  "malloc_search numBytes current s =
     (let h = hdr s current; (sp, s1) = split_segment current numBytes s
      in if seg_free h \<and> seg_length h > numBytes \<and> sp \<noteq> 0
         then Some (Some (sp + HEADER_SIZE, upd_hdr sp (\<lambda>h. h\<lparr>seg_free := False\<rparr>) s1))
         else if seg_free h \<and> \<not> seg_length h > numBytes \<and> seg_length h = numBytes
         then Some (Some (current + HEADER_SIZE, upd_hdr current (\<lambda>h. h\<lparr>seg_free := False\<rparr>) s))
         else if seg_next h = 0 then Some None
         else malloc_search numBytes (seg_next h) s)"

definition round_up :: "u64 \<Rightarrow> u64" where
  "round_up numBytes =
     (if numBytes mod HEAP_BYTE_ALIGN > 0
      then numBytes - numBytes mod HEAP_BYTE_ALIGN + HEAP_BYTE_ALIGN else numBytes)"

partial_function (option) malloc :: "u64 \<Rightarrow> heap \<Rightarrow> (u64 \<times> heap) option" where
  "malloc numBytes s =
     (if numBytes = 0 then Some (0, s)
      else Option.bind (malloc_search (round_up numBytes) (sHeapStart s) s)
             (\<lambda>found. if \<not> Option.is_none found then found
                      else malloc (round_up numBytes) (expand_heap (round_up numBytes) s)))"

definition free_heap :: "u64 \<Rightarrow> heap \<Rightarrow> heap" where
  "free_heap address s =
     (if address AND HEAP_VIRTUAL_BASE \<noteq> HEAP_VIRTUAL_BASE then s
      else let segment = address - HEADER_SIZE;
               s1 = upd_hdr segment (\<lambda>h. h\<lparr>seg_free := True\<rparr>) s
           in combine_backward segment (combine_forward segment s1))"

definition aligned_new :: "u64 \<Rightarrow> u64 \<Rightarrow> heap \<Rightarrow> (u64 \<times> heap) option" where
  "aligned_new sz align s =
     (if align \<le> HEAP_BYTE_ALIGN then malloc sz s
      else Option.bind (malloc (sz + align + 8) s)
             (\<lambda>(addr, s1). let a1 = addr + 8;
                              a2 = a1 + (align - a1 mod align) mod align
                          in Some (a2, s1\<lparr>payload_words := (payload_words s1)(a2 - 8 := addr)\<rparr>)))"

definition aligned_delete :: "u64 \<Rightarrow> u64 \<Rightarrow> heap \<Rightarrow> heap" where
  "aligned_delete addr align s =
     (if align \<le> HEAP_BYTE_ALIGN then free_heap addr s
      else if addr AND HEAP_VIRTUAL_BASE \<noteq> HEAP_VIRTUAL_BASE then s
      else free_heap (payload_words s (addr - 8)) s)"

section \<open>The heap as a list of segments\<close>

text \<open>A segment: the address of its header, the length of its payload, and whether it is free.\<close>

type_synonym segment = "u64 \<times> u64 \<times> bool"

fun head_addr :: "segment list \<Rightarrow> u64 \<Rightarrow> u64" where
  "head_addr [] nx = nx"
| "head_addr ((a, l, f) # segs) nx = a"

fun last_addr :: "u64 \<Rightarrow> segment list \<Rightarrow> u64" where
  "last_addr p [] = p"
| "last_addr p ((a, l, f) # segs) = last_addr a segs"

text \<open>The headers are linked in both directions, from \<open>p\<close> before the list to \<open>nx\<close> after it.\<close>

fun links :: "(u64 \<Rightarrow> HeapSegmentHeader) \<Rightarrow> u64 \<Rightarrow> segment list \<Rightarrow> u64 \<Rightarrow> bool" where
  "links H p [] nx = True"
| "links H p ((a, l, f) # segs) nx =
     (H a = \<lparr>seg_last = p, seg_next = head_addr segs nx, seg_length = l, seg_free = f\<rparr> \<and> links H a segs nx)"

text \<open>Headers and payloads fill the addresses from \<open>b\<close> to \<open>e\<close> without gaps.\<close>

fun tiles :: "nat \<Rightarrow> segment list \<Rightarrow> nat \<Rightarrow> bool" where
  "tiles b [] e = (b = e)"
| "tiles b ((a, l, f) # segs) e =
     (unat a = b \<and> 16 dvd unat l \<and> 16 \<le> unat l \<and> tiles (b + 32 + unat l) segs e)"

fun coalesced :: "segment list \<Rightarrow> bool" where
  "coalesced ((a, l, f) # (b, m, g) # segs) = (\<not> (f \<and> g) \<and> coalesced ((b, m, g) # segs))"
| "coalesced segs = True"

definition heap_repr :: "heap \<Rightarrow> segment list \<Rightarrow> bool" where
  "heap_repr s segs \<longleftrightarrow> segs \<noteq> [] \<and> links (hdr s) 0 segs 0 \<and>
     tiles (unat (sHeapStart s)) segs (unat (sHeapEnd s)) \<and>
     16 dvd unat (sHeapStart s) \<and> 0 < unat (sHeapStart s) \<and>
     sLastHeader s = last_addr 0 segs"

definition seg_addrs :: "segment list \<Rightarrow> u64 set" where
  "seg_addrs segs = fst ` set segs"

lemma seg_addrs_simps [simp]:
  "seg_addrs [] = {}" "seg_addrs ((a, l, f) # segs) = insert a (seg_addrs segs)"
  "seg_addrs (xs @ ys) = seg_addrs xs \<union> seg_addrs ys"
  by (auto simp: seg_addrs_def)

lemma head_addr_append [simp]: "head_addr (xs @ ys) nx = head_addr xs (head_addr ys nx)"
  by (cases xs) auto

lemma last_addr_append [simp]: "last_addr p (xs @ ys) = last_addr (last_addr p xs) ys"
  by (induction xs arbitrary: p) auto

lemma links_append [simp]:
  "links H p (xs @ ys) nx \<longleftrightarrow> links H p xs (head_addr ys nx) \<and> links H (last_addr p xs) ys nx"
  by (induction xs arbitrary: p) auto

lemma tiles_append:
  "tiles b (xs @ ys) e \<longleftrightarrow> (\<exists>m. tiles b xs m \<and> tiles m ys e)"
  by (induction xs arbitrary: b) auto

lemma tiles_le: "tiles b segs e \<Longrightarrow> b \<le> e"
proof (induction segs arbitrary: b)
  case (Cons seg segs)
  then show ?case by (cases seg) (force dest: Cons.IH)
qed simp

lemma tiles_addrs: "tiles b segs e \<Longrightarrow> x \<in> seg_addrs segs \<Longrightarrow> b \<le> unat x \<and> unat x + 48 \<le> e"
proof (induction segs arbitrary: b)
  case (Cons seg segs)
  obtain a l f where seg: "seg = (a, l, f)" by (cases seg)
  have t: "tiles (b + 32 + unat l) segs e" "unat a = b" "16 \<le> unat l" using Cons.prems(1) by (auto simp: seg)
  then show ?case using Cons.IH [OF t(1)] tiles_le [OF t(1)] Cons.prems(2) by (auto simp: seg)
qed simp

lemma tiles_distinct: "tiles b segs e \<Longrightarrow> distinct (map fst segs)"
proof (induction segs arbitrary: b)
  case (Cons seg segs)
  obtain a l f where seg: "seg = (a, l, f)" by (cases seg)
  have t: "tiles (b + 32 + unat l) segs e" "unat a = b" using Cons.prems by (auto simp: seg)
  have "a \<notin> fst ` set segs" using tiles_addrs [OF t(1), of a] t(2) by (auto simp: seg_addrs_def)
  then show ?case using Cons.IH [OF t(1)] by (simp add: seg)
qed simp

lemma links_upd_other [simp]:
  "c \<notin> seg_addrs segs \<Longrightarrow> links (H(c := h)) p segs nx = links H p segs nx"
  by (induction segs arbitrary: p) auto

text \<open>Splitting off the last or the first segment of a nonempty list.\<close>

lemma segs_rev_cases:
  fixes xs :: "segment list"
  obtains "xs = []" | ys z k g where "xs = ys @ [(z, k, g)]"
  by (cases xs rule: rev_cases) auto

lemma segs_cases:
  fixes xs :: "segment list"
  obtains "xs = []" | ys z k g where "xs = (z, k, g) # ys"
  by (cases xs) auto

lemma coalesced_append:
  "coalesced (xs @ (a, l, f) # ys) \<longleftrightarrow> coalesced (xs @ [(a, l, f)]) \<and> coalesced ((a, l, f) # ys)"
proof (induction xs)
  case (Cons x xs)
  then show ?case by (cases x; cases xs) (auto split: prod.splits)
qed simp

lemma coalesced_snoc:
  "coalesced (xs @ [(z, k, g), (a, l, f)]) \<longleftrightarrow> coalesced (xs @ [(z, k, g)]) \<and> \<not> (g \<and> f)"
  using coalesced_append [of xs z k g "[(a, l, f)]"] by auto

text \<open>What no operation on the headers touches.\<close>

definition same_extent :: "heap \<Rightarrow> heap \<Rightarrow> bool" where
  "same_extent s s' \<longleftrightarrow> vm s' = vm s \<and> process_maps s' = process_maps s \<and>
     payload_words s' = payload_words s \<and> sHeapStart s' = sHeapStart s \<and> sHeapEnd s' = sHeapEnd s"

lemma same_extent_refl [simp]: "same_extent s s"
  by (simp add: same_extent_def)

lemma same_extent_trans: "same_extent s s' \<Longrightarrow> same_extent s' s'' \<Longrightarrow> same_extent s s''"
  by (simp add: same_extent_def)

lemma upd_hdr_simps [simp]:
  "vm (upd_hdr a f s) = vm s" "process_maps (upd_hdr a f s) = process_maps s"
  "payload_words (upd_hdr a f s) = payload_words s" "sHeapStart (upd_hdr a f s) = sHeapStart s"
  "sHeapEnd (upd_hdr a f s) = sHeapEnd s" "sLastHeader (upd_hdr a f s) = sLastHeader s"
  "hdr (upd_hdr a f s) = (hdr s)(a := f (hdr s a))"
  by (simp_all add: upd_hdr_def)

text \<open>The facts a proof about the segment at \<open>a\<close> in the middle of the list starts from.\<close>

lemma heap_repr_at:
  assumes "heap_repr s (xs @ (a, l, f) # ys)"
  shows "hdr s a = \<lparr>seg_last = last_addr 0 xs, seg_next = head_addr ys 0, seg_length = l, seg_free = f\<rparr>"
    and "a \<noteq> 0" and "a \<notin> seg_addrs xs" and "a \<notin> seg_addrs ys"
    and "seg_addrs xs \<inter> seg_addrs ys = {}"
    and "unat a + 32 + unat l \<le> unat (sHeapEnd s)" and "16 dvd unat l" "16 \<le> unat l"
    and "0 \<notin> seg_addrs (xs @ (a, l, f) # ys)"
proof -
  show "hdr s a = \<lparr>seg_last = last_addr 0 xs, seg_next = head_addr ys 0, seg_length = l, seg_free = f\<rparr>"
    using assms by (simp add: heap_repr_def)
  have t: "tiles (unat (sHeapStart s)) (xs @ (a, l, f) # ys) (unat (sHeapEnd s))" "0 < unat (sHeapStart s)"
    using assms by (simp_all add: heap_repr_def)
  show z: "0 \<notin> seg_addrs (xs @ (a, l, f) # ys)" using tiles_addrs [OF t(1), of 0] t(2) by auto
  then show "a \<noteq> 0" by auto
  have "distinct (map fst (xs @ (a, l, f) # ys))" by (rule tiles_distinct [OF t(1)])
  then show "a \<notin> seg_addrs xs" "a \<notin> seg_addrs ys" "seg_addrs xs \<inter> seg_addrs ys = {}"
    by (auto simp: seg_addrs_def)
  show "unat a + 32 + unat l \<le> unat (sHeapEnd s)" "16 dvd unat l" "16 \<le> unat l"
    using t(1) by (auto simp: tiles_append dest: tiles_le)
qed

lemma last_addr_in: "xs \<noteq> [] \<Longrightarrow> last_addr p xs \<in> seg_addrs xs"
  by (cases xs rule: segs_rev_cases) auto

lemma head_addr_in: "xs \<noteq> [] \<Longrightarrow> head_addr xs p \<in> seg_addrs xs"
  by (cases xs rule: segs_cases) auto

lemma unat_header [simp]: "unat HEADER_SIZE = 32" "unat HEAP_BYTE_ALIGN = 16"
  by (simp_all add: HEADER_SIZE_def HEAP_BYTE_ALIGN_def)

subsection \<open>Merging\<close>

lemma combine_forward_stop:
  assumes "heap_repr s (xs @ (a, l, f) # ys)" and "\<And>b m g zs. ys = (b, m, g) # zs \<Longrightarrow> \<not> g"
  shows "combine_forward a s = s"
proof (cases ys rule: segs_cases)
  case 1
  then show ?thesis using heap_repr_at(1) [OF assms(1)] by (simp add: combine_forward_def)
next
  case (2 zs b m g)
  then have "\<not> g" "hdr s b = \<lparr>seg_last = a, seg_next = head_addr zs 0, seg_length = m, seg_free = g\<rparr>"
    using assms by (simp_all add: heap_repr_def)
  then show ?thesis using 2 heap_repr_at(1) [OF assms(1)] by (simp add: combine_forward_def)
qed

lemma combine_forward_merge:
  assumes rep: "heap_repr s (xs @ (a, l, f) # (b, m, True) # ys)"
  shows "heap_repr (combine_forward a s) (xs @ (a, l + m + HEADER_SIZE, f) # ys)"
    and "same_extent s (combine_forward a s)"
proof -
  note A = heap_repr_at [OF rep]
  have rep': "heap_repr s ((xs @ [(a, l, f)]) @ (b, m, True) # ys)" using rep by simp
  note B = heap_repr_at [OF rep']
  define e where "e = unat (sHeapEnd s)"
  have t: "tiles (unat (sHeapStart s)) xs (unat a)" "unat b = unat a + 32 + unat l"
    "tiles (unat b + 32 + unat m) ys e" "16 dvd unat l" "16 dvd unat m" "16 \<le> unat l" "16 \<le> unat m"
    using rep by (auto simp: heap_repr_def tiles_append e_def)
  have "unat b + 32 + unat m \<le> e" by (rule tiles_le [OF t(3)])
  moreover have "e < 18446744073709551616" by (simp add: e_def)
  ultimately have len: "unat (l + m + HEADER_SIZE) = unat l + unat m + 32"
    using t(2) by (simp add: unat_u64_plus_small)
  have last: "b = sLastHeader s \<longleftrightarrow> ys = []"
    using rep B(4) last_addr_in [of ys b] by (cases "ys = []") (auto simp: heap_repr_def)
  have L: "links (hdr s) 0 xs a" "links (hdr s) b ys 0" using rep by (simp_all add: heap_repr_def)
  show "same_extent s (combine_forward a s)"
    by (simp add: combine_forward_def same_extent_def Let_def)
  have tl: "tiles (unat (sHeapStart s)) (xs @ (a, l + m + HEADER_SIZE, f) # ys) e"
    using t len by (auto simp: tiles_append add.assoc intro!: exI [of _ "unat a"])
  have ab: "b \<noteq> a" using A(4) by auto
  show "heap_repr (combine_forward a s) (xs @ (a, l + m + HEADER_SIZE, f) # ys)"
  proof (cases ys rule: segs_cases)
    case 1
    then have "combine_forward a s = (upd_hdr a (\<lambda>h. h\<lparr>seg_length := l + m + HEADER_SIZE, seg_next := 0\<rparr>) s)\<lparr>sLastHeader := a\<rparr>"
      using A(1-4) B(1,2) last by (simp add: combine_forward_def upd_hdr_def)
    then show ?thesis using 1 rep tl A L by (simp add: heap_repr_def e_def)
  next
    case (2 zs c k g)
    have C: "hdr s c = \<lparr>seg_last = b, seg_next = head_addr zs 0, seg_length = k, seg_free = g\<rparr>" "c \<noteq> 0" "c \<noteq> a" "c \<noteq> b"
      using rep 2 A B by (auto simp: heap_repr_def)
    have zs: "c \<notin> seg_addrs zs" "c \<notin> seg_addrs xs" "a \<notin> seg_addrs zs"
      using heap_repr_at(3,4) [of s "xs @ [(a, l, f), (b, m, True)]" c k g zs] rep A 2 by auto
    have "combine_forward a s = upd_hdr a (\<lambda>h. h\<lparr>seg_length := l + m + HEADER_SIZE, seg_next := c\<rparr>)
        (upd_hdr c (\<lambda>h. h\<lparr>seg_last := a\<rparr>) s)"
      using A(1-4) B(1,2) C last 2 ab by (simp add: combine_forward_def upd_hdr_def Let_def)
    then show ?thesis using 2 rep tl A L C zs by (simp add: heap_repr_def e_def)
  qed
qed

lemma combine_backward_stop:
  assumes "heap_repr s (xs @ (a, l, f) # ys)" and "\<And>zs z k g. xs = zs @ [(z, k, g)] \<Longrightarrow> \<not> g"
  shows "combine_backward a s = s"
proof (cases xs rule: segs_rev_cases)
  case 1
  then show ?thesis using heap_repr_at(1) [OF assms(1)] by (simp add: combine_backward_def)
next
  case (2 zs z k g)
  then have "\<not> g" "heap_repr s (zs @ (z, k, g) # (a, l, f) # ys)" using assms by simp_all
  then show ?thesis
    using 2 heap_repr_at(1) [OF assms(1)] heap_repr_at(1) [of s zs z k g]
    by (simp add: combine_backward_def)
qed

lemma combine_backward_merge:
  assumes "heap_repr s (zs @ (z, k, True) # (a, l, True) # ys)"
  shows "heap_repr (combine_backward a s) (zs @ (z, k + l + HEADER_SIZE, True) # ys)"
    and "same_extent s (combine_backward a s)"
proof -
  have "heap_repr s ((zs @ [(z, k, True)]) @ (a, l, True) # ys)" using assms by simp
  from heap_repr_at(1) [OF this] have "combine_backward a s = combine_forward z s"
    using heap_repr_at(1,2) [OF assms] by (simp add: combine_backward_def)
  then show "heap_repr (combine_backward a s) (zs @ (z, k + l + HEADER_SIZE, True) # ys)"
    and "same_extent s (combine_backward a s)"
    using combine_forward_merge [OF assms] by simp_all
qed

text \<open>The neighbours of a freed segment, merged the way \<open>free\<close> does it.\<close>

fun merge_next :: "segment \<Rightarrow> segment list \<Rightarrow> segment list" where
  "merge_next (a, l, f) ((b, m, g) # segs) =
     (if g then (a, l + m + HEADER_SIZE, f) # segs else (a, l, f) # (b, m, g) # segs)"
| "merge_next x [] = [x]"

text \<open>The list is kept with the segments before \<open>a\<close> reversed.\<close>

fun merge_prev :: "segment list \<Rightarrow> segment list \<Rightarrow> segment list" where
  "merge_prev ((z, k, g) # before) ((a, l, f) # after) =
     (if g then rev before @ (z, k + l + HEADER_SIZE, g) # after
      else rev before @ (z, k, g) # (a, l, f) # after)"
| "merge_prev before after = rev before @ after"

definition free_segs :: "segment list \<Rightarrow> u64 \<Rightarrow> u64 \<Rightarrow> segment list \<Rightarrow> segment list" where
  "free_segs xs a l ys = merge_prev (rev xs) (merge_next (a, l, True) ys)"

lemma heap_repr_mark:
  assumes "heap_repr s (xs @ (a, l, f) # ys)"
  shows "heap_repr (upd_hdr a (\<lambda>h. h\<lparr>seg_free := g\<rparr>) s) (xs @ (a, l, g) # ys)"
  using assms heap_repr_at [OF assms] by (auto simp: heap_repr_def tiles_append)

lemma combine_forward_repr:
  assumes "heap_repr s (xs @ (a, l, True) # ys)"
  shows "heap_repr (combine_forward a s) (xs @ merge_next (a, l, True) ys)
    \<and> same_extent s (combine_forward a s)"
proof (cases ys rule: segs_cases)
  case 1
  then show ?thesis using assms combine_forward_stop [OF assms] by simp
next
  case (2 zs b m g)
  then show ?thesis
    using assms combine_forward_stop [OF assms] combine_forward_merge [of s xs a l True b m zs] by (cases g) auto
qed

lemma combine_backward_repr:
  assumes "heap_repr s (xs @ (a, l, True) # ys)"
  shows "heap_repr (combine_backward a s) (merge_prev (rev xs) ((a, l, True) # ys))
    \<and> same_extent s (combine_backward a s)"
proof (cases xs rule: segs_rev_cases)
  case 1
  then show ?thesis using assms combine_backward_stop [OF assms] by simp
next
  case (2 zs z k g)
  then show ?thesis
    using assms combine_backward_stop [OF assms] combine_backward_merge [of s zs z k a l ys] by (cases g) auto
qed

lemma free_heap_repr:
  assumes rep: "heap_repr s (xs @ (a, l, False) # ys)"
    and addr: "(a + HEADER_SIZE) AND HEAP_VIRTUAL_BASE = HEAP_VIRTUAL_BASE"
  shows "heap_repr (free_heap (a + HEADER_SIZE) s) (free_segs xs a l ys)
    \<and> same_extent s (free_heap (a + HEADER_SIZE) s)"
proof -
  define s1 where "s1 = upd_hdr a (\<lambda>h. h\<lparr>seg_free := True\<rparr>) s"
  have 1: "heap_repr s1 (xs @ (a, l, True) # ys)" unfolding s1_def by (rule heap_repr_mark [OF rep])
  have "\<exists>l' ys'. merge_next (a, l, True) ys = (a, l', True) # ys'"
    by (cases ys rule: segs_cases) auto
  then obtain l' ys' where m: "merge_next (a, l, True) ys = (a, l', True) # ys'" by blast
  have 2: "heap_repr (combine_forward a s1) (xs @ (a, l', True) # ys')" "same_extent s1 (combine_forward a s1)"
    using combine_forward_repr [OF 1] m by simp_all
  have "free_heap (a + HEADER_SIZE) s = combine_backward a (combine_forward a s1)"
    using addr by (simp add: free_heap_def s1_def)
  moreover have "same_extent s s1" by (simp add: s1_def same_extent_def)
  ultimately show ?thesis
    using combine_backward_repr [OF 2(1)] 2(2) m by (auto simp: free_segs_def intro: same_extent_trans)
qed

subsection \<open>Splitting\<close>

definition splittable :: "u64 \<Rightarrow> u64 \<Rightarrow> bool" where
  "splittable l n \<longleftrightarrow> 16 \<le> unat n \<and> unat n + 48 \<le> unat l"

lemma split_segment_stop:
  assumes rep: "heap_repr s (xs @ (a, l, f) # ys)" and "\<not> splittable l n" "l > n"
  shows "split_segment a n s = (0, s)"
proof -
  note A = heap_repr_at [OF rep]
  have "unat l + 32 < 18446744073709551616"
    using A(2,6) unat_less_2_64 [of "sHeapEnd s"] by linarith
  moreover have "unat n < unat l" using assms(3) by (simp add: word_less_nat_alt)
  ultimately have n32: "unat (n + HEADER_SIZE) = unat n + 32" by (simp add: unat_u64_plus_small)
  have "unat (l - n - HEADER_SIZE) < 16" if "\<not> n + HEADER_SIZE > l" "\<not> n < HEAP_BYTE_ALIGN"
  proof -
    have le: "n + HEADER_SIZE \<le> l" using that(1) by simp
    have "unat (l - n - HEADER_SIZE) = unat l - (unat n + 32)"
      using unat_u64_minus [OF le] n32 by (simp add: diff_diff_eq)
    then show ?thesis using assms(2) that(2) by (simp add: splittable_def word_less_nat_alt)
  qed
  then show ?thesis
    using A(1) by (auto simp: split_segment_def Let_def word_less_nat_alt)
qed

lemma split_segment_repr:
  assumes rep: "heap_repr s (xs @ (a, l, f) # ys)" and fit: "splittable l n" and al: "16 dvd unat n"
  shows "fst (split_segment a n s) = a"
    and "heap_repr (snd (split_segment a n s))
      (xs @ (a, n, f) # (a + HEADER_SIZE + n, l - n - HEADER_SIZE, f) # ys)"
    and "same_extent s (snd (split_segment a n s))"
proof -
  note A = heap_repr_at [OF rep]
  define b where "b = a + HEADER_SIZE + n"
  define m where "m = l - n - HEADER_SIZE"
  have fits: "16 \<le> unat n" "unat n + 48 \<le> unat l" using fit by (simp_all add: splittable_def)
  have e: "unat a + 32 + unat l < 18446744073709551616"
    using A(6) unat_less_2_64 [of "sHeapEnd s"] by linarith
  have n32: "unat (n + HEADER_SIZE) = unat n + 32" using e fits by (simp add: unat_u64_plus_small)
  then have le: "n + HEADER_SIZE \<le> l" using fits by (simp add: word_le_nat_alt)
  have m: "unat m = unat l - unat n - 32"
    using unat_u64_minus [OF le] n32 by (simp add: m_def algebra_simps)
  have b: "unat b = unat a + 32 + unat n"
    using e fits by (simp add: b_def unat_u64_plus_small)
  have t: "tiles (unat (sHeapStart s)) xs (unat a)" "tiles (unat a + 32 + unat l) ys (unat (sHeapEnd s))"
    using rep by (auto simp: heap_repr_def tiles_append)
  have "unat a + 32 + unat n + 32 + unat m = unat a + 32 + unat l" using m fits by simp
  then have "tiles (unat a + 32 + unat n + 32 + unat m) ys (unat (sHeapEnd s))" using t(2) by (simp only:)
  moreover have "16 dvd unat m" "16 \<le> unat m" using m A(7) al fits by (simp_all add: dvd_diff_nat)
  ultimately have tl: "tiles (unat (sHeapStart s)) (xs @ (a, n, f) # (b, m, f) # ys) (unat (sHeapEnd s))"
    using t(1) b fits(1) al by (auto simp: tiles_append intro!: exI [of _ "unat a"])
  have out: "b \<notin> seg_addrs xs" "b \<notin> seg_addrs ys" "b \<noteq> a" "b \<noteq> 0"
    using tiles_distinct [OF tl] b by (auto simp: seg_addrs_def)
  have go: "\<not> n + HEADER_SIZE > l" "\<not> n < HEAP_BYTE_ALIGN" "\<not> m < HEAP_BYTE_ALIGN"
    using n32 fits m by (simp_all add: word_less_nat_alt)
  have L: "links (hdr s) 0 xs a" "links (hdr s) a ys 0" using rep by (simp_all add: heap_repr_def)
  show "fst (split_segment a n s) = a" and "same_extent s (snd (split_segment a n s))"
    using A(1) go by (simp_all add: split_segment_def Let_def m_def same_extent_def)
  show "heap_repr (snd (split_segment a n s)) (xs @ (a, n, f) # (a + HEADER_SIZE + n, l - n - HEADER_SIZE, f) # ys)"
    unfolding b_def [symmetric] m_def [symmetric]
  proof (cases ys rule: segs_cases)
    case 1
    then have "hdr (snd (split_segment a n s)) = (hdr s)
        (a := \<lparr>seg_last = last_addr 0 xs, seg_next = b, seg_length = n, seg_free = f\<rparr>,
         b := \<lparr>seg_last = a, seg_next = 0, seg_length = m, seg_free = f\<rparr>)"
      and "sLastHeader (snd (split_segment a n s)) = b"
      using A(1) go out(3)
      by (auto simp: split_segment_def Let_def m_def [symmetric] b_def [symmetric] fun_eq_iff)
    then show "heap_repr (snd (split_segment a n s)) (xs @ (a, n, f) # (b, m, f) # ys)"
      using 1 rep tl A L out by (simp add: heap_repr_def split_segment_def Let_def)
  next
    case (2 zs c k g)
    have C: "hdr s c = \<lparr>seg_last = a, seg_next = head_addr zs 0, seg_length = k, seg_free = g\<rparr>"
      "c \<noteq> 0" "c \<noteq> a" "c \<noteq> b"
      using rep 2 A out by (auto simp: heap_repr_def)
    have zs: "c \<notin> seg_addrs zs" "c \<notin> seg_addrs xs"
      using heap_repr_at(3,4) [of s "xs @ [(a, l, f)]" c k g zs] rep 2 by auto
    have H: "hdr (snd (split_segment a n s)) = (hdr s)
        (c := \<lparr>seg_last = b, seg_next = head_addr zs 0, seg_length = k, seg_free = g\<rparr>,
         a := \<lparr>seg_last = last_addr 0 xs, seg_next = b, seg_length = n, seg_free = f\<rparr>,
         b := \<lparr>seg_last = a, seg_next = c, seg_length = m, seg_free = f\<rparr>)"
      and "sLastHeader (snd (split_segment a n s)) = sLastHeader s"
      using A(1) go out(3) C 2
      by (auto simp: split_segment_def Let_def m_def [symmetric] b_def [symmetric] fun_eq_iff)
    then show "heap_repr (snd (split_segment a n s)) (xs @ (a, n, f) # (b, m, f) # ys)"
      using 2 rep tl A L out C zs by (simp add: heap_repr_def split_segment_def Let_def)
  qed
qed

section \<open>Allocation on the list\<close>

text \<open>First fit: the first free segment that has exactly the length or can be split.\<close>

fun alloc_segs :: "u64 \<Rightarrow> segment list \<Rightarrow> (u64 \<times> segment list) option" where
  "alloc_segs n [] = None"
| "alloc_segs n ((a, l, f) # segs) =
     (if f \<and> splittable l n
      then Some (a + HEADER_SIZE, (a, n, False) # (a + HEADER_SIZE + n, l - n - HEADER_SIZE, True) # segs)
      else if f \<and> l = n then Some (a + HEADER_SIZE, (a, l, False) # segs)
      else map_option (\<lambda>(p, segs'). (p, (a, l, f) # segs')) (alloc_segs n segs))"

lemma splittable_less: "splittable l n \<Longrightarrow> n < l"
  by (simp add: splittable_def word_less_nat_alt)

lemma malloc_search_repr:
  assumes "heap_repr s (xs @ ys)" "ys \<noteq> []" "16 dvd unat n"
  shows "\<exists>r. malloc_search n (head_addr ys 0) s = Some r \<and>
    (case alloc_segs n ys of
       None \<Rightarrow> r = None
     | Some (p, ys') \<Rightarrow> \<exists>s'. r = Some (p, s') \<and> heap_repr s' (xs @ ys') \<and> same_extent s s')"
  using assms(1,2)
proof (induction ys arbitrary: xs)
  case (Cons seg ys)
  obtain a l f where seg: "seg = (a, l, f)" by (cases seg)
  have rep: "heap_repr s (xs @ (a, l, f) # ys)" using Cons.prems by (simp add: seg)
  note A = heap_repr_at [OF rep]
  let ?sp = "split_segment a n s"
  show ?case
  proof (cases "f \<and> splittable l n")
    case True
    note sp = split_segment_repr [OF rep conjunct2 [OF True] assms(3)]
    let ?s' = "upd_hdr a (\<lambda>h. h\<lparr>seg_free := False\<rparr>) (snd ?sp)"
    have "malloc_search n a s = Some (Some (a + HEADER_SIZE, ?s'))"
      using True A(1,2) sp(1) splittable_less [of l n]
      by (subst malloc_search.simps) (simp add: Let_def split_beta)
    moreover have "heap_repr ?s' (xs @ (a, n, False) # (a + HEADER_SIZE + n, l - n - HEADER_SIZE, True) # ys)"
      using heap_repr_mark [OF sp(2), of False] True by simp
    moreover have "same_extent s ?s'" using sp(3) by (simp add: same_extent_def)
    ultimately show ?thesis using True by (simp add: seg)
  next
    case no_split: False
    have stop: "\<not> (f \<and> l > n \<and> fst ?sp \<noteq> 0)"
      using no_split split_segment_stop [OF rep, of n] by auto
    show ?thesis
    proof (cases "f \<and> l = n")
      case True
      let ?s' = "upd_hdr a (\<lambda>h. h\<lparr>seg_free := False\<rparr>) s"
      have "malloc_search n a s = Some (Some (a + HEADER_SIZE, ?s'))"
        using True A(1) stop by (subst malloc_search.simps) (simp add: Let_def split_beta)
      moreover have "heap_repr ?s' (xs @ (a, l, False) # ys)" by (rule heap_repr_mark [OF rep])
      moreover have "same_extent s ?s'" by (simp add: same_extent_def)
      ultimately show ?thesis using True no_split by (simp add: seg)
    next
      case no_fit: False
      have step: "malloc_search n a s = (if head_addr ys 0 = 0 then Some None else malloc_search n (head_addr ys 0) s)"
        using A(1) stop no_fit by (subst malloc_search.simps) (auto simp: Let_def split_beta)
      show ?thesis
      proof (cases "ys = []")
        case True
        then show ?thesis using step no_split no_fit by (auto simp: seg)
      next
        case False
        have "head_addr ys 0 \<noteq> 0" using head_addr_in [OF False, of 0] A(9) by auto
        moreover have "heap_repr s ((xs @ [(a, l, f)]) @ ys)" using rep by simp
        ultimately show ?thesis
          using Cons.IH [OF _ False] step no_split no_fit by (fastforce simp: seg split: option.splits)
      qed
    qed
  qed
qed simp

subsection \<open>The used segments\<close>

definition used :: "segment list \<Rightarrow> (u64 \<times> u64) set" where
  "used segs = {(a, l). (a, l, False) \<in> set segs}"

lemma used_simps [simp]:
  "used [] = {}" "used ((a, l, f) # segs) = (if f then used segs else insert (a, l) (used segs))"
  "used (xs @ ys) = used xs \<union> used ys" "used (rev xs) = used xs"
  by (auto simp: used_def)

lemma used_merge_next: "used (merge_next (a, l, True) ys) = used ys"
  by (cases ys rule: segs_cases) auto

lemma used_merge_prev: "used (merge_prev xs ((a, l, True) # ys)) = used xs \<union> used ys"
  by (cases xs rule: segs_cases) auto

lemma used_free_segs: "used (free_segs xs a l ys) = used xs \<union> used ys"
proof -
  have "\<exists>l' ys'. merge_next (a, l, True) ys = (a, l', True) # ys' \<and> used ys' = used ys"
    by (cases ys rule: segs_cases) auto
  then obtain l' ys' where m: "merge_next (a, l, True) ys = (a, l', True) # ys'" "used ys' = used ys" by blast
  show ?thesis unfolding free_segs_def m(1) used_merge_prev by (simp add: m(2))
qed

lemma alloc_segs_used:
  assumes "alloc_segs n segs = Some (p, segs')"
  shows "\<exists>a l. p = a + HEADER_SIZE \<and> (a, l, True) \<in> set segs \<and> used segs' = insert (a, n) (used segs)"
  using assms
proof (induction segs arbitrary: segs')
  case (Cons seg segs)
  obtain a l f where seg: "seg = (a, l, f)" by (cases seg)
  show ?case
  proof (cases "f \<and> (splittable l n \<or> l = n)")
    case True
    then have "p = a + HEADER_SIZE \<and> used segs' = insert (a, n) (used segs)"
      using Cons.prems by (cases "splittable l n") (auto simp: seg)
    then show ?thesis using True by (auto simp: seg)
  next
    case False
    then obtain q where q: "alloc_segs n segs = Some (p, q)" "segs' = (a, l, f) # q"
      using Cons.prems by (cases "alloc_segs n segs") (auto simp: seg)
    obtain b k where "p = b + HEADER_SIZE" "(b, k, True) \<in> set segs" "used q = insert (b, n) (used segs)"
      using Cons.IH [OF q(1)] by blast
    then show ?thesis by (intro exI [of _ b] exI [of _ k]) (auto simp: seg q(2))
  qed
qed simp

lemma coalesced_tl: "coalesced (x # xs) \<Longrightarrow> coalesced xs"
  by (cases x; cases xs) auto

lemma coalesced_Cons:
  "coalesced ((a, l, f) # xs) \<longleftrightarrow> coalesced xs \<and> (\<forall>b m g ys. xs = (b, m, g) # ys \<longrightarrow> \<not> (f \<and> g))"
  by (cases xs rule: segs_cases) auto

lemma alloc_segs_coalesced:
  assumes "alloc_segs n segs = Some (p, segs')" "coalesced segs"
  shows "coalesced segs' \<and> (\<forall>a l f as. segs = (a, l, f) # as \<longrightarrow> (\<exists>l' f' as'. segs' = (a, l', f') # as' \<and> (f' \<longrightarrow> f)))"
  using assms
proof (induction segs arbitrary: segs')
  case (Cons seg segs)
  obtain a l f where seg: "seg = (a, l, f)" by (cases seg)
  have tl: "coalesced segs" using Cons.prems(2) by (rule coalesced_tl)
  show ?case
  proof (cases "f \<and> (splittable l n \<or> l = n)")
    case True
    then show ?thesis using Cons.prems by (auto simp: seg coalesced_Cons split: if_splits)
  next
    case False
    then obtain q where q: "alloc_segs n segs = Some (p, q)" "segs' = (a, l, f) # q"
      using Cons.prems(1) by (auto simp: seg split: if_splits)
    then show ?thesis
      using Cons.IH [OF q(1) tl] Cons.prems(2) by (cases segs rule: segs_cases) (auto simp: seg coalesced_Cons)
  qed
qed simp

lemma coalesced_rev_snoc: "coalesced (xs @ [(a, l, f)]) \<longleftrightarrow>
    coalesced xs \<and> (\<forall>zs z k g. xs = zs @ [(z, k, g)] \<longrightarrow> \<not> (g \<and> f))"
  by (cases xs rule: segs_rev_cases) (auto simp: coalesced_snoc)

lemma coalesced_middle:
  "coalesced (xs @ (a, l, f) # ys) \<longleftrightarrow> coalesced xs \<and> coalesced ys \<and>
     (\<forall>zs z k g. xs = zs @ [(z, k, g)] \<longrightarrow> \<not> (g \<and> f)) \<and> (\<forall>b m g zs. ys = (b, m, g) # zs \<longrightarrow> \<not> (f \<and> g))"
  unfolding coalesced_append [of xs] coalesced_rev_snoc coalesced_Cons by auto

lemma merge_next_coalesced:
  assumes "coalesced ys" "merge_next (a, l, True) ys = (a, l', True) # ys'"
  shows "coalesced ys' \<and> (\<forall>b m g zs. ys' = (b, m, g) # zs \<longrightarrow> \<not> g)"
  using assms by (cases ys rule: segs_cases) (auto simp: coalesced_Cons split: if_splits)

lemma merge_prev_coalesced:
  assumes "coalesced xs" "coalesced ys" "\<forall>b m g zs. ys = (b, m, g) # zs \<longrightarrow> \<not> g"
  shows "coalesced (merge_prev (rev xs) ((a, l, True) # ys))"
proof (cases xs rule: segs_rev_cases)
  case 1
  then show ?thesis using assms by (simp add: coalesced_Cons)
next
  case (2 zs z k g)
  then show ?thesis
    using assms
    by (auto simp: coalesced_middle coalesced_rev_snoc coalesced_Cons)
qed

lemma free_segs_coalesced:
  assumes "coalesced (xs @ (a, l, f) # ys)"
  shows "coalesced (free_segs xs a l ys)"
proof -
  have "\<exists>l' ys'. merge_next (a, l, True) ys = (a, l', True) # ys'"
    by (cases ys rule: segs_cases) auto
  then obtain l' ys' where m: "merge_next (a, l, True) ys = (a, l', True) # ys'" by blast
  have "coalesced xs" "coalesced ys" using assms by (simp_all add: coalesced_middle)
  then show ?thesis
    unfolding free_segs_def m using merge_next_coalesced [OF _ m] by (intro merge_prev_coalesced) blast+
qed

text \<open>The payloads of different segments do not overlap.\<close>

definition payload :: "u64 \<Rightarrow> u64 \<Rightarrow> nat set" where
  "payload a l = {unat a + 32 ..< unat a + 32 + unat l}"

lemma tiles_payload: "tiles b segs e \<Longrightarrow> (a, l, f) \<in> set segs \<Longrightarrow> payload a l \<subseteq> {b + 32 ..< e}"
proof (induction segs arbitrary: b)
  case (Cons seg segs)
  obtain a' l' f' where seg: "seg = (a', l', f')" by (cases seg)
  have t: "tiles (b + 32 + unat l') segs e" "unat a' = b" using Cons.prems(1) by (auto simp: seg)
  show ?case
    using Cons.IH [OF t(1)] Cons.prems(2) tiles_le [OF t(1)] t(2) by (force simp: seg payload_def)
qed simp

lemma payload_disjoint:
  assumes "tiles b segs e" "(a, l, f) \<in> set segs" "(a', l', f') \<in> set segs" "a \<noteq> a'"
  shows "payload a l \<inter> payload a' l' = {}"
  using assms
proof (induction segs arbitrary: b)
  case (Cons seg segs)
  obtain c m g where seg: "seg = (c, m, g)" by (cases seg)
  have t: "tiles (b + 32 + unat m) segs e" "unat c = b" using Cons.prems(1) by (auto simp: seg)
  have "payload c m \<inter> payload x k = {}" if "(x, k, h) \<in> set segs" for x k h
    using tiles_payload [OF t(1) that] t(2) by (auto simp: payload_def)
  then show ?case
    using Cons.IH [OF t(1)] Cons.prems(2-4) by (auto simp: seg)
qed simp

section \<open>Expanding\<close>

definition expansion :: "u64 \<Rightarrow> nat" where
  "expansion n = (unat n div 4096 + 1) * 4096"

lemma expansion_bounds: "unat n < expansion n" "4096 \<le> expansion n" "16 dvd expansion n"
proof -
  have "unat n mod 4096 < 4096" by simp
  then show "unat n < expansion n" using div_mult_mod_eq [of "unat n" 4096] by (simp add: expansion_def)
  have "16 dvd (4096 :: nat)" by simp
  then show "16 dvd expansion n" unfolding expansion_def by (rule dvd_mult)
qed (simp add: expansion_def)

lemma unat_expansion:
  assumes "expansion n < 18446744073709551616"
  shows "unat ((n div PAGE_SIZE + 1) * PAGE_SIZE) = expansion n"
proof -
  have "unat (n div PAGE_SIZE + 1) = unat n div 4096 + 1"
    using assms by (subst unat_u64_plus_small) (simp_all add: unat_ops expansion_def)
  then show ?thesis using assms by (simp add: unat_u64_mult_small expansion_def)
qed

definition expand_segs :: "u64 \<Rightarrow> u64 \<Rightarrow> segment list \<Rightarrow> segment list" where
  "expand_segs n e segs = merge_prev (rev segs) [(e, of_nat (expansion n - 32), True)]"

lemma tiles_aligned: "tiles b segs e \<Longrightarrow> 16 dvd b \<Longrightarrow> 16 dvd e"
proof (induction segs arbitrary: b)
  case (Cons seg segs)
  obtain a l f where seg: "seg = (a, l, f)" by (cases seg)
  have t: "tiles (b + 32 + unat l) segs e" "16 dvd unat l" using Cons.prems by (auto simp: seg)
  have "16 dvd b + 32 + unat l" using Cons.prems(2) t(2) by (intro dvd_add) simp_all
  then show ?case by (rule Cons.IH [OF t(1)])
qed simp

lemma heap_repr_end:
  assumes "heap_repr s segs" shows "sHeapEnd s \<notin> seg_addrs segs" "16 dvd unat (sHeapEnd s)" "sHeapEnd s \<noteq> 0"
proof -
  have t: "tiles (unat (sHeapStart s)) segs (unat (sHeapEnd s))" "16 dvd unat (sHeapStart s)" "0 < unat (sHeapStart s)"
    using assms by (simp_all add: heap_repr_def)
  show "sHeapEnd s \<notin> seg_addrs segs" using tiles_addrs [OF t(1), of "sHeapEnd s"] by auto
  show "sHeapEnd s \<noteq> 0" using tiles_le [OF t(1)] t(3) by auto
  show "16 dvd unat (sHeapEnd s)" by (rule tiles_aligned [OF t(1,2)])
qed

lemma expand_heap_repr:
  assumes rep: "heap_repr s segs" and room: "unat (sHeapEnd s) + expansion n < 18446744073709551616"
  shows "heap_repr (expand_heap n s) (expand_segs n (sHeapEnd s) segs)"
    and "sHeapStart (expand_heap n s) = sHeapStart s"
    and "unat (sHeapEnd (expand_heap n s)) = unat (sHeapEnd s) + expansion n"
proof -
  define B where "B = (n div PAGE_SIZE + 1) * PAGE_SIZE"
  define e where "e = sHeapEnd s"
  define m :: u64 where "m = of_nat (expansion n - 32)"
  have B: "unat B = expansion n" unfolding B_def using room by (intro unat_expansion) simp
  have m: "unat m = expansion n - 32" unfolding m_def using room by (intro unat_of_nat_u64) simp
  have "HEADER_SIZE \<le> B" using B expansion_bounds(2) [of n] by (simp add: word_le_nat_alt)
  then have mB: "B - HEADER_SIZE = m" using B m unat_u64_minus by (simp add: word_unat_eq_iff)
  note E = heap_repr_end [OF rep, folded e_def]
  have ue: "unat (e + B) = unat e + expansion n" using room B by (simp add: e_def unat_u64_plus_small)
  obtain zs z k g where segs: "segs = zs @ [(z, k, g)]"
    using rep by (cases segs rule: segs_rev_cases) (auto simp: heap_repr_def)
  have Z: "hdr s z = \<lparr>seg_last = last_addr 0 zs, seg_next = 0, seg_length = k, seg_free = g\<rparr>" "z \<notin> seg_addrs zs"
    using heap_repr_at(1,3) [of s zs z k g "[]"] rep segs by simp_all
  have last: "sLastHeader s = z" using rep segs by (simp add: heap_repr_def)
  define vm1 where "vm1 = page_loop (\<lambda>i. expand_page (process_maps s) (e + i)) 0 B (vm s)"
  define s5 where "s5 = s\<lparr>vm := vm1, sHeapEnd := e + B, sLastHeader := e, hdr := (hdr s)
      (z := \<lparr>seg_last = last_addr 0 zs, seg_next = e, seg_length = k, seg_free = g\<rparr>,
       e := \<lparr>seg_last = z, seg_next = 0, seg_length = m, seg_free = True\<rparr>)\<rparr>"
  have ez: "e \<noteq> z" using E(1) segs by auto
  obtain p q l f where "hdr s e = \<lparr>seg_last = p, seg_next = q, seg_length = l, seg_free = f\<rparr>"
    by (cases "hdr s e") simp
  then have eq: "expand_heap n s = combine_backward e s5"
    using ez Z(1) last
    by (simp add: expand_heap_def Let_def s5_def vm1_def B_def [symmetric] e_def [symmetric] mB upd_hdr_def)
  have t: "tiles (unat (sHeapStart s)) segs (unat e)" using rep by (simp add: heap_repr_def e_def)
  have "16 dvd unat m" unfolding m using expansion_bounds(3) [of n] by (intro dvd_diff_nat) simp_all
  then have "tiles (unat e) [(e, m, True)] (unat (e + B))"
    using ue m expansion_bounds(2) [of n] by simp
  then have "tiles (unat (sHeapStart s)) (segs @ [(e, m, True)]) (unat (e + B))"
    using t unfolding tiles_append by blast
  then have s5: "heap_repr s5 (segs @ (e, m, True) # [])"
    using rep E Z ez by (simp add: heap_repr_def s5_def segs)
  show "heap_repr (expand_heap n s) (expand_segs n (sHeapEnd s) segs)"
    using combine_backward_repr [OF s5] by (simp add: eq expand_segs_def e_def m_def)
  show "sHeapStart (expand_heap n s) = sHeapStart s"
    and "unat (sHeapEnd (expand_heap n s)) = unat (sHeapEnd s) + expansion n"
    using combine_backward_repr [OF s5] ue by (simp_all add: eq same_extent_def s5_def e_def)
qed

lemma expand_segs_coalesced: "coalesced segs \<Longrightarrow> coalesced (expand_segs n e segs)"
  unfolding expand_segs_def by (rule merge_prev_coalesced) simp_all

lemma used_expand_segs [simp]: "used (expand_segs n e segs) = used segs"
  by (simp add: expand_segs_def used_merge_prev)

text \<open>After one expansion the last segment is free and nearly long enough, after two it is.\<close>

lemma expand_segs_last:
  assumes "unat k + expansion n < 18446744073709551616"
  shows "expand_segs n e (zs @ [(z, k, True)]) = zs @ [(z, k + of_nat (expansion n - 32) + HEADER_SIZE, True)]"
    and "unat (k + of_nat (expansion n - 32) + HEADER_SIZE) = unat k + expansion n"
proof -
  show "expand_segs n e (zs @ [(z, k, True)]) = zs @ [(z, k + of_nat (expansion n - 32) + HEADER_SIZE, True)]"
    by (simp add: expand_segs_def)
  have u: "unat (of_nat (expansion n - 32) :: u64) = expansion n - 32"
    using assms by (intro unat_of_nat_u64) simp
  have "unat (k + of_nat (expansion n - 32)) = unat k + (expansion n - 32)"
    using assms u by (subst unat_u64_plus_small) simp_all
  then show "unat (k + of_nat (expansion n - 32) + HEADER_SIZE) = unat k + expansion n"
    using assms expansion_bounds(2) [of n] by (subst unat_u64_plus_small) simp_all
qed

lemma expand_segs_ends_free:
  assumes rep: "heap_repr s segs" and room: "unat (sHeapEnd s) + expansion n < 18446744073709551616"
  shows "\<exists>zs z k. expand_segs n e segs = zs @ [(z, k, True)] \<and> expansion n - 32 \<le> unat k"
proof -
  obtain zs z k g where segs: "segs = zs @ [(z, k, g)]"
    using rep by (cases segs rule: segs_rev_cases) (auto simp: heap_repr_def)
  show ?thesis
  proof (cases g)
    case True
    have "unat k + expansion n < 18446744073709551616"
      using heap_repr_at(6) [of s zs z k g "[]"] rep segs room by simp
    note ex = expand_segs_last [OF this]
    then show ?thesis using segs True by auto
  next
    case False
    have "unat (of_nat (expansion n - 32) :: u64) = expansion n - 32"
      using room by (intro unat_of_nat_u64) simp
    then show ?thesis using segs False by (simp add: expand_segs_def)
  qed
qed

lemma alloc_segs_fits: "(a, l, True) \<in> set segs \<Longrightarrow> splittable l n \<Longrightarrow> alloc_segs n segs \<noteq> None"
  by (induction segs) auto

section \<open>Allocation\<close>

definition heap_inv :: "heap \<Rightarrow> segment list \<Rightarrow> bool" where
  "heap_inv s segs \<longleftrightarrow> heap_repr s segs \<and> coalesced segs"

lemma heap_repr_length:
  assumes "heap_repr s segs" "(a, l, f) \<in> set segs"
  shows "unat l + 32 \<le> unat (sHeapEnd s)" "a \<noteq> 0"
proof -
  obtain xs ys where "segs = xs @ (a, l, f) # ys" using assms(2) by (meson split_list)
  then show "unat l + 32 \<le> unat (sHeapEnd s)" "a \<noteq> 0"
    using heap_repr_at(2,6) [of s xs a l f ys] assms(1) by simp_all
qed

lemma malloc_found:
  assumes inv: "heap_inv s segs" and n: "n \<noteq> 0" "round_up n = n" "16 dvd unat n"
    and fit: "alloc_segs n segs = Some (p, segs')"
  shows "\<exists>s'. malloc n s = Some (p, s') \<and> heap_inv s' segs' \<and> same_extent s s'"
proof -
  have rep: "heap_repr s ([] @ segs)" "segs \<noteq> []" using inv by (simp_all add: heap_inv_def heap_repr_def)
  have st: "head_addr segs 0 = sHeapStart s"
    using rep by (cases segs rule: segs_cases) (auto simp: heap_repr_def word_unat_eq_iff)
  obtain s' where s': "malloc_search n (sHeapStart s) s = Some (Some (p, s'))" "heap_repr s' segs'" "same_extent s s'"
    using malloc_search_repr [OF rep n(3)] fit st by auto
  have "malloc n s = Some (p, s')"
    using n s'(1) by (subst malloc.simps) simp
  then show ?thesis
    using s' alloc_segs_coalesced [OF fit] inv by (auto simp: heap_inv_def)
qed

lemma malloc_not_found:
  assumes inv: "heap_inv s segs" and n: "n \<noteq> 0" "round_up n = n" "16 dvd unat n"
    and fit: "alloc_segs n segs = None"
  shows "malloc n s = malloc n (expand_heap n s)"
proof -
  have rep: "heap_repr s ([] @ segs)" "segs \<noteq> []" using inv by (simp_all add: heap_inv_def heap_repr_def)
  have st: "head_addr segs 0 = sHeapStart s"
    using rep by (cases segs rule: segs_cases) (auto simp: heap_repr_def word_unat_eq_iff)
  have "malloc_search n (sHeapStart s) s = Some None"
    using malloc_search_repr [OF rep n(3)] fit st by auto
  then show ?thesis using n by (subst malloc.simps) simp
qed

lemma expand_heap_inv:
  assumes "heap_inv s segs" "unat (sHeapEnd s) + expansion n < 18446744073709551616"
  shows "heap_inv (expand_heap n s) (expand_segs n (sHeapEnd s) segs)"
  using assms expand_heap_repr(1) expand_segs_coalesced by (simp add: heap_inv_def)

text \<open>
  With room for two expansions the search succeeds after at most two. The block returned is a
  segment of exactly the rounded length; every used segment stays where it is.
\<close>

lemma malloc_aligned_spec:
  assumes inv: "heap_inv s segs" and n: "n \<noteq> 0" "round_up n = n" "16 dvd unat n"
    and room: "unat (sHeapEnd s) + 2 * expansion n < 18446744073709551616"
  shows "\<exists>a s' segs'. malloc n s = Some (a + HEADER_SIZE, s') \<and> heap_inv s' segs' \<and>
    used segs' = insert (a, n) (used segs) \<and> (\<forall>l. (a, l) \<notin> used segs) \<and>
    sHeapStart s' = sHeapStart s \<and> unat (sHeapEnd s') \<le> unat (sHeapEnd s) + 2 * expansion n"
proof -
  have found: "\<exists>a s' segs'. malloc n t = Some (a + HEADER_SIZE, s') \<and> heap_inv s' segs' \<and>
      used segs' = insert (a, n) (used xs) \<and> (\<forall>l. (a, l) \<notin> used xs) \<and> sHeapStart s' = sHeapStart t \<and>
      sHeapEnd s' = sHeapEnd t"
    if t: "heap_inv t xs" "alloc_segs n xs \<noteq> None" for t xs
  proof -
    obtain p ys where fit: "alloc_segs n xs = Some (p, ys)" using t(2) by auto
    obtain a l where a: "p = a + HEADER_SIZE" "(a, l, True) \<in> set xs" "used ys = insert (a, n) (used xs)"
      using alloc_segs_used [OF fit] by blast
    have "distinct (map fst xs)"
      using t(1) tiles_distinct by (auto simp: heap_inv_def heap_repr_def)
    then have "(a, k) \<notin> used xs" for k
      using a(2) by (auto simp: used_def dest: eq_key_imp_eq_value)
    moreover obtain s' where "malloc n t = Some (p, s')" "heap_inv s' ys" "same_extent t s'"
      using malloc_found [OF t(1) n fit] by blast
    ultimately show ?thesis using a by (auto simp: same_extent_def)
  qed
  define E where "E = expansion n"
  note bounds = expansion_bounds [of n, folded E_def]
  have n16: "16 \<le> unat n" using n(1,3) by (auto dest!: dvd_imp_le simp: word_unat_eq_iff)
  define s1 segs1 where "s1 = expand_heap n s" and "segs1 = expand_segs n (sHeapEnd s) segs"
  define s2 segs2 where "s2 = expand_heap n s1" and "segs2 = expand_segs n (sHeapEnd s1) segs1"
  have r1: "unat (sHeapEnd s) + expansion n < 18446744073709551616" using room by simp
  have rep: "heap_repr s segs" using inv by (simp add: heap_inv_def)
  note e1 = expand_heap_repr [OF rep r1, folded s1_def segs1_def]
  have inv1: "heap_inv s1 segs1" unfolding s1_def segs1_def by (rule expand_heap_inv [OF inv r1])
  have r2: "unat (sHeapEnd s1) + expansion n < 18446744073709551616" using room e1(3) by simp
  note e2 = expand_heap_repr [OF e1(1) r2, folded s2_def segs2_def]
  have inv2: "heap_inv s2 segs2" unfolding s2_def segs2_def by (rule expand_heap_inv [OF inv1 r2])
  have "\<exists>zs z k. segs1 = zs @ [(z, k, True)] \<and> E - 32 \<le> unat k"
    unfolding segs1_def E_def by (rule expand_segs_ends_free [OF rep r1])
  then obtain zs z k where last: "segs1 = zs @ [(z, k, True)]" "E - 32 \<le> unat k" by blast
  have "unat k + 32 \<le> unat (sHeapEnd s1)" using heap_repr_length [OF e1(1), of z k True] last by simp
  then have "unat k + expansion n < 18446744073709551616" using r2 by simp
  note ex = expand_segs_last [OF this]
  have "splittable (k + of_nat (expansion n - 32) + HEADER_SIZE) n"
    unfolding splittable_def ex(2) using n16 last(2) bounds(1,2) by (simp add: E_def)
  then have fit2: "alloc_segs n segs2 \<noteq> None"
    unfolding segs2_def last(1) ex(1) by (intro alloc_segs_fits) auto
  have used: "used segs1 = used segs" "used segs2 = used segs" by (simp_all add: segs1_def segs2_def)
  show ?thesis
  proof (cases "alloc_segs n segs = None")
    case False
    from found [OF inv this] show ?thesis by auto
  next
    case none: True
    then have m1: "malloc n s = malloc n s1" unfolding s1_def by (rule malloc_not_found [OF inv n])
    show ?thesis
    proof (cases "alloc_segs n segs1 = None")
      case False
      from found [OF inv1 this] show ?thesis using m1 used e1(2,3) by auto
    next
      case True
      then have "malloc n s1 = malloc n s2" unfolding s2_def by (rule malloc_not_found [OF inv1 n])
      with found [OF inv2 fit2] show ?thesis using m1 used e1(2,3) e2(2,3) by auto
    qed
  qed
qed

lemma round_up_spec:
  assumes "unat n + 15 < 18446744073709551616"
  shows "unat n \<le> unat (round_up n)" "16 dvd unat (round_up n)" "unat (round_up n) < unat n + 16"
    "n \<noteq> 0 \<Longrightarrow> round_up n \<noteq> 0"
proof -
  define r where "r = unat n mod 16"
  have r: "r < 16" "r \<le> unat n" "16 dvd unat n - r" by (simp_all add: r_def minus_mod_eq_mult_div)
  have um: "unat (n mod HEAP_BYTE_ALIGN) = r" by (simp add: unat_mod r_def)
  have eq: "unat (round_up n) = (if 0 < r then unat n - r + 16 else unat n)"
  proof (cases "0 < r")
    case True
    have le: "n mod HEAP_BYTE_ALIGN \<le> n" using um r(2) by (simp add: word_le_nat_alt)
    have "unat (n - n mod HEAP_BYTE_ALIGN) = unat n - r" using unat_u64_minus [OF le] um by simp
    then have "unat (n - n mod HEAP_BYTE_ALIGN + HEAP_BYTE_ALIGN) = unat n - r + 16"
      using assms True r by (subst unat_u64_plus_small) simp_all
    then show ?thesis using True um by (simp add: round_up_def word_less_nat_alt)
  next
    case False
    then show ?thesis using um by (simp add: round_up_def word_less_nat_alt)
  qed
  show "unat n \<le> unat (round_up n)" "unat (round_up n) < unat n + 16" using r(1,2) by (auto simp: eq)
  then show "n \<noteq> 0 \<Longrightarrow> round_up n \<noteq> 0" by (auto simp: word_unat_eq_iff)
  show "16 dvd unat (round_up n)"
  proof (cases "0 < r")
    case True
    then show ?thesis using r(3) by (simp add: eq)
  next
    case False
    then show ?thesis using r(3) by (simp add: eq)
  qed
qed

lemma round_up_aligned: "16 dvd unat n \<Longrightarrow> round_up n = n"
proof -
  assume "16 dvd unat n"
  then have "unat (n mod HEAP_BYTE_ALIGN) = 0" by (simp add: unat_mod)
  then show ?thesis by (simp add: round_up_def word_less_nat_alt)
qed

lemma malloc_round_up:
  assumes "n \<noteq> 0" "unat n + 15 < 18446744073709551616"
  shows "malloc n s = malloc (round_up n) s"
proof -
  note r = round_up_spec [OF assms(2)]
  have eq: "round_up (round_up n) = round_up n" by (rule round_up_aligned [OF r(2)])
  show ?thesis
    unfolding malloc.simps [of n s] malloc.simps [of "round_up n" s] eq using r(4) assms(1) by simp
qed

lemma heap_base_mask:
  assumes "HEAP_VIRTUAL_BASE \<le> x" shows "x AND HEAP_VIRTUAL_BASE = HEAP_VIRTUAL_BASE"
proof -
  have "unat x div 16777216 = 1099511627775"
  proof (rule div_nat_eqI)
    show "16777216 * 1099511627775 \<le> unat x"
      using assms by (simp add: HEAP_VIRTUAL_BASE_def word_le_nat_alt)
    show "unat x < 16777216 * Suc 1099511627775" using unat_less_2_64 [of x] by simp
  qed
  then have "unat (x div 16777216) = 1099511627775" by (simp add: unat_div)
  then have hi: "drop_bit 24 x = 0xffffffffff" by (simp add: drop_bit_eq_div word_unat_eq_iff)
  have "x AND NOT (mask 24) = push_bit 24 (drop_bit 24 x)"
    by (rule bit_word_eqI, unfold bit_and_iff bit_not_iff bit_mask_iff bit_push_bit_iff bit_drop_bit_eq) auto
  moreover have "NOT (mask 24) = HEAP_VIRTUAL_BASE"
    by (simp add: HEAP_VIRTUAL_BASE_def mask_eq_exp_minus_1)
  moreover have "push_bit 24 0xffffffffff = HEAP_VIRTUAL_BASE"
    by (simp add: HEAP_VIRTUAL_BASE_def push_bit_eq_mult)
  ultimately show ?thesis by (simp only: hi)
qed

section \<open>Properties\<close>

text \<open>A well-formed heap, with its first segment at the fixed base of the kernel heap.\<close>

definition heap_ok :: "heap \<Rightarrow> segment list \<Rightarrow> bool" where
  "heap_ok s segs \<longleftrightarrow> heap_inv s segs \<and> sHeapStart s = HEAP_VIRTUAL_BASE"

lemma heap_ok_payload_disjoint:
  assumes "heap_inv s segs" "(a, l) \<in> used segs" "(b, m) \<in> used segs" "a \<noteq> b"
  shows "payload a l \<inter> payload b m = {}"
proof (rule payload_disjoint)
  show "tiles (unat (sHeapStart s)) segs (unat (sHeapEnd s))"
    using assms(1) by (simp add: heap_inv_def heap_repr_def)
  show "(a, l, False) \<in> set segs" "(b, m, False) \<in> set segs" using assms(2,3) by (simp_all add: used_def)
qed (rule assms(4))

lemma heap_inv_aligned:
  assumes "heap_inv s segs" "(a, l, f) \<in> set segs"
  shows "16 dvd unat a" "unat a + 32 + unat l \<le> unat (sHeapEnd s)" "unat (sHeapStart s) \<le> unat a" "a \<noteq> 0"
    "unat (a + HEADER_SIZE) = unat a + 32"
proof -
  obtain xs ys where segs: "segs = xs @ (a, l, f) # ys" using assms(2) by (meson split_list)
  have rep: "heap_repr s (xs @ (a, l, f) # ys)" using assms(1) segs by (simp add: heap_inv_def)
  then have t: "tiles (unat (sHeapStart s)) xs (unat a)" "16 dvd unat (sHeapStart s)"
    by (auto simp: heap_repr_def tiles_append)
  show "16 dvd unat a" by (rule tiles_aligned [OF t])
  show "unat (sHeapStart s) \<le> unat a" by (rule tiles_le [OF t(1)])
  show le: "unat a + 32 + unat l \<le> unat (sHeapEnd s)" and "a \<noteq> 0" using heap_repr_at(2,6) [OF rep] by simp_all
  have "unat a + 32 < 18446744073709551616" using le unat_less_2_64 [of "sHeapEnd s"] by linarith
  then show "unat (a + HEADER_SIZE) = unat a + 32" by (simp add: unat_u64_plus_small)
qed

lemma malloc_spec:
  assumes ok: "heap_ok s segs" and n: "n \<noteq> 0" "unat n + 15 < 18446744073709551616"
    and room: "unat (sHeapEnd s) + 2 * expansion (round_up n) < 18446744073709551616"
  shows "\<exists>a s' segs'. malloc n s = Some (a + HEADER_SIZE, s') \<and> heap_ok s' segs' \<and>
    used segs' = insert (a, round_up n) (used segs) \<and> (\<forall>l. (a, l) \<notin> used segs) \<and>
    16 dvd unat (a + HEADER_SIZE) \<and> HEAP_VIRTUAL_BASE \<le> a + HEADER_SIZE \<and>
    unat (a + HEADER_SIZE) = unat a + 32 \<and> unat (a + HEADER_SIZE) + unat (round_up n) \<le> unat (sHeapEnd s')"
proof -
  note r = round_up_spec [OF n(2)]
  have inv: "heap_inv s segs" using ok by (simp add: heap_ok_def)
  obtain a s' segs' where m: "malloc (round_up n) s = Some (a + HEADER_SIZE, s')" "heap_inv s' segs'"
    "used segs' = insert (a, round_up n) (used segs)" "\<forall>l. (a, l) \<notin> used segs" "sHeapStart s' = sHeapStart s"
    using malloc_aligned_spec [OF inv r(4) [OF n(1)] round_up_aligned [OF r(2)] r(2) room] by blast
  have "(a, round_up n, False) \<in> set segs'" using m(3) by (auto simp: used_def)
  note A = heap_inv_aligned [OF m(2) this]
  note u = A(5)
  moreover have "16 dvd unat (a + HEADER_SIZE)" using u A(1) by simp
  moreover have "HEAP_VIRTUAL_BASE \<le> a + HEADER_SIZE"
    using A(3) u ok m(5) by (simp add: heap_ok_def word_le_nat_alt)
  moreover have "heap_ok s' segs'" using m(2,5) ok by (simp add: heap_ok_def)
  ultimately show ?thesis
    using m(1,3,4) malloc_round_up [OF n] A(2) by auto
qed

lemma free_spec:
  assumes ok: "heap_ok s segs" and a: "(a, l) \<in> used segs"
  shows "\<exists>segs'. heap_ok (free_heap (a + HEADER_SIZE) s) segs' \<and> used segs' = used segs - {(a, l)} \<and>
    same_extent s (free_heap (a + HEADER_SIZE) s)"
proof -
  have inv: "heap_inv s segs" using ok by (simp add: heap_ok_def)
  obtain xs ys where segs: "segs = xs @ (a, l, False) # ys" using a by (auto simp: used_def dest: split_list)
  have mem: "(a, l, False) \<in> set segs" using segs by simp
  note A = heap_inv_aligned [OF inv mem]
  have base: "(a + HEADER_SIZE) AND HEAP_VIRTUAL_BASE = HEAP_VIRTUAL_BASE"
    using A(3,5) ok by (intro heap_base_mask) (simp add: heap_ok_def word_le_nat_alt)
  have rep: "heap_repr s (xs @ (a, l, False) # ys)" using inv segs by (simp add: heap_inv_def)
  note f = free_heap_repr [OF rep base]
  have "a \<notin> seg_addrs xs" "a \<notin> seg_addrs ys" using heap_repr_at(3,4) [OF rep] by simp_all
  then have "used xs \<union> used ys = used segs - {(a, l)}"
    by (force simp: segs used_def seg_addrs_def)
  then have "heap_ok (free_heap (a + HEADER_SIZE) s) (free_segs xs a l ys) \<and>
      used (free_segs xs a l ys) = used segs - {(a, l)}"
    using f ok free_segs_coalesced [of xs a l False ys] inv segs
    by (simp add: heap_ok_def heap_inv_def used_free_segs same_extent_def)
  then show ?thesis using f by blast
qed

lemma init_heap_ok: "heap_ok (init_heap s) [(HEAP_VIRTUAL_BASE, 4064, True)]"
  by (simp add: heap_ok_def heap_inv_def heap_repr_def init_heap_def Let_def HEAP_VIRTUAL_BASE_def
      HEAP_INITIAL_PAGES_def PAGE_SIZE_def HEADER_SIZE_def)


definition example_heap :: heap where
  "example_heap = init_heap \<lparr>vm = example_vm, process_maps = [], hdr = (\<lambda>_. \<lparr>seg_last = 0, seg_next = 0, seg_length = 0, seg_free = False\<rparr>),
     payload_words = (\<lambda>_. 0), sHeapStart = 0, sHeapEnd = 0, sLastHeader = 0\<rparr>"

lemma example_heap_ok: "heap_ok example_heap [(HEAP_VIRTUAL_BASE, 4064, True)]"
  unfolding example_heap_def by (rule init_heap_ok)

lemma example_heap_end: "unat (sHeapEnd example_heap) = 18446744073692778496"
  by (simp add: example_heap_def init_heap_def Let_def HEAP_VIRTUAL_BASE_def HEAP_INITIAL_PAGES_def PAGE_SIZE_def)


text \<open>
  C20: freeing a block in use marks exactly that block free, leaves all other blocks in use where
  they are, and merges it with its free neighbours, so that no two neighbouring segments are
  both free.
\<close>

theorem free_releases_block:
  assumes "heap_ok s segs" and "(a, l) \<in> used segs"
  shows "\<exists>segs'. heap_ok (free_heap (a + HEADER_SIZE) s) segs' \<and> used segs' = used segs - {(a, l)}
    \<and> coalesced segs'"
  using free_spec [OF assms] by (auto simp: heap_ok_def heap_inv_def)

theorem free_releases_block_witness:
  "\<exists>p s' segs'. malloc 100 example_heap = Some (p, s') \<and> heap_ok (free_heap p s') segs' \<and> used segs' = {}"
proof -
  have r: "unat (round_up 100) < 116" using round_up_spec(3) [of 100] by simp
  then have "expansion (round_up 100) \<le> 4096" by (simp add: expansion_def)
  then have room: "unat (sHeapEnd example_heap) + 2 * expansion (round_up 100) < 18446744073709551616"
    by (simp add: example_heap_end)
  obtain a s' segs' where m: "malloc 100 example_heap = Some (a + HEADER_SIZE, s')" "heap_ok s' segs'"
    "used segs' = {(a, round_up 100)}"
    using malloc_spec [OF example_heap_ok _ _ room] by auto
  then have "(a, round_up 100) \<in> used segs'" by simp
  from free_releases_block [OF m(2) this] show ?thesis using m by auto
qed

text \<open>Runs of the allocator: allocations with room to grow, and frees of blocks in use.\<close>

inductive heap_step :: "heap \<Rightarrow> heap \<Rightarrow> bool" where
  allocate: "\<lbrakk>n \<noteq> 0; unat n + 15 < 18446744073709551616;
     unat (sHeapEnd s) + 2 * expansion (round_up n) < 18446744073709551616;
     malloc n s = Some (p, s')\<rbrakk> \<Longrightarrow> heap_step s s'"
| release: "\<lbrakk>heap_ok s segs; (a, l) \<in> used segs\<rbrakk> \<Longrightarrow> heap_step s (free_heap (a + HEADER_SIZE) s)"

lemma heap_step_ok:
  assumes "heap_step s t" and ok: "heap_ok s segs"
  shows "\<exists>segs'. heap_ok t segs'"
  using assms(1)
proof cases
  case (allocate n p)
  then show ?thesis using malloc_spec [OF ok allocate(1-3)] by auto
next
  case (release segs' a l)
  then show ?thesis using free_spec [OF release(2,3)] by auto
qed

lemma heap_steps_ok:
  assumes "heap_step\<^sup>*\<^sup>* s t" "heap_ok s segs" shows "\<exists>segs'. heap_ok t segs'"
  using assms by (induction rule: rtranclp_induct) (auto dest: heap_step_ok)



subsection \<open>Aligned blocks\<close>

lemma heap_ok_payload_words [simp]: "heap_ok (s\<lparr>payload_words := w\<rparr>) segs = heap_ok s segs"
  by (simp add: heap_ok_def heap_inv_def heap_repr_def)

lemma align_up_nat:
  fixes x al :: nat
  assumes "0 < al"
  shows "(x + (al - x mod al) mod al) mod al = 0"
proof -
  have "(x + (al - x mod al) mod al) mod al = (x mod al + (al - x mod al)) mod al"
    by (simp add: mod_simps)
  also have "x mod al + (al - x mod al) = al" using assms by simp
  finally show ?thesis by simp
qed

lemma unat_align_up:
  fixes x align :: u64
  assumes "0 < unat align" "unat x + unat align < 18446744073709551616"
  defines "d \<equiv> (unat align - unat x mod unat align) mod unat align"
  shows "unat (x + (align - x mod align) mod align) = unat x + d" and "d < unat align"
proof -
  have "x mod align \<le> align" using assms(1) by (simp add: word_le_nat_alt unat_mod less_imp_le)
  then have "unat ((align - x mod align) mod align) = d"
    by (simp add: unat_mod unat_u64_minus d_def)
  moreover show "d < unat align" using assms(1) by (simp add: d_def)
  ultimately show "unat (x + (align - x mod align) mod align) = unat x + d"
    using assms(2) by (simp add: unat_u64_plus_small)
qed

text \<open>
  C21: \<open>aligned_new\<close> with an alignment above the heap's own returns an address that is a multiple
  of the alignment, with the size asked for inside one fresh block of the heap and room for the
  word in front of it; \<open>aligned_delete\<close> of that address finds the block through that word and
  leaves the same blocks in use as before.
\<close>

theorem aligned_new_delete_roundtrip:
  assumes ok: "heap_ok s segs" and al: "16 < align"
    and small: "unat sz + unat align + 23 < 18446744073709551616"
    and room: "unat (sHeapEnd s) + 2 * expansion (round_up (sz + align + 8)) < 18446744073709551616"
  shows "\<exists>q s' a l segs' segs''. aligned_new sz align s = Some (q, s') \<and> unat q mod unat align = 0
    \<and> heap_ok s' segs' \<and> used segs' = insert (a, l) (used segs)
    \<and> {unat q - 8 ..< unat q + unat sz} \<subseteq> payload a l
    \<and> heap_ok (aligned_delete q align s') segs'' \<and> used segs'' = used segs"
proof -
  define n where "n = sz + align + 8"
  have un: "unat n = unat sz + unat align + 8" using small by (simp add: n_def unat_u64_plus_small)
  have ual: "16 < unat align" using al by (simp add: word_less_nat_alt)
  have n: "n \<noteq> 0" "unat n + 15 < 18446744073709551616" using un small by (auto simp: word_unat_eq_iff)
  obtain a s1 segs1 where m: "malloc n s = Some (a + HEADER_SIZE, s1)" "heap_ok s1 segs1"
    "used segs1 = insert (a, round_up n) (used segs)" "\<forall>l. (a, l) \<notin> used segs"
    "HEAP_VIRTUAL_BASE \<le> a + HEADER_SIZE" "unat (a + HEADER_SIZE) = unat a + 32"
    "unat (a + HEADER_SIZE) + unat (round_up n) \<le> unat (sHeapEnd s1)"
    using malloc_spec [OF ok n room [folded n_def]] by blast
  define p where "p = a + HEADER_SIZE"
  have fits: "unat p + (unat sz + unat align + 8) < 18446744073709551616"
    using m(7) round_up_spec(1) [OF n(2)] un unat_less_2_64 [of "sHeapEnd s1"] unfolding p_def by linarith
  have p8: "unat (p + 8) = unat p + 8" using fits by (simp add: unat_u64_plus_small)
  define d where "d = (unat align - unat (p + 8) mod unat align) mod unat align"
  define q where "q = (p + 8) + (align - (p + 8) mod align) mod align"
  have q: "unat q = unat p + 8 + d" and d: "d < unat align"
    using unat_align_up [of align "p + 8"] ual fits p8 by (simp_all add: q_def d_def)
  have "unat q mod unat align = 0"
    using align_up_nat [of "unat align" "unat (p + 8)"] ual by (simp add: q p8 d_def)
  moreover define s' where "s' = s1\<lparr>payload_words := (payload_words s1)(q - 8 := p)\<rparr>"
  moreover have big: "\<not> align \<le> HEAP_BYTE_ALIGN" using al by (simp add: HEAP_BYTE_ALIGN_def not_le)
  moreover have "aligned_new sz align s = Some (q, s')"
    using m(1) big by (simp add: aligned_new_def n_def [symmetric] p_def [symmetric] q_def s'_def Let_def)
  moreover have "{unat q - 8 ..< unat q + unat sz} \<subseteq> payload a (round_up n)"
    using q d round_up_spec(1) [OF n(2)] un m(6) by (auto simp: payload_def p_def)
  moreover have "aligned_delete q align s' = free_heap p s'"
  proof -
    have "HEAP_VIRTUAL_BASE \<le> q" using m(5) q by (simp add: p_def word_le_nat_alt)
    then show ?thesis using big heap_base_mask by (simp add: aligned_delete_def s'_def)
  qed
  moreover have ok': "heap_ok s' segs1" using m(2) by (simp add: s'_def)
  moreover obtain segs'' where "heap_ok (free_heap p s') segs''" "used segs'' = used segs1 - {(a, round_up n)}"
    using free_spec [OF ok', of a "round_up n"] m(3) by (auto simp: p_def)
  moreover have "used segs1 - {(a, round_up n)} = used segs" using m(3,4) by auto
  ultimately show ?thesis using m(3) by (metis (no_types, lifting))
qed

theorem aligned_new_delete_roundtrip_witness:
  "\<exists>q s'. aligned_new 100 64 example_heap = Some (q, s') \<and> unat q mod 64 = 0"
proof -
  have "unat (round_up 172) < 188" using round_up_spec(3) [of 172] by simp
  then have "expansion (round_up 172) \<le> 4096" by (simp add: expansion_def)
  then have room: "unat (sHeapEnd example_heap) + 2 * expansion (round_up (100 + 64 + 8)) < 18446744073709551616"
    by (simp add: example_heap_end)
  from aligned_new_delete_roundtrip [OF example_heap_ok _ _ room] show ?thesis by auto
qed

end
