(* ===== verification/LinkedList.thy ===== *)
theory LinkedList
  imports LensorPrelude
begin

text \<open>
  The singly linked list of \<open>kernel/src/linked_list.h\<close>, which holds the scheduler's
  process queue and the memory regions of a process.  Nodes live in an explicit store from
  addresses to nodes, so that an address that was deleted is told apart from one that is
  live.  An operation returns \<open>None\<close> where the code has no defined result: it follows a null
  or a deleted pointer, or terminates because no node could be allocated.  The address that
  \<open>new\<close> returned is an argument of the operations that allocate.

  \<open>sll_repr\<close> says that the store holds a given list; the lemmas show what each operation
  does to that list.
\<close>

section \<open>The list and its operations\<close>

record 'a SinglyLinkedListNode =
  node_Data :: 'a
  node_Next :: u64

record 'a SinglyLinkedList =
  sll_nodes :: "u64 \<Rightarrow> 'a SinglyLinkedListNode option"
  sll_Length :: u64
  sll_Head :: u64
  sll_Tail :: u64

definition sll_empty :: "'a SinglyLinkedList" where
  "sll_empty = \<lparr>sll_nodes = \<lambda>_. None, sll_Length = 0, sll_Head = 0, sll_Tail = 0\<rparr>"

definition sll_next :: "'a SinglyLinkedList \<Rightarrow> u64 \<Rightarrow> u64 option" where
  "sll_next l p = map_option node_Next (sll_nodes l p)"

definition sll_value :: "'a SinglyLinkedList \<Rightarrow> u64 \<Rightarrow> 'a option" where
  "sll_value l p = map_option node_Data (sll_nodes l p)"

text \<open>The iterator stays where it is once it is past the end.\<close>

definition sll_iterator_inc :: "'a SinglyLinkedList \<Rightarrow> u64 \<Rightarrow> u64 option" where
  "sll_iterator_inc l p = (if p \<noteq> 0 then sll_next l p else Some p)"

definition sll_front :: "'a SinglyLinkedList \<Rightarrow> 'a option" where
  "sll_front l = (if sll_Head l \<noteq> 0 then sll_value l (sll_Head l) else None)"

definition sll_back :: "'a SinglyLinkedList \<Rightarrow> 'a option" where
  "sll_back l = (if sll_Head l \<noteq> 0 then sll_value l (sll_Head l) else None)"

partial_function (option) sll_destroy :: "'a SinglyLinkedList \<Rightarrow> 'a SinglyLinkedList option" where
  "sll_destroy l =
     (if sll_Head l = 0 then Some l
      else case sll_nodes l (sll_Head l) of
        None \<Rightarrow> None
      | Some nd \<Rightarrow>
          sll_destroy (l\<lparr>sll_Head := node_Next nd,
                         sll_nodes := (sll_nodes l)(sll_Head l := None)\<rparr>))"

definition sll_add :: "u64 \<Rightarrow> 'a \<Rightarrow> 'a SinglyLinkedList \<Rightarrow> 'a SinglyLinkedList option" where
  "sll_add newHead value l =
     (if newHead = 0 then None
      else
        let l1 = l\<lparr>sll_nodes := (sll_nodes l)(newHead \<mapsto>
                      \<lparr>node_Data = value, node_Next = sll_Head l\<rparr>),
                   sll_Head := newHead\<rparr>;
            l2 = (if sll_Tail l1 = 0 then l1\<lparr>sll_Tail := sll_Head l1\<rparr> else l1)
        in Some (l2\<lparr>sll_Length := sll_Length l2 + 1\<rparr>))"

definition sll_add_end :: "u64 \<Rightarrow> 'a \<Rightarrow> 'a SinglyLinkedList \<Rightarrow> 'a SinglyLinkedList option" where
  "sll_add_end newTail value l =
     (if sll_Head l = 0 then sll_add newTail value l
      else if newTail = 0 then None
      else
        let l1 = l\<lparr>sll_nodes := (sll_nodes l)(newTail \<mapsto>
                      \<lparr>node_Data = value, node_Next = 0\<rparr>)\<rparr>;
            t = (if sll_Tail l1 = 0 then sll_Head l1 else sll_Tail l1)
        in case sll_nodes l1 t of
             None \<Rightarrow> None
           | Some nd \<Rightarrow>
               Some (l1\<lparr>sll_nodes := (sll_nodes l1)(t \<mapsto> nd\<lparr>node_Next := newTail\<rparr>),
                        sll_Tail := newTail,
                        sll_Length := sll_Length l1 + 1\<rparr>))"

function sll_at_loop :: "'a SinglyLinkedList \<Rightarrow> u64 \<Rightarrow> u64 \<Rightarrow> u64 \<Rightarrow> u64 option" where
  "sll_at_loop l it out index =
     (if it \<noteq> 0 \<and> index \<noteq> 0
      then case sll_next l it of
             None \<Rightarrow> None
           | Some nxt \<Rightarrow> sll_at_loop l nxt it (index - 1)
      else Some out)"
  by pat_completeness auto
termination
  by (relation "measure (\<lambda>(_, _, _, index). unat index)") (auto simp: unat_minus_one unat_gt_0)

definition sll_at :: "'a SinglyLinkedList \<Rightarrow> u64 \<Rightarrow> 'a option" where
  "sll_at l index =
     (case sll_at_loop l (sll_Head l) 0 (index + 1) of
        None \<Rightarrow> None
      | Some out \<Rightarrow> if out = 0 then None else sll_value l out)"

text \<open>The callback sees each node in turn; it may update a state of its own.\<close>

partial_function (option) sll_for_each_from ::
    "('a \<Rightarrow> 's \<Rightarrow> 's) \<Rightarrow> 'a SinglyLinkedList \<Rightarrow> u64 \<Rightarrow> 's \<Rightarrow> 's option" where
  "sll_for_each_from onEachNode l it s =
     (if it = 0 then Some s
      else case sll_nodes l it of
        None \<Rightarrow> None
      | Some nd \<Rightarrow>
          sll_for_each_from onEachNode l (node_Next nd) (onEachNode (node_Data nd) s))"

definition sll_for_each :: "('a \<Rightarrow> 's \<Rightarrow> 's) \<Rightarrow> 'a SinglyLinkedList \<Rightarrow> 's \<Rightarrow> 's option" where
  "sll_for_each onEachNode l s = sll_for_each_from onEachNode l (sll_Head l) s"

function sll_remove_loop ::
    "'a SinglyLinkedList \<Rightarrow> u64 \<Rightarrow> u64 \<Rightarrow> u64 \<Rightarrow> u64 \<Rightarrow> u64 \<Rightarrow> (u64 \<times> u64 \<times> u64) option" where
  "sll_remove_loop l prev current nxt i index =
     (if current = 0 then Some (prev, current, nxt)
      else case sll_next l current of
        None \<Rightarrow> None
      | Some current' \<Rightarrow>
          (case (if current' \<noteq> 0 then sll_next l current' else Some nxt) of
             None \<Rightarrow> None
           | Some nxt' \<Rightarrow>
               if index \<le> i then Some (prev, current', nxt')
               else sll_remove_loop l current' current' nxt' (i + 1) index))"
  by pat_completeness auto
termination
proof (relation "measure (\<lambda>(_, _, _, _, i, index). unat index - unat i)", goal_cases)
  case 1
  then show ?case by simp
next
  case (2 l prev current nxt i index current' nxt')
  then have lt: "i < index" by simp
  then have "unat i < unat index" by (simp add: word_less_nat_alt)
  then show ?case using unat_u64_Suc [OF lt] by simp
qed

definition sll_remove :: "'a SinglyLinkedList \<Rightarrow> u64 \<Rightarrow> (bool \<times> 'a SinglyLinkedList) option" where
  "sll_remove l index =
     (if sll_Length l \<le> index then Some (False, l)
      else if index = 0 then
        (if sll_Head l \<noteq> 0 then
           case sll_nodes l (sll_Head l) of
             None \<Rightarrow> None
           | Some old \<Rightarrow>
               Some (True, l\<lparr>sll_Head := node_Next old,
                             sll_Length := sll_Length l - 1,
                             sll_nodes := (sll_nodes l)(sll_Head l := None)\<rparr>)
         else Some (True, l\<lparr>sll_Tail := 0\<rparr>))
      else case sll_next l (sll_Head l) of
        None \<Rightarrow> None
      | Some nxt \<Rightarrow>
          (case sll_remove_loop l (sll_Head l) (sll_Head l) nxt 1 index of
             None \<Rightarrow> None
           | Some (prev, current, nxt') \<Rightarrow>
               let l1 = (if nxt' = 0 then l\<lparr>sll_Tail := prev\<rparr> else l) in
               (case sll_nodes l1 prev of
                  None \<Rightarrow> None
                | Some pd \<Rightarrow>
                    Some (True, l1\<lparr>sll_Length := sll_Length l1 - 1,
                                   sll_nodes := ((sll_nodes l1)(prev \<mapsto> pd\<lparr>node_Next := nxt'\<rparr>))
                                                  (current := None)\<rparr>))))"

section \<open>The list a store holds\<close>

text \<open>\<open>sll_path m p as q\<close>: following \<open>Next\<close> from \<open>p\<close> visits the nodes \<open>as\<close> and ends at \<open>q\<close>.\<close>

fun sll_path :: "(u64 \<Rightarrow> 'a SinglyLinkedListNode option) \<Rightarrow> u64 \<Rightarrow> u64 list \<Rightarrow> u64 \<Rightarrow> bool" where
  "sll_path m p [] q \<longleftrightarrow> p = q"
| "sll_path m p (a # as) q \<longleftrightarrow>
     p = a \<and> a \<noteq> 0 \<and> (case m a of None \<Rightarrow> False | Some nd \<Rightarrow> sll_path m (node_Next nd) as q)"

definition sll_repr :: "'a SinglyLinkedList \<Rightarrow> u64 list \<Rightarrow> 'a list \<Rightarrow> bool" where
  "sll_repr l as xs \<longleftrightarrow>
     distinct as \<and> sll_path (sll_nodes l) (sll_Head l) as 0 \<and>
     map (\<lambda>a. sll_value l a) as = map Some xs \<and>
     length as < 2 ^ 64 \<and> sll_Length l = of_nat (length as)"

text \<open>The tail pointer is the last node, and null for the empty list.\<close>

definition sll_tail_ok :: "'a SinglyLinkedList \<Rightarrow> u64 list \<Rightarrow> bool" where
  "sll_tail_ok l as \<longleftrightarrow> sll_Tail l = (if as = [] then 0 else last as)"

lemma sll_path_append:
  "sll_path m p (as @ bs) q \<longleftrightarrow> (\<exists>r. sll_path m p as r \<and> sll_path m r bs q)"
  by (induction as arbitrary: p) (auto split: option.splits)

lemma sll_path_cong:
  "(\<And>a. a \<in> set as \<Longrightarrow> m a = m' a) \<Longrightarrow> sll_path m p as q \<longleftrightarrow> sll_path m' p as q"
  by (induction as arbitrary: p) (auto split: option.splits)

lemma sll_path_upd [simp]:
  "a \<notin> set as \<Longrightarrow> sll_path (m(a := v)) p as q \<longleftrightarrow> sll_path m p as q"
  by (rule sll_path_cong) auto

lemma sll_path_null: "sll_path m 0 as q \<Longrightarrow> as = []"
  by (cases as) auto

lemma sll_path_dom: "sll_path m p as q \<Longrightarrow> a \<in> set as \<Longrightarrow> m a \<noteq> None"
  by (induction as arbitrary: p) (auto split: option.splits)

lemma sll_path_nonnull: "sll_path m p as q \<Longrightarrow> 0 \<notin> set as"
  by (induction as arbitrary: p) (auto split: option.splits)

lemma sll_path_hd: "sll_path m p as q \<Longrightarrow> as \<noteq> [] \<Longrightarrow> p = hd as"
  by (cases as) auto

lemma sll_repr_length: "sll_repr l as xs \<Longrightarrow> length xs = length as"
  unfolding sll_repr_def by (metis length_map)

lemma sll_repr_Nil_iff: "sll_repr l as xs \<Longrightarrow> sll_Head l = 0 \<longleftrightarrow> as = []"
  unfolding sll_repr_def by (cases as) auto

lemma sll_repr_value:
  "sll_repr l as xs \<Longrightarrow> i < length as \<Longrightarrow> sll_value l (as ! i) = Some (xs ! i)"
  unfolding sll_repr_def by (metis length_map nth_map)

lemma sll_repr_empty: "sll_repr sll_empty [] [] \<and> sll_tail_ok sll_empty []"
  by (simp add: sll_repr_def sll_tail_ok_def sll_empty_def)

section \<open>Insertion\<close>

lemma sll_value_fun_upd:
  "sll_value (l\<lparr>sll_nodes := (sll_nodes l)(p \<mapsto> nd)\<rparr>) a =
     (if a = p then Some (node_Data nd) else sll_value l a)"
  by (simp add: sll_value_def)

lemma length_Suc_u64:
  "length (as :: u64 list) + 1 < 2 ^ 64" if "distinct (p # as)" "0 \<notin> set (p # as)" for p
proof -
  have "card (set (0 # p # as)) = length (0 # p # as)"
    using that by (intro distinct_card) auto
  moreover have "card (set (0 # p # as)) \<le> card (UNIV :: u64 set)"
    by (rule card_mono) auto
  ultimately show ?thesis by (simp add: card_word)
qed

lemma sll_add_spec:
  assumes "sll_repr l as xs" "p \<noteq> 0" "p \<notin> set as"
  obtains l' where "sll_add p v l = Some l'" "sll_repr l' (p # as) (v # xs)"
    and "sll_tail_ok l as \<Longrightarrow> sll_tail_ok l' (p # as)"
    and "as \<noteq> [] \<Longrightarrow> sll_Tail l \<noteq> 0 \<Longrightarrow> sll_Tail l' = sll_Tail l"
proof -
  define l' where "l' = the (sll_add p v l)"
  have eq: "sll_add p v l = Some l'"
    using assms(2) by (simp add: l'_def sll_add_def Let_def)
  have nodes: "sll_nodes l' = (sll_nodes l)(p \<mapsto> \<lparr>node_Data = v, node_Next = sll_Head l\<rparr>)"
    and head: "sll_Head l' = p" and len: "sll_Length l' = sll_Length l + 1"
    and tail: "sll_Tail l' = (if sll_Tail l = 0 then p else sll_Tail l)"
    using assms(2) by (simp_all add: l'_def sll_add_def Let_def)
  have nz: "0 \<notin> set as"
    using assms(1) unfolding sll_repr_def by (blast dest: sll_path_nonnull)
  have "length as + 1 < 2 ^ 64"
    using assms nz by (intro length_Suc_u64 [of p]) (auto simp: sll_repr_def)
  moreover have "map (sll_value l') as = map (sll_value l) as"
    using assms(3) by (auto simp: sll_value_def nodes)
  then have "map (sll_value l') (p # as) = map Some (v # xs)"
    using assms(1) by (simp only: sll_repr_def list.map) (simp add: sll_value_def nodes)
  ultimately have "sll_repr l' (p # as) (v # xs)"
    using assms by (simp add: sll_repr_def nodes head len)
  moreover have "sll_tail_ok l' (p # as)" if "sll_tail_ok l as"
  proof (cases "as = []")
    case False
    then have "last as \<noteq> 0" using nz by (metis last_in_set)
    then show ?thesis using that False by (simp add: sll_tail_ok_def tail)
  qed (use that in \<open>simp add: sll_tail_ok_def tail\<close>)
  ultimately show ?thesis using that eq tail by auto
qed

lemma sll_add_end_spec:
  assumes "sll_repr l as xs" "sll_tail_ok l as" "p \<noteq> 0" "p \<notin> set as"
  obtains l' where "sll_add_end p v l = Some l'" "sll_repr l' (as @ [p]) (xs @ [v])"
    and "sll_tail_ok l' (as @ [p])"
proof (cases "as = []")
  case True
  with assms obtain l' where
    "sll_add p v l = Some l'" "sll_repr l' [p] [v]" "sll_tail_ok l' [p]"
    using sll_add_spec [of l as xs p v] by (auto simp: sll_repr_def)
  moreover have "sll_add_end p v l = sll_add p v l"
    using sll_repr_Nil_iff [OF assms(1)] True by (simp add: sll_add_end_def)
  moreover have "xs = []" using sll_repr_length [OF assms(1)] True by simp
  ultimately show ?thesis using that [of l'] True by simp
next
  case False
  obtain bs t where as: "as = bs @ [t]" using False by (metis rev_exhaust)
  have nz: "0 \<notin> set as"
    using assms(1) unfolding sll_repr_def by (blast dest: sll_path_nonnull)
  have tl: "sll_Tail l = t" "t \<noteq> 0" using assms(2) nz by (auto simp: as sll_tail_ok_def)
  obtain nd where nd: "sll_nodes l t = Some nd" and nx: "node_Next nd = 0"
    and p1: "sll_path (sll_nodes l) (sll_Head l) bs t"
    using assms(1) unfolding sll_repr_def
    by (auto simp: as sll_path_append split: option.splits)
  define l' where "l' = the (sll_add_end p v l)"
  have hd: "sll_Head l \<noteq> 0" using sll_repr_Nil_iff [OF assms(1)] False by simp
  have tp: "t \<noteq> p" "t \<notin> set bs" "p \<notin> set bs" "distinct bs"
    using assms unfolding sll_repr_def by (auto simp: as)
  have eq: "sll_add_end p v l = Some l'"
    using hd assms(3) tl nd tp by (simp add: l'_def sll_add_end_def Let_def)
  have nodes: "sll_nodes l' = (sll_nodes l)(p \<mapsto> \<lparr>node_Data = v, node_Next = 0\<rparr>,
                                            t \<mapsto> nd\<lparr>node_Next := p\<rparr>)"
    and rest: "sll_Head l' = sll_Head l" "sll_Length l' = sll_Length l + 1" "sll_Tail l' = p"
    using hd assms(3) tl nd tp by (simp_all add: l'_def sll_add_end_def Let_def)
  have "map (sll_value l') as = map (sll_value l) as"
    using assms(4) nd by (auto simp: sll_value_def nodes)
  then have vals: "map (sll_value l') as = map Some xs"
    using assms(1) by (simp only: sll_repr_def)
  have "length as + 1 < 2 ^ 64"
    using assms nz by (intro length_Suc_u64 [of p]) (auto simp: sll_repr_def)
  moreover have "sll_path (sll_nodes l') (sll_Head l') (as @ [p]) 0"
    using p1 tp tl assms(3) nx by (auto simp: as sll_path_append nodes rest)
  moreover have "map (sll_value l') (as @ [p]) = map Some (xs @ [v])"
    using vals tp by (simp only: map_append list.map) (simp add: sll_value_def nodes)
  ultimately have "sll_repr l' (as @ [p]) (xs @ [v])"
    using assms(1,4) by (simp add: sll_repr_def rest)
  moreover have "sll_tail_ok l' (as @ [p])" by (simp add: sll_tail_ok_def rest)
  ultimately show ?thesis using that eq by blast
qed

section \<open>Access and removal\<close>

lemma sll_path_next:
  "sll_path m p as 0 \<Longrightarrow> k < length as \<Longrightarrow>
     map_option node_Next (m (as ! k)) = Some (if Suc k < length as then as ! Suc k else 0)"
proof (induction as arbitrary: p k)
  case Nil
  then show ?case by simp
next
  case (Cons a as)
  then obtain nd where nd: "m a = Some nd" "sll_path m (node_Next nd) as 0"
    by (auto split: option.splits)
  show ?case
  proof (cases k)
    case 0
    show ?thesis using nd 0 sll_path_hd [OF nd(2)] by (cases as) (auto simp: hd_conv_nth)
  next
    case (Suc j)
    then show ?thesis
      using Cons.IH [OF nd(2), of j] Cons.prems(2) by (simp only: nth_Cons_Suc) simp
  qed
qed

lemma sll_repr_next:
  "sll_repr l as xs \<Longrightarrow> k < length as \<Longrightarrow>
     sll_next l (as ! k) = Some (if Suc k < length as then as ! Suc k else 0)"
  unfolding sll_next_def sll_repr_def by (elim conjE) (rule sll_path_next)

lemma sll_repr_nth_neq_0: "sll_repr l as xs \<Longrightarrow> k < length as \<Longrightarrow> as ! k \<noteq> 0"
  unfolding sll_repr_def by (metis nth_mem sll_path_nonnull)

declare sll_at_loop.simps [simp del] sll_remove_loop.simps [simp del]

lemma sll_at_loop_spec:
  assumes "sll_path (sll_nodes l) p as 0"
  shows "sll_at_loop l p out n =
           Some (if as = [] \<or> n = 0 then out else as ! (min (unat n) (length as) - 1))"
  using assms
proof (induction as arbitrary: p out n)
  case Nil
  then show ?case by (simp add: sll_at_loop.simps)
next
  case (Cons a as)
  then obtain nd where nd: "sll_nodes l a = Some nd" "sll_path (sll_nodes l) (node_Next nd) as 0"
    and pa: "p = a" "a \<noteq> 0" by (auto split: option.splits)
  show ?case
  proof (cases "n = 0")
    case True
    then show ?thesis by (simp add: sll_at_loop.simps)
  next
    case False
    then have un: "unat n = Suc (unat (n - 1))"
      using unat_minus_one [OF False] unat_gt_0 [of n] by simp
    have "sll_at_loop l p out n = sll_at_loop l (node_Next nd) a (n - 1)"
      using nd pa False by (simp add: sll_at_loop.simps [of l a] sll_next_def)
    also have "\<dots> = Some (if as = [] \<or> n - 1 = 0 then a
                         else as ! (min (unat (n - 1)) (length as) - 1))"
      by (rule Cons.IH [OF nd(2)])
    finally show ?thesis
      using False un by (auto simp: nth_Cons' min_def unat_eq_0 split: if_splits)
  qed
qed

text \<open>An index past the end reads the last element.\<close>

lemma sll_at_spec:
  assumes "sll_repr l as xs" "xs \<noteq> []" "index + 1 \<noteq> 0"
  shows "sll_at l index = Some (xs ! min (unat index) (length xs - 1))"
proof -
  have ne: "as \<noteq> []" and len: "length xs = length as"
    using assms(1,2) sll_repr_length [OF assms(1)] by auto
  have "unat (index + 1) = Suc (unat index)"
    using assms(3) by (metis Suc_eq_plus1 add.commute unatSuc)
  then have k: "min (unat (index + 1)) (length as) - 1 = min (unat index) (length as - 1)"
    by simp
  have lt: "min (unat index) (length as - 1) < length as" using ne by (cases as) auto
  have "sll_at_loop l (sll_Head l) 0 (index + 1) = Some (as ! min (unat index) (length as - 1))"
    using assms(1,3) ne k sll_at_loop_spec [of l "sll_Head l" as 0 "index + 1"]
    by (simp add: sll_repr_def)
  then show ?thesis
    using sll_repr_value [OF assms(1) lt] sll_repr_nth_neq_0 [OF assms(1) lt] len
    by (simp add: sll_at_def)
qed

lemma sll_for_each_from_spec:
  assumes "sll_path (sll_nodes l) p as 0" "map (sll_value l) as = map Some xs"
  shows "sll_for_each_from f l p s = Some (fold f xs s)"
  using assms
proof (induction as arbitrary: p s xs)
  case Nil
  then show ?case by (simp add: sll_for_each_from.simps)
next
  case (Cons a as)
  from Cons.prems obtain nd where nd: "sll_nodes l a = Some nd"
      "sll_path (sll_nodes l) (node_Next nd) as 0" and pa: "p = a" "a \<noteq> 0"
    by (auto split: option.splits)
  from Cons.prems obtain y ys where xs: "xs = y # ys" "map (sll_value l) as = map Some ys"
    by (cases xs) auto
  have "node_Data nd = y" using Cons.prems nd xs by (simp add: sll_value_def)
  then show ?case
    using Cons.IH [OF nd(2) xs(2)] nd pa
    by (simp add: sll_for_each_from.simps [of f l a] xs)
qed

lemma sll_for_each_spec:
  "sll_repr l as xs \<Longrightarrow> sll_for_each f l s = Some (fold f xs s)"
  unfolding sll_for_each_def sll_repr_def by (blast intro: sll_for_each_from_spec)

lemma sll_remove_loop_spec:
  assumes "sll_repr l as xs" "0 < i" "i \<le> index" "index < length as"
  shows "sll_remove_loop l (as ! (i - 1)) (as ! (i - 1)) nxt (of_nat i) (of_nat index) =
           Some (as ! (index - 1), as ! index,
                 if Suc index < length as then as ! Suc index else 0)"
  using assms(2-)
proof (induction "index - i" arbitrary: i nxt)
  case 0
  have len: "length as < 2 ^ 64" using assms(1) by (simp add: sll_repr_def)
  have i: "i = index" using 0 by simp
  have n1: "sll_next l (as ! (index - 1)) = Some (as ! index)"
    using sll_repr_next [OF assms(1), of "index - 1"] 0 by simp
  have n2: "sll_next l (as ! index) = Some (if Suc index < length as then as ! Suc index else 0)"
    using sll_repr_next [OF assms(1), of index] 0 by simp
  have nz: "as ! (index - 1) \<noteq> 0" "as ! index \<noteq> 0"
    using sll_repr_nth_neq_0 [OF assms(1)] 0 by auto
  show ?case by (simp add: sll_remove_loop.simps i n1 n2 nz del: One_nat_def)
next
  case (Suc d)
  have len: "length as < 2 ^ 64" using assms(1) by (simp add: sll_repr_def)
  have lt: "i < index" using Suc.hyps(2) by simp
  have i: "i < length as" "i - 1 < length as" using Suc.prems lt by auto
  have n1: "sll_next l (as ! (i - 1)) = Some (as ! i)"
    using sll_repr_next [OF assms(1), of "i - 1"] Suc.prems by simp
  have n2: "sll_next l (as ! i) = Some (as ! Suc i)"
    using sll_repr_next [OF assms(1) i(1)] lt Suc.prems by simp
  have nz: "as ! (i - 1) \<noteq> 0" "as ! i \<noteq> 0"
    using sll_repr_nth_neq_0 [OF assms(1)] i by auto
  have ge: "\<not> (of_nat index \<le> (of_nat i :: u64))"
    using lt len Suc.prems i by (simp add: word_le_nat_alt unat_of_nat_u64)
  have "sll_remove_loop l (as ! (i - 1)) (as ! (i - 1)) nxt (of_nat i) (of_nat index) =
          sll_remove_loop l (as ! i) (as ! i) (as ! Suc i) (of_nat (Suc i)) (of_nat index)"
    by (subst sll_remove_loop.simps) (simp add: n1 n2 nz ge add.commute del: One_nat_def)
  also have "\<dots> = Some (as ! (index - 1), as ! index,
                       if Suc index < length as then as ! Suc index else 0)"
    using Suc.hyps(1) [of "Suc i" "as ! Suc i"] Suc.hyps(2) Suc.prems lt by simp
  finally show ?case .
qed

lemma sll_remove_out_of_range:
  assumes "sll_repr l as xs" "length xs \<le> unat index"
  shows "sll_remove l index = Some (False, l)"
proof -
  have "sll_Length l \<le> index"
    using assms sll_repr_length [OF assms(1)]
    by (simp add: sll_repr_def word_le_nat_alt unat_of_nat_u64)
  then show ?thesis by (simp add: sll_remove_def)
qed

lemma sll_remove_head_spec:
  assumes "sll_repr l (a # as) (x # xs)"
  obtains l' where "sll_remove l 0 = Some (True, l')" "sll_repr l' as xs"
    and "sll_Tail l' = sll_Tail l" "sll_nodes l' a = None"
proof -
  obtain nd where nd: "sll_nodes l a = Some nd" "sll_path (sll_nodes l) (node_Next nd) as 0"
    and hd: "sll_Head l = a" "a \<noteq> 0"
    using assms unfolding sll_repr_def by (auto split: option.splits)
  define l' where "l' = l\<lparr>sll_Head := node_Next nd, sll_Length := sll_Length l - 1,
                          sll_nodes := (sll_nodes l)(a := None)\<rparr>"
  have len: "sll_Length l = of_nat (Suc (length as))" "Suc (length as) < 2 ^ 64"
    and dist: "a \<notin> set as" "distinct as" and vals: "map (sll_value l) as = map Some xs"
    using assms by (auto simp: sll_repr_def)
  have "unat (sll_Length l) = Suc (length as)" using len by (simp add: unat_of_nat_u64 del: of_nat_Suc)
  then have "\<not> sll_Length l \<le> 0" by (metis unat_0 le_zero_eq word_le_nat_alt nat.distinct(1))
  then have "sll_remove l 0 = Some (True, l')"
    using hd nd by (simp add: sll_remove_def l'_def)
  moreover have "map (sll_value l') as = map (sll_value l) as"
    using dist by (auto simp: sll_value_def l'_def)
  then have "sll_repr l' as xs"
    using nd(2) dist len vals by (simp add: sll_repr_def) (simp add: l'_def)
  ultimately show ?thesis using that by (simp add: l'_def)
qed

lemma sll_remove_inner_spec:
  assumes "sll_repr l as xs" "0 < i" "i < length as"
  obtains l' where "sll_remove l (of_nat i) = Some (True, l')"
    and "sll_repr l' (take i as @ drop (Suc i) as) (take i xs @ drop (Suc i) xs)"
    and "sll_tail_ok l as \<Longrightarrow> sll_tail_ok l' (take i as @ drop (Suc i) as)"
proof -
  have len: "length as < 2 ^ 64" and dist: "distinct as" and L: "sll_Length l = of_nat (length as)"
    and vals: "map (sll_value l) as = map Some xs"
    and path: "sll_path (sll_nodes l) (sll_Head l) as 0" and lx: "length xs = length as"
    using assms(1) sll_repr_length [OF assms(1)] by (auto simp: sll_repr_def)
  define bs where "bs = take (i - 1) as"
  define b where "b = as ! (i - 1)"
  define c where "c = as ! i"
  define ds where "ds = drop (Suc i) as"
  define nxt where "nxt = (if Suc i < length as then as ! Suc i else 0)"
  have as: "as = bs @ [b, c] @ ds"
    using assms(2,3) id_take_nth_drop [of i as] take_Suc_conv_app_nth [of "i - 1" as]
    by (simp add: bs_def b_def c_def ds_def)
  have tk: "take i as = bs @ [b]"
    using assms(2,3) take_Suc_conv_app_nth [of "i - 1" as] by (simp add: bs_def b_def)
  have la: "last as = (if ds = [] then c else last ds)"
    using arg_cong [OF as, of last] by simp
  have nd_nxt: "sll_path (sll_nodes l) nxt ds 0 \<and> (nxt = 0 \<longleftrightarrow> ds = [])"
  proof -
    obtain nc where "sll_nodes l c = Some nc" "sll_path (sll_nodes l) (node_Next nc) ds 0"
      using path by (auto simp: as sll_path_append split: option.splits)
    moreover have "map_option node_Next (sll_nodes l c) = Some nxt"
      using sll_path_next [OF path assms(3)] by (simp add: c_def nxt_def)
    moreover have "nxt = 0 \<longleftrightarrow> ds = []"
      using sll_repr_nth_neq_0 [OF assms(1), of "Suc i"] by (auto simp: nxt_def ds_def)
    ultimately show ?thesis by auto
  qed
  obtain pd where pd: "sll_nodes l b = Some pd" and pbs: "sll_path (sll_nodes l) (sll_Head l) bs b"
    and bz: "b \<noteq> 0"
    using path by (auto simp: as sll_path_append split: option.splits)
  have hd: "sll_Head l = as ! 0" using path assms(3) by (cases as) auto
  have pos: "0 < length as" using assms(3) by linarith
  note nx0 = sll_repr_next [OF assms(1) pos]
  have loop: "sll_remove_loop l (as ! 0) (as ! 0) n 1 (of_nat i) = Some (b, c, nxt)" for n
    using sll_remove_loop_spec [OF assms(1), of 1 i n] assms(2,3)
    by (simp add: b_def c_def nxt_def)
  have ui: "unat (of_nat i :: u64) = i" using assms(3) len by (intro unat_of_nat_u64) simp
  have nz: "of_nat i \<noteq> (0 :: u64)" using ui assms(2) by (metis less_numeral_extra(3) unat_0)
  have nl: "\<not> sll_Length l \<le> of_nat i"
    using len assms(3) L ui by (simp add: word_le_nat_alt unat_of_nat_u64)
  define m where "m = ((sll_nodes l)(b \<mapsto> pd\<lparr>node_Next := nxt\<rparr>))(c := None)"
  define l' where "l' = l\<lparr>sll_Tail := (if nxt = 0 then b else sll_Tail l),
                          sll_Length := sll_Length l - 1, sll_nodes := m\<rparr>"
  have eq: "sll_remove l (of_nat i) = Some (True, l')"
    using nl nz by (simp add: sll_remove_def hd nx0 loop pd Let_def l'_def m_def)
  have ne: "b \<noteq> c" "b \<notin> set bs" "c \<notin> set bs" "b \<notin> set ds" "c \<notin> set ds"
    "distinct bs" "distinct ds" "set bs \<inter> set ds = {}"
    using dist by (auto simp: as)
  have pth: "sll_path m (sll_Head l) (bs @ [b] @ ds) 0"
    using pbs nd_nxt ne bz pd by (auto simp: sll_path_append m_def)
  have "map (sll_value l') (bs @ [b] @ ds) = map (sll_value l) (bs @ [b] @ ds)"
    using ne pd by (auto simp: sll_value_def l'_def m_def)
  also have "bs @ [b] @ ds = take i as @ drop (Suc i) as" by (simp add: tk ds_def)
  also have "map (sll_value l) (take i as @ drop (Suc i) as) =
               map Some (take i xs @ drop (Suc i) xs)"
    using vals by (simp add: take_map [symmetric] drop_map [symmetric])
  finally have v: "map (sll_value l') (take i as @ drop (Suc i) as) =
                     map Some (take i xs @ drop (Suc i) xs)" .
  have "length (take i as @ drop (Suc i) as) = length as - 1" using assms(3) by simp
  moreover have "of_nat (length as) - 1 = (of_nat (length as - 1) :: u64)"
    using assms(3) by (simp add: of_nat_diff)
  ultimately have "sll_repr l' (take i as @ drop (Suc i) as) (take i xs @ drop (Suc i) xs)"
    using pth v len ne L by (simp add: sll_repr_def tk ds_def [symmetric]) (auto simp: l'_def)
  moreover have "sll_tail_ok l' (take i as @ drop (Suc i) as)" if "sll_tail_ok l as"
    using that nd_nxt la pos by (auto simp: sll_tail_ok_def l'_def tk ds_def [symmetric])
  ultimately show ?thesis using that eq by blast
qed

text \<open>The list as an abstract data type: what the operations do to the list they hold.\<close>

datatype 'a sll_op = Op_add u64 'a | Op_add_end u64 'a | Op_remove u64

fun sll_step :: "'a sll_op \<Rightarrow> 'a SinglyLinkedList \<Rightarrow> 'a SinglyLinkedList option" where
  "sll_step (Op_add p v) l = sll_add p v l"
| "sll_step (Op_add_end p v) l = sll_add_end p v l"
| "sll_step (Op_remove i) l = map_option snd (sll_remove l i)"

fun sll_run :: "'a sll_op list \<Rightarrow> 'a SinglyLinkedList \<Rightarrow> 'a SinglyLinkedList option" where
  "sll_run [] l = Some l"
| "sll_run (c # cs) l = (case sll_step c l of None \<Rightarrow> None | Some l' \<Rightarrow> sll_run cs l')"

definition list_remove :: "nat \<Rightarrow> 'b list \<Rightarrow> 'b list" where
  "list_remove i xs = take i xs @ drop (Suc i) xs"

fun list_step :: "'a sll_op \<Rightarrow> (u64 \<times> 'a) list \<Rightarrow> (u64 \<times> 'a) list" where
  "list_step (Op_add p v) xs = (p, v) # xs"
| "list_step (Op_add_end p v) xs = xs @ [(p, v)]"
| "list_step (Op_remove i) xs = list_remove (unat i) xs"

text \<open>A step is sound when \<open>new\<close> hands out an unused address and no step removes the only node.\<close>

fun sll_sound :: "'a sll_op list \<Rightarrow> (u64 \<times> 'a) list \<Rightarrow> bool" where
  "sll_sound [] xs = True"
| "sll_sound (c # cs) xs =
     ((case c of
         Op_add p v \<Rightarrow> p \<noteq> 0 \<and> p \<notin> fst ` set xs
       | Op_add_end p v \<Rightarrow> p \<noteq> 0 \<and> p \<notin> fst ` set xs
       | Op_remove i \<Rightarrow> length xs = 1 \<longrightarrow> i \<noteq> 0) \<and>
      sll_sound cs (list_step c xs))"

definition sll_holds :: "'a SinglyLinkedList \<Rightarrow> (u64 \<times> 'a) list \<Rightarrow> bool" where
  "sll_holds l xs \<longleftrightarrow> sll_repr l (map fst xs) (map snd xs) \<and> sll_tail_ok l (map fst xs)"

lemma sll_remove_holds:
  assumes "sll_holds l xs" "length xs = 1 \<longrightarrow> i \<noteq> 0"
  shows "\<exists>r l'. sll_remove l i = Some (r, l') \<and> sll_holds l' (list_remove (unat i) xs)"
proof -
  have repr: "sll_repr l (map fst xs) (map snd xs)" and tail: "sll_tail_ok l (map fst xs)"
    using assms(1) by (auto simp: sll_holds_def)
  consider (out) "length xs \<le> unat i" | (head) "i = 0" "1 < length xs"
    | (inner) "i \<noteq> 0" "unat i < length xs"
    using assms(2) by (metis less_one linorder_not_less nat_neq_iff unat_0)
  then show ?thesis
  proof cases
    case out
    then show ?thesis
      using sll_remove_out_of_range [OF repr, of i] assms(1) by (auto simp: list_remove_def)
  next
    case head
    then obtain a x b ys where xs: "xs = (a, x) # b # ys" by (cases xs; cases "tl xs") auto
    obtain l' where "sll_remove l 0 = Some (True, l')"
      and "sll_repr l' (map fst (b # ys)) (map snd (b # ys))" "sll_Tail l' = sll_Tail l"
      using sll_remove_head_spec [of l a "map fst (b # ys)" x "map snd (b # ys)"] repr
      by (auto simp: xs)
    then show ?thesis
      using tail head by (auto simp: sll_holds_def sll_tail_ok_def list_remove_def xs)
  next
    case inner
    have iw: "of_nat (unat i) = i" by simp
    have "0 < unat i" using inner(1) by (simp add: unat_gt_0)
    then obtain l' where "sll_remove l i = Some (True, l')"
      and "sll_repr l' (take (unat i) (map fst xs) @ drop (Suc (unat i)) (map fst xs))
             (take (unat i) (map snd xs) @ drop (Suc (unat i)) (map snd xs))"
      and "sll_tail_ok l' (take (unat i) (map fst xs) @ drop (Suc (unat i)) (map fst xs))"
      using sll_remove_inner_spec [OF repr, of "unat i"] inner(2) tail iw by auto
    then show ?thesis
      by (auto simp: sll_holds_def list_remove_def take_map drop_map)
  qed
qed

lemma sll_step_holds:
  assumes "sll_holds l xs" "sll_sound [c] xs"
  shows "\<exists>l'. sll_step c l = Some l' \<and> sll_holds l' (list_step c xs)"
proof (cases c)
  case (Op_add p v)
  then have p: "p \<noteq> 0" "p \<notin> set (map fst xs)" using assms(2) by auto
  from assms(1) obtain l' where "sll_add p v l = Some l'"
    and "sll_repr l' (p # map fst xs) (v # map snd xs)" "sll_tail_ok l' (p # map fst xs)"
    using sll_add_spec [OF _ p, of l "map snd xs" v] by (auto simp: sll_holds_def)
  then show ?thesis by (simp add: Op_add sll_holds_def)
next
  case (Op_add_end p v)
  then have p: "p \<noteq> 0" "p \<notin> set (map fst xs)" using assms(2) by auto
  from assms(1) obtain l' where "sll_add_end p v l = Some l'"
    and "sll_repr l' (map fst xs @ [p]) (map snd xs @ [v])" "sll_tail_ok l' (map fst xs @ [p])"
    using sll_add_end_spec [OF _ _ p, of l "map snd xs" v] by (auto simp: sll_holds_def)
  then show ?thesis by (simp add: Op_add_end sll_holds_def)
next
  case (Op_remove i)
  then show ?thesis using sll_remove_holds [of l xs i] assms by auto
qed

lemma sll_run_holds:
  assumes "sll_holds l xs" "sll_sound cs xs"
  shows "\<exists>l'. sll_run cs l = Some l' \<and> sll_holds l' (fold list_step cs xs)"
  using assms
proof (induction cs arbitrary: l xs)
  case Nil
  then show ?case by simp
next
  case (Cons c cs)
  obtain l' where "sll_step c l = Some l'" "sll_holds l' (list_step c xs)"
    using sll_step_holds [OF Cons.prems(1), of c] Cons.prems(2) by auto
  then show ?case using Cons.IH [of l' "list_step c xs"] Cons.prems(2) by simp
qed

section \<open>Properties\<close>

text \<open>
  C22: The linked list implements a list.  Any sequence of \<open>add\<close>, \<open>add_end\<close> and \<open>remove\<close> on an
  empty list, in which \<open>new\<close> returns unused addresses and no \<open>remove\<close> takes away the only
  node, follows no null or deleted pointer; the nodes it leaves hold exactly the elements that
  the same operations leave in an abstract list, the tail pointer is the last node, and
  \<open>for_each\<close> visits the elements in that order.
\<close>

theorem linked_list_refines:
  assumes "sll_sound cs []"
  shows "\<exists>l'. sll_run cs sll_empty = Some l' \<and> sll_holds l' (fold list_step cs []) \<and>
           sll_for_each (\<lambda>x xs. xs @ [x]) l' [] = Some (map snd (fold list_step cs []))"
proof -
  have "sll_holds sll_empty []" using sll_repr_empty by (simp add: sll_holds_def)
  then obtain l' where l': "sll_run cs sll_empty = Some l'" "sll_holds l' (fold list_step cs [])"
    using sll_run_holds assms by blast
  have snoc: "fold (\<lambda>x xs. xs @ [x]) ys acc = acc @ ys" for ys acc :: "'a list"
    by (induction ys arbitrary: acc) auto
  have "sll_repr l' (map fst (fold list_step cs [])) (map snd (fold list_step cs []))"
    using l'(2) by (simp add: sll_holds_def)
  from sll_for_each_spec [OF this, of "\<lambda>x xs. xs @ [x]" "[]", unfolded snoc append_Nil] l'
  show ?thesis by blast
qed

theorem linked_list_refines_witness:
  "\<exists>l'. sll_run [Op_add 8 1, Op_add_end 16 2, Op_add_end 24 3, Op_remove 1, Op_add 16 4]
          sll_empty = Some l' \<and>
        sll_for_each (\<lambda>x xs. xs @ [x]) l' [] = Some [4, 1, 3 :: nat]"
proof -
  have "sll_sound [Op_add 8 1, Op_add_end 16 2, Op_add_end 24 3, Op_remove 1, Op_add 16 (4 :: nat)] []"
    by (simp add: list_remove_def)
  from linked_list_refines [OF this] show ?thesis by (simp add: list_remove_def) blast
qed

text \<open>
  Removing the only node strands the tail pointer.  \<open>remove(0)\<close> on a list of one node
  empties the list but leaves the tail pointer at the deleted node, the next \<open>add_end\<close> does not
  repair it, and the one after that writes through it.
\<close>

theorem linked_list_stale_tail:
  assumes "sll_repr l [a] [x]" "sll_tail_ok l [a]"
    and "p \<noteq> 0" "p \<noteq> a" "q \<noteq> a"
  shows "sll_run [Op_remove 0, Op_add_end p v, Op_add_end q w] l = None"
proof -
  obtain l1 where l1: "sll_remove l 0 = Some (True, l1)" "sll_repr l1 [] []"
    "sll_Tail l1 = a" "sll_nodes l1 a = None"
    using sll_remove_head_spec [OF assms(1)] assms(2) by (auto simp: sll_tail_ok_def)
  have az: "a \<noteq> 0" using sll_repr_nth_neq_0 [OF assms(1), of 0] by simp
  have hd: "sll_Head l1 = 0" using sll_repr_Nil_iff [OF l1(2)] by simp
  define l2 where "l2 = the (sll_add_end p v l1)"
  have l2: "sll_add_end p v l1 = Some l2" "sll_Tail l2 = a" "sll_nodes l2 a = None" "sll_Head l2 = p"
    using hd assms(3,4) l1 az by (simp_all add: l2_def sll_add_end_def sll_add_def Let_def)
  have "sll_add_end q w l2 = None"
    using l2 az assms(3,5) by (simp add: sll_add_end_def Let_def)
  then show ?thesis using l1(1) l2(1) by simp
qed

theorem linked_list_stale_tail_witness:
  "sll_run [Op_remove 0, Op_add_end 16 (2 :: nat), Op_add_end 24 3]
     \<lparr>sll_nodes = [8 \<mapsto> \<lparr>node_Data = 1, node_Next = 0\<rparr>], sll_Length = 1,
      sll_Head = 8, sll_Tail = 8\<rparr> = None"
  by (rule linked_list_stale_tail [where a = 8 and x = 1])
     (simp_all add: sll_repr_def sll_tail_ok_def sll_value_def)

end
