(* ===== verification/Containers.thy ===== *)
theory Containers
  imports LensorPrelude
begin

text \<open>
  The containers of \<open>std/include\<close> the kernel keeps its tables in: the sparse vector
  (\<open>extensions_sparse_vector\<close>), a table with stable indices that holds the file descriptors of
  a process and the open files of the system; the ring buffer (\<open>extensions_ring_buffer\<close>) of
  an event queue; and the double ended queue (\<open>extensions_double_ended_queue\<close>) of the
  connections a socket waits to accept.

  The locale \<open>slot_table\<close> is the contract of the sparse vector: a total map from slots to
  values in which all but finitely many slots are free.
\<close>

section \<open>Sparse vector\<close>

text \<open>
  The template argument \<open>__invalid\<close>, the value that marks a free slot, is the first argument of
  the operations.  \<open>None\<close> is an access past the end of the element vector.
\<close>

record 'a sparse_vector =
  sv_els :: "'a list"
  sv_idxs :: "nat list"

definition sv_empty :: "'a sparse_vector" where
  "sv_empty = \<lparr>sv_els = [], sv_idxs = []\<rparr>"

definition sv_allocate :: "'a \<Rightarrow> 'a sparse_vector \<Rightarrow> nat \<times> 'a sparse_vector" where
  "sv_allocate invalid sv =
     (if sv_idxs sv \<noteq> []
      then (last (sv_idxs sv), sv\<lparr>sv_idxs := butlast (sv_idxs sv)\<rparr>)
      else (length (sv_els sv), sv\<lparr>sv_els := sv_els sv @ [invalid]\<rparr>))"

definition sv_push_back :: "'a \<Rightarrow> 'a \<Rightarrow> 'a sparse_vector \<Rightarrow> (nat \<times> bool) \<times> 'a sparse_vector" where
  "sv_push_back invalid el sv =
     (if el = invalid then ((0, False), sv)
      else let (idx, sv1) = sv_allocate invalid sv
           in ((idx, True), sv1\<lparr>sv_els := (sv_els sv1)[idx := el]\<rparr>))"

definition sv_replace :: "'a \<Rightarrow> nat \<Rightarrow> 'a \<Rightarrow> 'a sparse_vector \<Rightarrow> (bool \<times> 'a sparse_vector) option" where
  "sv_replace invalid i el sv =
     (if length (sv_els sv) < i then Some (False, sv)
      else if i = length (sv_els sv) then None
      else
        let sv1 = (if sv_els sv ! i = invalid
                   then sv\<lparr>sv_idxs := filter (\<lambda>j. j \<noteq> i) (sv_idxs sv)\<rparr> else sv)
        in Some (True, sv1\<lparr>sv_els := (sv_els sv1)[i := el]\<rparr>))"

definition sv_erase :: "'a \<Rightarrow> nat \<Rightarrow> 'a sparse_vector \<Rightarrow> (bool \<times> 'a sparse_vector) option" where
  "sv_erase invalid i sv =
     (if length (sv_els sv) < i then Some (False, sv)
      else if i = length (sv_els sv) then None
      else if sv_els sv ! i = invalid then Some (False, sv)
      else Some (True, sv\<lparr>sv_els := (sv_els sv)[i := invalid], sv_idxs := sv_idxs sv @ [i]\<rparr>))"

text \<open>Indexing: a pointer to the element, null past the end; and the shared pointer variant.\<close>

definition sv_at :: "'a sparse_vector \<Rightarrow> nat \<Rightarrow> 'a option" where
  "sv_at sv i = (if length (sv_els sv) \<le> i then None else Some (sv_els sv ! i))"

definition sv_get :: "'a \<Rightarrow> 'a sparse_vector \<Rightarrow> nat \<Rightarrow> 'a" where
  "sv_get invalid sv i = (if length (sv_els sv) \<le> i then invalid else sv_els sv ! i)"

definition sv_pairs :: "'a \<Rightarrow> 'a sparse_vector \<Rightarrow> (nat \<times> 'a) list" where
  "sv_pairs invalid sv = filter (\<lambda>(i, x). x \<noteq> invalid) (enumerate 0 (sv_els sv))"

definition sv_allocated_size :: "'a sparse_vector \<Rightarrow> nat" where
  "sv_allocated_size sv = length (sv_els sv)"

text \<open>The free list holds each free slot once.\<close>

definition sv_inv :: "'a \<Rightarrow> 'a sparse_vector \<Rightarrow> bool" where
  "sv_inv invalid sv \<longleftrightarrow>
     distinct (sv_idxs sv) \<and>
     set (sv_idxs sv) = {i. i < length (sv_els sv) \<and> sv_els sv ! i = invalid}"

lemma sv_inv_empty [simp]: "sv_inv x sv_empty"
  by (simp add: sv_inv_def sv_empty_def)

lemma sv_get_empty [simp]: "sv_get x sv_empty i = x"
  by (simp add: sv_get_def sv_empty_def)

lemma sv_at_get: "sv_at sv i = Some x \<Longrightarrow> sv_get y sv i = x"
  by (auto simp: sv_at_def sv_get_def split: if_splits)

lemma sv_get_at:
  "sv_get x sv i = (case sv_at sv i of None \<Rightarrow> x | Some y \<Rightarrow> y)"
  by (simp add: sv_at_def sv_get_def)

lemma sv_push_back_invalid [simp]: "sv_push_back x x sv = ((0, False), sv)"
  by (simp add: sv_push_back_def)

lemma sv_push_back_spec:
  assumes "sv_inv x sv" "v \<noteq> x" "sv_push_back x v sv = ((i, b), sv')"
  shows "b" "sv_inv x sv'" "sv_get x sv i = x" "sv_get x sv' = (sv_get x sv)(i := v)"
    and "sv_idxs sv = [] \<Longrightarrow> i = length (sv_els sv) \<and> sv_idxs sv' = []"
    and "length (sv_els sv') = max (length (sv_els sv)) (Suc i)"
proof -
  have ok: "distinct (sv_idxs sv)"
    "set (sv_idxs sv) = {i. i < length (sv_els sv) \<and> sv_els sv ! i = x}"
    using assms(1) by (auto simp: sv_inv_def)
  have all: "b \<and> sv_inv x sv' \<and> sv_get x sv i = x \<and> sv_get x sv' = (sv_get x sv)(i := v) \<and>
      (sv_idxs sv = [] \<longrightarrow> i = length (sv_els sv) \<and> sv_idxs sv' = []) \<and>
      length (sv_els sv') = max (length (sv_els sv)) (Suc i)"
  proof (cases "sv_idxs sv = []")
    case True
    then have eq: "i = length (sv_els sv)" "b" "sv' = sv\<lparr>sv_els := sv_els sv @ [v]\<rparr>"
      using assms(2,3) by (auto simp: sv_push_back_def sv_allocate_def)
    have none: "\<forall>k < length (sv_els sv). sv_els sv ! k \<noteq> x" using ok True by auto
    show ?thesis
      using eq none True assms(2)
      by (auto simp: sv_inv_def sv_get_def fun_eq_iff nth_append less_Suc_eq)
  next
    case False
    then obtain js where js: "sv_idxs sv = js @ [i]" and b: "b"
      and sv': "sv' = sv\<lparr>sv_idxs := js, sv_els := (sv_els sv)[i := v]\<rparr>"
      using assms(2,3) by (auto simp: sv_push_back_def sv_allocate_def)
        (metis append_butlast_last_id)
    have i: "i < length (sv_els sv)" "sv_els sv ! i = x" "i \<notin> set js" "distinct js"
      using ok js by auto
    have "set js = {k. k < length (sv_els sv) \<and> k \<noteq> i \<and> sv_els sv ! k = x}"
      using ok(2) js i by auto
    then show ?thesis
      using i b sv' assms(2) js
      by (auto simp: sv_inv_def sv_get_def fun_eq_iff nth_list_update)
  qed
  then show "b" "sv_inv x sv'" "sv_get x sv i = x" "sv_get x sv' = (sv_get x sv)(i := v)"
    "sv_idxs sv = [] \<Longrightarrow> i = length (sv_els sv) \<and> sv_idxs sv' = []"
    "length (sv_els sv') = max (length (sv_els sv)) (Suc i)"
    by blast+
qed

lemma sv_erase_spec:
  assumes "sv_inv x sv" "sv_get x sv i \<noteq> x"
  obtains sv' where "sv_erase x i sv = Some (True, sv')" "sv_inv x sv'"
    "sv_get x sv' = (sv_get x sv)(i := x)" "length (sv_els sv') = length (sv_els sv)"
proof -
  have i: "i < length (sv_els sv)" "sv_els sv ! i \<noteq> x"
    using assms(2) by (auto simp: sv_get_def split: if_splits)
  define sv' where "sv' = sv\<lparr>sv_els := (sv_els sv)[i := x], sv_idxs := sv_idxs sv @ [i]\<rparr>"
  have "sv_erase x i sv = Some (True, sv')" using i by (simp add: sv_erase_def sv'_def)
  moreover have "sv_inv x sv'"
    using assms(1) i by (auto simp: sv_inv_def sv'_def nth_list_update)
  moreover have "sv_get x sv' = (sv_get x sv)(i := x)"
    using i by (auto simp: sv_get_def sv'_def fun_eq_iff)
  ultimately show ?thesis using that by (simp add: sv'_def)
qed

lemma sv_replace_spec:
  assumes "sv_inv x sv" "sv_get x sv i \<noteq> x" "v \<noteq> x"
  obtains sv' where "sv_replace x i v sv = Some (True, sv')" "sv_inv x sv'"
    "sv_get x sv' = (sv_get x sv)(i := v)" "length (sv_els sv') = length (sv_els sv)"
proof -
  have i: "i < length (sv_els sv)" "sv_els sv ! i \<noteq> x"
    using assms(2) by (auto simp: sv_get_def split: if_splits)
  define sv' where "sv' = sv\<lparr>sv_els := (sv_els sv)[i := v]\<rparr>"
  have "sv_replace x i v sv = Some (True, sv')" using i by (simp add: sv_replace_def sv'_def)
  moreover have "sv_inv x sv'"
    using assms i by (auto simp: sv_inv_def sv'_def nth_list_update)
  moreover have "sv_get x sv' = (sv_get x sv)(i := v)"
    using i by (auto simp: sv_get_def sv'_def fun_eq_iff)
  ultimately show ?thesis using that by (simp add: sv'_def)
qed

lemma sv_pairs_iff: "(i, y) \<in> set (sv_pairs x sv) \<longleftrightarrow> sv_get x sv i = y \<and> y \<noteq> x"
  by (auto simp: sv_pairs_def sv_get_def in_set_enumerate_eq)

lemma sorted_sv_pairs: "sorted_wrt (<) (map fst (sv_pairs x sv))"
proof -
  have "sorted_wrt (\<lambda>a b. fst a < fst b) (enumerate 0 (sv_els sv))"
    using sorted_wrt_upt [of 0 "length (sv_els sv)"]
    by (simp add: sorted_wrt_map [symmetric])
  then show ?thesis by (simp add: sv_pairs_def sorted_wrt_map sorted_wrt_filter)
qed

section \<open>Slot tables\<close>

text \<open>The number of slots that hold a value: for the open files, the owners of a description.\<close>

definition occurrences :: "(nat \<Rightarrow> 'v) \<Rightarrow> 'v \<Rightarrow> nat" where
  "occurrences f v = card {i. f i = v}"

lemma occurrences_upd:
  assumes "finite {i. f i = w}"
  shows "occurrences (f(i := v)) w + (if f i = w then 1 else 0) =
           occurrences f w + (if v = w then 1 else 0)"
proof -
  define A where "A = {k. f k = w} - {i}"
  have A: "finite A" "i \<notin> A" using assms by (auto simp: A_def)
  have "{k. f k = w} = (if f i = w then insert i A else A)" by (auto simp: A_def)
  then have "occurrences f w = card A + (if f i = w then 1 else 0)"
    using A by (simp add: occurrences_def)
  moreover have "{k. (f(i := v)) k = w} = (if v = w then insert i A else A)" by (auto simp: A_def)
  then have "occurrences (f(i := v)) w = card A + (if v = w then 1 else 0)"
    using A by (simp add: occurrences_def)
  ultimately show ?thesis by simp
qed

locale slot_table =
  fixes slot :: "'t \<Rightarrow> nat \<Rightarrow> 'v"
    and free_slot :: 'v
    and table_ok :: "'t \<Rightarrow> bool"
    and insert_slot :: "'v \<Rightarrow> 't \<Rightarrow> nat \<times> 't"
    and clear_slot :: "nat \<Rightarrow> 't \<Rightarrow> 't option"
    and set_slot :: "nat \<Rightarrow> 'v \<Rightarrow> 't \<Rightarrow> 't option"
  assumes finite_slots: "finite {i. slot t i \<noteq> free_slot}"
    and insert_slot_law:
      "table_ok t \<Longrightarrow> v \<noteq> free_slot \<Longrightarrow> insert_slot v t = (i, t') \<Longrightarrow>
         table_ok t' \<and> slot t i = free_slot \<and> slot t' = (slot t)(i := v)"
    and clear_slot_law:
      "table_ok t \<Longrightarrow> slot t i \<noteq> free_slot \<Longrightarrow>
         \<exists>t'. clear_slot i t = Some t' \<and> table_ok t' \<and> slot t' = (slot t)(i := free_slot)"
    and set_slot_law:
      "table_ok t \<Longrightarrow> slot t i \<noteq> free_slot \<Longrightarrow> v \<noteq> free_slot \<Longrightarrow>
         \<exists>t'. set_slot i v t = Some t' \<and> table_ok t' \<and> slot t' = (slot t)(i := v)"
begin

lemma finite_slot: "w \<noteq> free_slot \<Longrightarrow> finite {i. slot t i = w}"
  using finite_slots [of t] by (rule rev_finite_subset) auto

lemma occurs_iff: "w \<noteq> free_slot \<Longrightarrow> 0 < occurrences (slot t) w \<longleftrightarrow> (\<exists>i. slot t i = w)"
  using finite_slot [of w t] by (auto simp: occurrences_def card_gt_0_iff)

lemma insert_occurrences:
  assumes "table_ok t" "v \<noteq> free_slot" "w \<noteq> free_slot" "insert_slot v t = (i, t')"
  shows "occurrences (slot t') w = occurrences (slot t) w + (if v = w then 1 else 0)"
  using occurrences_upd [OF finite_slot [OF assms(3)], of t i v]
    insert_slot_law [OF assms(1,2,4)] assms(3) by simp

lemma clear_occurrences:
  assumes "table_ok t" "slot t i \<noteq> free_slot" "w \<noteq> free_slot" "clear_slot i t = Some t'"
  shows "occurrences (slot t) w = occurrences (slot t') w + (if slot t i = w then 1 else 0)"
  using occurrences_upd [OF finite_slot [OF assms(3)], of t i free_slot]
    clear_slot_law [OF assms(1,2)] assms(3,4) by auto

lemma set_occurrences:
  assumes "table_ok t" "slot t i \<noteq> free_slot" "v \<noteq> free_slot" "w \<noteq> free_slot"
    and "set_slot i v t = Some t'"
  shows "occurrences (slot t') w + (if slot t i = w then 1 else 0) =
           occurrences (slot t) w + (if v = w then 1 else 0)"
  using occurrences_upd [OF finite_slot [OF assms(4)], of t i v]
    set_slot_law [OF assms(1-3)] assms(5) by auto

text \<open>A slot that an insertion returns was free, and stays distinct from every used slot.\<close>

lemma insert_fresh:
  assumes "table_ok t" "v \<noteq> free_slot" "insert_slot v t = (i, t')" "slot t j \<noteq> free_slot"
  shows "i \<noteq> j" "slot t' j = slot t j"
  using insert_slot_law [OF assms(1-3)] assms(4) by auto

lemma clear_others:
  assumes "table_ok t" "slot t i \<noteq> free_slot" "clear_slot i t = Some t'" "j \<noteq> i"
  shows "slot t' j = slot t j"
  using clear_slot_law [OF assms(1,2)] assms(3,4) by auto

end

interpretation sv: slot_table "sv_get x" x "sv_inv x"
  "\<lambda>v t. (fst (fst (sv_push_back x v t)), snd (sv_push_back x v t))"
  "\<lambda>i t. map_option snd (sv_erase x i t)"
  "\<lambda>i v t. map_option snd (sv_replace x i v t)" for x
proof (unfold_locales, goal_cases)
  case (1 t)
  have "{i. sv_get x t i \<noteq> x} \<subseteq> {..< length (sv_els t)}" by (auto simp: sv_get_def)
  then show ?case using finite_subset by blast
next
  case (2 t v i t')
  obtain j b sv' where "sv_push_back x v t = ((j, b), sv')" by (metis surj_pair)
  then show ?case using sv_push_back_spec [OF 2(1,2)] 2(3) by auto
next
  case (3 t i)
  then show ?case using sv_erase_spec [OF 3(1,2)] by (metis map_option_eq_Some snd_conv)
next
  case (4 t i v)
  then show ?case using sv_replace_spec [OF 4(1-3)] by (metis map_option_eq_Some snd_conv)
qed

section \<open>Ring buffer\<close>

text \<open>
  The template argument \<open>_Size\<close> is the length of \<open>rb_data\<close>.  An index at or past it is an
  access outside the array, for which the operations return \<open>None\<close>.
\<close>

record 'a ring_buffer =
  rb_data :: "'a list"
  rb_head :: nat
  rb_tail :: nat

definition rb_size :: "'a ring_buffer \<Rightarrow> nat" where
  "rb_size r = (if rb_head r \<le> rb_tail r then rb_tail r - rb_head r
                else (length (rb_data r) - rb_head r) + rb_tail r)"

definition rb_push_back :: "'a \<Rightarrow> 'a ring_buffer \<Rightarrow> 'a ring_buffer option" where
  "rb_push_back value r =
     (if length (rb_data r) \<le> rb_tail r then None
      else
        let r1 = r\<lparr>rb_data := (rb_data r)[rb_tail r := value], rb_tail := rb_tail r + 1\<rparr>;
            r2 = (if rb_tail r1 = rb_head r1 then r1\<lparr>rb_head := rb_head r1 + 1\<rparr> else r1);
            r3 = (if length (rb_data r2) \<le> rb_tail r2 then r2\<lparr>rb_tail := 0\<rparr> else r2)
        in Some r3)"

definition rb_pop_front :: "'a ring_buffer \<Rightarrow> ('a \<times> 'a ring_buffer) option" where
  "rb_pop_front r =
     (if length (rb_data r) \<le> rb_head r then None
      else
        let out = rb_data r ! rb_head r;
            r1 = r\<lparr>rb_head := rb_head r + 1\<rparr>;
            r2 = (if length (rb_data r1) \<le> rb_head r1 then r1\<lparr>rb_head := 0\<rparr> else r1)
        in Some (out, r2))"

definition rb_list :: "'a ring_buffer \<Rightarrow> 'a list" where
  "rb_list r = map (\<lambda>k. rb_data r ! ((rb_head r + k) mod length (rb_data r))) [0..<rb_size r]"

definition rb_inv :: "'a ring_buffer \<Rightarrow> bool" where
  "rb_inv r \<longleftrightarrow> rb_head r < length (rb_data r) \<and> rb_tail r < length (rb_data r)"

text \<open>Below capacity the ring buffer is a queue.\<close>

lemma rb_push_back_spec:
  assumes "rb_inv r" "rb_size r + 1 < length (rb_data r)"
  obtains r' where "rb_push_back v r = Some r'" "rb_inv r'" "rb_list r' = rb_list r @ [v]"
    "length (rb_data r') = length (rb_data r)"
proof -
  define N where "N = length (rb_data r)"
  define h where "h = rb_head r"
  define t where "t = rb_tail r"
  have b: "h < N" "t < N" using assms(1) by (auto simp: rb_inv_def N_def h_def t_def)
  have sz: "rb_size r = (if h \<le> t then t - h else N - h + t)"
    by (simp add: rb_size_def N_def h_def t_def)
  have ne: "t + 1 \<noteq> h" using assms(2) sz b by (auto simp: N_def [symmetric] split: if_splits)
  define t' where "t' = (if N \<le> t + 1 then 0 else t + 1)"
  define r' where "r' = r\<lparr>rb_data := (rb_data r)[t := v], rb_tail := t'\<rparr>"
  have "rb_push_back v r = Some r'"
    using b ne by (simp add: rb_push_back_def Let_def r'_def t'_def N_def h_def t_def)
  moreover have inv': "rb_inv r'" using b by (auto simp: rb_inv_def r'_def t'_def N_def h_def)
  moreover have sz': "rb_size r' = Suc (rb_size r)"
    using b sz assms(2) by (auto simp: rb_size_def r'_def t'_def N_def [symmetric] h_def [symmetric]
        split: if_splits)
  moreover have "rb_list r' = rb_list r @ [v]"
  proof -
    have tm: "(h + rb_size r) mod N = t" using b sz by (auto simp: mod_if)
    have old: "(h + k) mod N \<noteq> t" if "k < rb_size r" for k
    proof -
      have "(h + k) mod N = (if h + k < N then h + k else h + k - N)"
        using that assms(2) b by (simp add: N_def [symmetric] mod_if)
      then show ?thesis using that sz b assms(2) by (auto split: if_splits)
    qed
    have "rb_list r' = map (\<lambda>k. (rb_data r)[t := v] ! ((h + k) mod N)) [0..<Suc (rb_size r)]"
      by (simp only: rb_list_def sz') (simp add: r'_def h_def N_def del: upt_Suc)
    also have "\<dots> = map (\<lambda>k. (rb_data r)[t := v] ! ((h + k) mod N)) [0..<rb_size r] @ [v]"
      using tm b by (simp add: N_def)
    also have "map (\<lambda>k. (rb_data r)[t := v] ! ((h + k) mod N)) [0..<rb_size r] = rb_list r"
      using old [symmetric] by (auto simp: rb_list_def h_def N_def nth_list_update_neq)
    finally show ?thesis .
  qed
  ultimately show ?thesis using that by (simp add: r'_def)
qed

lemma rb_pop_front_spec:
  assumes "rb_inv r" "rb_size r \<noteq> 0"
  obtains r' where "rb_pop_front r = Some (hd (rb_list r), r')" "rb_inv r'"
    "rb_list r' = tl (rb_list r)" "length (rb_data r') = length (rb_data r)"
proof -
  define N where "N = length (rb_data r)"
  define h where "h = rb_head r"
  define t where "t = rb_tail r"
  have b: "h < N" "t < N" using assms(1) by (auto simp: rb_inv_def N_def h_def t_def)
  have sz: "rb_size r = (if h \<le> t then t - h else N - h + t)"
    by (simp add: rb_size_def N_def h_def t_def)
  define h' where "h' = (if N \<le> h + 1 then 0 else h + 1)"
  define r' where "r' = r\<lparr>rb_head := h'\<rparr>"
  have sz': "rb_size r = Suc (rb_size r')"
    using b sz assms(2) by (auto simp: rb_size_def r'_def h'_def N_def [symmetric] t_def [symmetric]
        split: if_splits)
  have "rb_list r = rb_data r ! (h mod N) # rb_list r'"
  proof -
    have "(h' + k) mod N = (h + Suc k) mod N" for k
    proof (cases "N \<le> h + 1")
      case True
      then have "h + Suc k = k + N" "h' = 0" using b by (auto simp: h'_def)
      then show ?thesis by (simp only:) simp
    qed (simp add: h'_def)
    then show ?thesis
      by (simp add: rb_list_def sz' upt_conv_Cons [of 0] map_Suc_upt [symmetric]
          h_def [symmetric] N_def [symmetric] del: upt_Suc) (simp add: r'_def N_def o_def)
  qed
  moreover have "rb_pop_front r = Some (rb_data r ! h, r')"
    using b by (simp add: rb_pop_front_def Let_def r'_def h'_def N_def h_def)
  moreover have "rb_inv r'" using b by (auto simp: rb_inv_def r'_def h'_def N_def t_def)
  ultimately show ?thesis using that b by (simp add: r'_def)
qed

section \<open>Double ended queue\<close>

record 'a double_ended_queue =
  deq_data :: "'a list"
  deq_head :: nat

definition deq_empty :: "'a double_ended_queue" where
  "deq_empty = \<lparr>deq_data = [], deq_head = 0\<rparr>"

definition deq_size :: "'a double_ended_queue \<Rightarrow> nat" where
  "deq_size q = length (deq_data q) - deq_head q"

definition deq_push_back :: "'a \<Rightarrow> 'a double_ended_queue \<Rightarrow> 'a double_ended_queue" where
  "deq_push_back value q = q\<lparr>deq_data := deq_data q @ [value]\<rparr>"

definition deq_front :: "'a double_ended_queue \<Rightarrow> 'a option" where
  "deq_front q = (if deq_head q < length (deq_data q) then Some (deq_data q ! deq_head q) else None)"

definition deq_pop_front :: "'a double_ended_queue \<Rightarrow> 'a double_ended_queue" where
  "deq_pop_front q = q\<lparr>deq_head := deq_head q + 1\<rparr>"

definition deq_list :: "'a double_ended_queue \<Rightarrow> 'a list" where
  "deq_list q = drop (deq_head q) (deq_data q)"

definition deq_inv :: "'a double_ended_queue \<Rightarrow> bool" where
  "deq_inv q \<longleftrightarrow> deq_head q \<le> length (deq_data q)"

lemma deq_push_back_list [simp]:
  "deq_inv q \<Longrightarrow> deq_list (deq_push_back v q) = deq_list q @ [v]"
  "deq_inv q \<Longrightarrow> deq_inv (deq_push_back v q)"
  by (simp_all add: deq_list_def deq_push_back_def deq_inv_def)

lemma deq_front_list: "deq_front q = (case deq_list q of [] \<Rightarrow> None | x # _ \<Rightarrow> Some x)"
  by (auto simp: deq_front_def deq_list_def Cons_nth_drop_Suc [symmetric] split: list.splits)

lemma deq_size_list [simp]: "deq_size q = length (deq_list q)"
  by (simp add: deq_size_def deq_list_def)

lemma deq_pop_front_list:
  "deq_list q \<noteq> [] \<Longrightarrow> deq_list (deq_pop_front q) = tl (deq_list q)"
  "deq_list q \<noteq> [] \<Longrightarrow> deq_inv (deq_pop_front q)"
  by (auto simp: deq_list_def deq_pop_front_def deq_inv_def tl_drop drop_Suc)

end
