(* ===== verification/KernelState.thy ===== *)
theory KernelState
  imports VirtualMemory Containers "HOL-Library.Monad_Syntax"
begin

text \<open>
  The objects the kernel's processes, files and interprocess channels consist of, and the state
  that holds them.  The classes \<open>Process\<close> (\<open>kernel/src/scheduler.h\<close>), \<open>FileMetadata\<close>
  (\<open>storage/file_metadata.h\<close>), \<open>PipeBuffer\<close> and \<open>PipeEnd\<close> (\<open>filesystem_drivers/pipe.h\<close>),
  \<open>FIFOBuffer\<close>, \<open>SocketBuffers\<close>, \<open>SocketData\<close> (\<open>socket.h\<close>), \<open>InputBuffer\<close> (\<open>input.h\<close>) and
  the event queue (\<open>event.h\<close>) are records; the objects live in stores indexed by object
  addresses, 0 being the null pointer.

  \<open>new\<close> hands out the next object address and never an address a second time; what the kernel
  heap does to satisfy it is the subject of the heap theory.  A \<open>shared_ptr\<close> to a
  \<open>FileMetadata\<close> is an address together with the count of owners in the metadata.  An
  operation that returns an option has no defined result for \<open>None\<close>: it follows a null or
  dangling pointer or accesses memory outside an array.

  The scheduler's queue is the list of process addresses that the linked list of
  \<open>linked_list.h\<close> holds, head first; a node is named by the process it carries, since a
  process is queued once.
\<close>

type_synonym obj = nat
type_synonym pid_t = u64
type_synonym FileDescriptor = u64

definition InvalidFD :: FileDescriptor where
  "InvalidFD = - 1"

section \<open>Processor state\<close>

record InterruptFrame =
  frame_ip :: u64
  frame_cs :: u64
  frame_flags :: u64
  frame_sp :: u64
  frame_ss :: u64

record CPUState =
  RSP :: u64
  RBX :: u64
  RCX :: u64
  RDX :: u64
  RSI :: u64
  RDI :: u64
  RBP :: u64
  R8 :: u64
  R9 :: u64
  R10 :: u64
  R11 :: u64
  R12 :: u64
  R13 :: u64
  R14 :: u64
  R15 :: u64
  FS :: u64
  GS :: u64
  RAX :: u64
  Frame :: InterruptFrame

section \<open>Events\<close>

text \<open>The filter union holds a process file descriptor; types at or past \<open>COUNT\<close> are invalid.\<close>

definition READY_TO_READ :: u32 where "READY_TO_READ = 1"
definition READY_TO_WRITE :: u32 where "READY_TO_WRITE = 2"
definition EventType_COUNT :: u32 where "EventType_COUNT = 3"

record Event =
  event_Type :: u32
  event_Filter :: FileDescriptor
  event_Data :: "u8 list"

record EventQueue =
  eq_ID :: u32
  eq_PID :: pid_t
  eq_Events :: "Event ring_buffer"
  eq_Filter :: "FileDescriptor list list"

section \<open>Processes\<close>

record Region =
  region_vaddr :: u64
  region_paddr :: u64
  region_length :: u64
  region_pages :: u64
  region_flags :: u64

definition pages_for :: "u64 \<Rightarrow> u64" where
  "pages_for bytes =
     (if bytes mod PAGE_SIZE = 0 then bytes div PAGE_SIZE else 1 + bytes div PAGE_SIZE)"

definition make_region :: "u64 \<Rightarrow> u64 \<Rightarrow> u64 \<Rightarrow> u64 \<Rightarrow> Region" where
  "make_region vaddress paddress bytes flag =
     \<lparr>region_vaddr = vaddress, region_paddr = paddress, region_length = bytes,
      region_pages = pages_for bytes, region_flags = flag\<rparr>"

datatype ProcessState = RUNNING | SLEEPING

record ZombieState =
  zombie_PID :: pid_t
  zombie_ReturnStatus :: u32

record Process =
  ProcessID :: pid_t
  State :: ProcessState
  Memories :: "Region list"
  next_region_vaddr :: u64
  ParentProcess :: pid_t
  WaitingList :: "pid_t list"
  Zombies :: "ZombieState list"
  FileDescriptors :: "FileDescriptor sparse_vector"
  EventQueues :: "EventQueue list"
  ExecutablePath :: string
  WorkingDirectory :: string
  CPU :: CPUState
  CPUExtra_address :: u64
  CPUExtra :: "u8 list"
  CPUExtraSet :: bool
  process_CR3 :: u64

text \<open>The processor state of a process that has not been loaded yet.\<close>

definition zero_cpu :: CPUState where
  "zero_cpu = \<lparr>RSP = 0, RBX = 0, RCX = 0, RDX = 0, RSI = 0, RDI = 0, RBP = 0, R8 = 0, R9 = 0,
     R10 = 0, R11 = 0, R12 = 0, R13 = 0, R14 = 0, R15 = 0, FS = 0, GS = 0, RAX = 0,
     Frame = \<lparr>frame_ip = 0, frame_cs = 0, frame_flags = 0, frame_sp = 0, frame_ss = 0\<rparr>\<rparr>"

text \<open>The default member initialisers; the address of the save area is that of the object.\<close>

definition new_process :: "u64 \<Rightarrow> Process" where
  "new_process extra =
     \<lparr>ProcessID = 0, State = RUNNING, Memories = [], next_region_vaddr = 0xf8000000,
      ParentProcess = - 1, WaitingList = [], Zombies = [], FileDescriptors = sv_empty,
      EventQueues = [], ExecutablePath = [], WorkingDirectory = [], CPU = zero_cpu,
      CPUExtra_address = extra, CPUExtra = replicate 512 0, CPUExtraSet = False,
      process_CR3 = 0\<rparr>"

fun sysfd_to_procfd_loop :: "FileDescriptor \<Rightarrow> (nat \<times> FileDescriptor) list \<Rightarrow> FileDescriptor" where
  "sysfd_to_procfd_loop predicate_sysfd [] = InvalidFD"
| "sysfd_to_procfd_loop predicate_sysfd ((procfd, sysfd) # rest) =
     (if sysfd = predicate_sysfd then of_nat procfd
      else sysfd_to_procfd_loop predicate_sysfd rest)"

definition sysfd_to_procfd :: "FileDescriptor \<Rightarrow> Process \<Rightarrow> FileDescriptor" where
  "sysfd_to_procfd predicate_sysfd p =
     sysfd_to_procfd_loop predicate_sysfd (sv_pairs InvalidFD (FileDescriptors p))"

definition add_memory_region :: "Region \<Rightarrow> Process \<Rightarrow> Process" where
  "add_memory_region r p = p\<lparr>Memories := r # Memories p\<rparr>"

fun remove_first_region :: "u64 \<Rightarrow> Region list \<Rightarrow> Region list" where
  "remove_first_region vaddr [] = []"
| "remove_first_region vaddr (r # rs) =
     (if region_vaddr r = vaddr then rs else r # remove_first_region vaddr rs)"

definition remove_memory_region :: "u64 \<Rightarrow> Process \<Rightarrow> Process" where
  "remove_memory_region vaddr p = p\<lparr>Memories := remove_first_region vaddr (Memories p)\<rparr>"

definition in_region :: "u64 \<Rightarrow> Region \<Rightarrow> bool" where
  "in_region vaddr r \<longleftrightarrow>
     (let first = region_vaddr r; past = first + region_length r
      in first \<le> vaddr \<and> vaddr < past)"

definition valid_address :: "u64 \<Rightarrow> Process \<Rightarrow> bool" where
  "valid_address vaddr p \<longleftrightarrow> vaddr \<noteq> 0 \<and> list_ex (in_region vaddr) (Memories p)"

definition set_return_value :: "u64 \<Rightarrow> Process \<Rightarrow> Process" where
  "set_return_value v p = p\<lparr>CPU := (CPU p)\<lparr>RAX := v\<rparr>\<rparr>"

definition unblock :: "bool \<Rightarrow> u64 \<Rightarrow> Process \<Rightarrow> Process" where
  "unblock setReturn returnValue p =
     (let p1 = (if setReturn then set_return_value returnValue p else p)
      in p1\<lparr>State := RUNNING\<rparr>)"

section \<open>Files\<close>

datatype FileType = Regular | Directory

text \<open>The drivers of the virtual file system, and the file system mounted as number \<open>n\<close>.\<close>

datatype FilesystemDriver = NullDriver | StdinDriver | StdoutDriver | PipesDriver | SocketsDriver
  | MountedFS nat

record FileMetadata =
  use_count :: nat
  offset :: u64
  meta_Type :: FileType
  meta_Name :: string
  FileDriver :: FilesystemDriver
  FileSize :: u64
  DriverData :: nat

definition make_metadata ::
    "FileType \<Rightarrow> string \<Rightarrow> FilesystemDriver \<Rightarrow> u64 \<Rightarrow> nat \<Rightarrow> FileMetadata" where
  "make_metadata type name file_driver file_size driver_data =
     \<lparr>use_count = 1, offset = 0, meta_Type = type, meta_Name = name, FileDriver = file_driver,
      FileSize = file_size, DriverData = driver_data\<rparr>"

record MountPoint =
  mount_Path :: string
  mount_FS :: FilesystemDriver

section \<open>Channels\<close>

record PipeBuffer =
  pipe_Data :: "u8 list"
  pipe_Offset :: u64
  ReadClosed :: bool
  WriteClosed :: bool
  PIDsWaitingOnReadToWrite :: "pid_t list"
  PIDsWaitingOnWriteToRead :: "pid_t list"

definition PIPE_BUFSZ :: nat where "PIPE_BUFSZ = 512"

datatype EndType = READ_END | WRITE_END

record PipeEnd =
  end_Buffer :: obj
  end_End :: EndType

record FIFOBuffer =
  fifo_Data :: "u8 list"
  fifo_Offset :: u64
  PIDsWaitingUntilRead :: "pid_t list"
  PIDsWaitingUntilWrite :: "pid_t list"

record SocketBuffers =
  TXBuffer :: FIFOBuffer
  RXBuffer :: FIFOBuffer
  RefCount :: u64

datatype SocketAddressType = UNBOUND | LENSOR16

record SocketAddress =
  address_Type :: SocketAddressType
  address_Data :: "u8 list"

text \<open>A pending connection: the address, the socket and the process of the client.\<close>

record SocketConnection =
  connection_Address :: SocketAddress
  connection_Socket :: obj
  connection_PID :: pid_t

datatype ClientServerRole = CLIENT | SERVER

record SocketData =
  socket_PID :: pid_t
  socket_FD :: FileDescriptor
  socket_Address :: SocketAddress
  WaitingOnConnection :: bool
  ConnectionQueue :: "SocketConnection double_ended_queue"
  ClientServer :: ClientServerRole
  socket_Buffers :: obj

record SocketBinding =
  binding_Address :: SocketAddress
  binding_Data :: obj

record InputBuffer =
  input_Data :: "u8 list"
  input_Offset :: u64
  PIDsWaiting :: "pid_t list"

text \<open>\<open>PAGE_SIZE - sizeof(usz) - sizeof(std::vector<pid_t>)\<close>; a vector is three words.\<close>

definition INPUT_BUFSZ :: nat where "INPUT_BUFSZ = 4064"

record NamedInputBuffer =
  named_Meta :: obj
  named_Name :: string
  named_Buffer :: obj

section \<open>The system\<close>

record 'd system =
  processes :: "obj \<Rightarrow> Process"
  ProcessQueue :: "obj list"
  CurrentProcess :: obj
  the_pid :: pid_t
  PageMapsToFree :: "u64 list"
  init_process :: obj
  fxsr_enabled :: bool
  fpu :: "u8 list"
  metas :: "obj \<Rightarrow> FileMetadata option"
  Files :: "obj sparse_vector"
  Mounts :: "MountPoint list"
  volumes :: "nat \<Rightarrow> 'd"
  dbgout :: "u8 list"
  pipe_ends :: "obj \<Rightarrow> PipeEnd option"
  pipe_buffers :: "obj \<Rightarrow> PipeBuffer"
  FreePipeBuffers :: "obj list"
  pipe_counter :: nat
  sockets :: "obj \<Rightarrow> SocketData option"
  socket_buffers :: "obj \<Rightarrow> SocketBuffers option"
  Bindings :: "SocketBinding list"
  input_buffers :: "obj \<Rightarrow> InputBuffer"
  InputBuffers :: "NamedInputBuffer list"
  FreeInputBuffers :: "obj list"
  Listeners :: "u32 \<Rightarrow> pid_t list"
  vm :: vmm
  ram :: "u64 \<Rightarrow> u8"
  next_obj :: obj

definition new_obj :: "'d system \<Rightarrow> obj \<times> 'd system" where
  "new_obj s = (next_obj s, s\<lparr>next_obj := Suc (next_obj s)\<rparr>)"

definition upd_process :: "obj \<Rightarrow> (Process \<Rightarrow> Process) \<Rightarrow> 'd system \<Rightarrow> 'd system" where
  "upd_process p f s = s\<lparr>processes := (processes s)(p := f (processes s p))\<rparr>"

abbreviation current :: "'d system \<Rightarrow> Process" where
  "current s \<equiv> processes s (CurrentProcess s)"

text \<open>\<open>Scheduler::process\<close>: the first queued process with the given identifier, or null.\<close>

fun find_process :: "(obj \<Rightarrow> Process) \<Rightarrow> pid_t \<Rightarrow> obj list \<Rightarrow> obj" where
  "find_process ps pid [] = 0"
| "find_process ps pid (p # rest) =
     (if ProcessID (ps p) = pid then p else find_process ps pid rest)"

definition process :: "'d system \<Rightarrow> pid_t \<Rightarrow> obj" where
  "process s pid = find_process (processes s) pid (ProcessQueue s)"

text \<open>
  The loop with which every channel runs the processes that wait on it: those that still exist
  are set running with the given value in \<open>RAX\<close>.
\<close>

definition wake :: "u64 \<Rightarrow> pid_t \<Rightarrow> 'd system \<Rightarrow> 'd system" where
  "wake returnValue pid s =
     (let p = process s pid in
      if p = 0 then s else upd_process p (unblock True returnValue) s)"

definition wake_all :: "u64 \<Rightarrow> pid_t list \<Rightarrow> 'd system \<Rightarrow> 'd system" where
  "wake_all returnValue pids s = fold (wake returnValue) pids s"

section \<open>Facts on processes and wake-ups\<close>

lemma unblock_simps [simp]:
  "ProcessID (unblock b v p) = ProcessID p"
  "State (unblock b v p) = RUNNING"
  "FileDescriptors (unblock b v p) = FileDescriptors p"
  "Memories (unblock b v p) = Memories p"
  "RAX (CPU (unblock True v p)) = v"
  "process_CR3 (unblock b v p) = process_CR3 p"
  "Zombies (unblock b v p) = Zombies p"
  "WaitingList (unblock b v p) = WaitingList p"
  "ParentProcess (unblock b v p) = ParentProcess p"
  by (simp_all add: unblock_def set_return_value_def Let_def)

lemma unblock_unblock [simp]: "unblock True v (unblock True v p) = unblock True v p"
  by (simp add: unblock_def set_return_value_def Let_def)

lemma find_process_in:
  "find_process ps pid q \<noteq> 0 \<Longrightarrow>
     find_process ps pid q \<in> set q \<and> ProcessID (ps (find_process ps pid q)) = pid"
  by (induction q) auto

lemma find_process_cong:
  "(\<And>p. p \<in> set q \<Longrightarrow> ProcessID (ps p) = ProcessID (ps' p)) \<Longrightarrow>
     find_process ps pid q = find_process ps' pid q"
  by (induction q) auto

lemma find_process_eq_0:
  "0 \<notin> set q \<Longrightarrow> find_process ps pid q = 0 \<longleftrightarrow> (\<forall>p \<in> set q. ProcessID (ps p) \<noteq> pid)"
  by (induction q) auto

lemma find_process_unique:
  assumes "p \<in> set q" "inj_on (\<lambda>p. ProcessID (ps p)) (set q)"
  shows "find_process ps (ProcessID (ps p)) q = p"
  using assms by (induction q) (auto simp: inj_on_def)

lemma process_in_queue: "process s pid \<noteq> 0 \<Longrightarrow> process s pid \<in> set (ProcessQueue s)"
  by (simp add: process_def find_process_in)

lemma process_ProcessID: "process s pid \<noteq> 0 \<Longrightarrow> ProcessID (processes s (process s pid)) = pid"
  by (simp add: process_def find_process_in)

lemma process_cong:
  assumes "ProcessQueue s' = ProcessQueue s"
    and "\<And>p. p \<in> set (ProcessQueue s) \<Longrightarrow> ProcessID (processes s' p) = ProcessID (processes s p)"
  shows "process s' = process s"
  using assms by (auto simp: process_def fun_eq_iff intro: find_process_cong)

lemma processes_upd_process [simp]:
  "processes (upd_process p f s) = (processes s)(p := f (processes s p))"
  by (simp add: upd_process_def)

lemma wake_processes:
  "processes (wake v pid s) p =
     (if p \<noteq> 0 \<and> p = process s pid then unblock True v (processes s p) else processes s p)"
  by (simp add: wake_def Let_def)

lemma wake_ProcessID [simp]: "ProcessID (processes (wake v pid s) p) = ProcessID (processes s p)"
  by (simp add: wake_processes)

lemma wake_queue [simp]: "ProcessQueue (wake v pid s) = ProcessQueue s"
  by (simp add: wake_def upd_process_def Let_def)

lemma process_wake [simp]: "process (wake v pid s) = process s"
  by (rule process_cong) simp_all

lemma wake_all_processes:
  "processes (wake_all v pids s) p =
     (if p \<noteq> 0 \<and> p \<in> process s ` set pids then unblock True v (processes s p) else processes s p)"
proof (induction pids arbitrary: s)
  case Nil
  then show ?case by (simp add: wake_all_def)
next
  case (Cons pid pids)
  have "wake_all v (pid # pids) s = wake_all v pids (wake v pid s)" by (simp add: wake_all_def)
  then show ?case using Cons [of "wake v pid s"] by (auto simp: wake_processes)
qed

text \<open>A wake-up changes no field of the system but the processes.\<close>

lemma wake_frame: "\<exists>f. wake v pid s = s\<lparr>processes := f\<rparr>"
  by (auto simp: wake_def upd_process_def Let_def intro: exI [of _ "processes s"])

lemma wake_all_eq: "wake_all v pids s = s\<lparr>processes := processes (wake_all v pids s)\<rparr>"
proof -
  have "\<exists>f. fold (wake v) pids s = s\<lparr>processes := f\<rparr>"
  proof (induction pids arbitrary: s)
    case Nil
    show ?case by (rule exI [of _ "processes s"]) simp
  next
    case (Cons pid pids)
    obtain f where f: "wake v pid s = s\<lparr>processes := f\<rparr>" using wake_frame by blast
    obtain g where "fold (wake v) pids (s\<lparr>processes := f\<rparr>) = s\<lparr>processes := f\<rparr>\<lparr>processes := g\<rparr>"
      using Cons by blast
    then show ?case using f by auto
  qed
  then show ?thesis by (auto simp: wake_all_def)
qed

lemma wake_all_frame [simp, frame]:
  "ProcessQueue (wake_all v pids s) = ProcessQueue s"
  "CurrentProcess (wake_all v pids s) = CurrentProcess s"
  "metas (wake_all v pids s) = metas s"
  "Files (wake_all v pids s) = Files s"
  "Mounts (wake_all v pids s) = Mounts s"
  "volumes (wake_all v pids s) = volumes s"
  "pipe_ends (wake_all v pids s) = pipe_ends s"
  "pipe_buffers (wake_all v pids s) = pipe_buffers s"
  "FreePipeBuffers (wake_all v pids s) = FreePipeBuffers s"
  "sockets (wake_all v pids s) = sockets s"
  "socket_buffers (wake_all v pids s) = socket_buffers s"
  "input_buffers (wake_all v pids s) = input_buffers s"
  "next_obj (wake_all v pids s) = next_obj s"
  "vm (wake_all v pids s) = vm s"
  by (subst wake_all_eq, simp)+

lemma wake_all_ProcessID [simp]:
  "ProcessID (processes (wake_all v pids s) p) = ProcessID (processes s p)"
  "FileDescriptors (processes (wake_all v pids s) p) = FileDescriptors (processes s p)"
  "Memories (processes (wake_all v pids s) p) = Memories (processes s p)"
  by (simp_all add: wake_all_processes)

lemma process_wake_all [simp]: "process (wake_all v pids s) = process s"
  by (rule process_cong) simp_all

text \<open>A region covers the addresses from its start up to its length, when it does not wrap.\<close>

lemma in_region_iff:
  assumes "unat (region_vaddr r) + unat (region_length r) < 18446744073709551616"
  shows "in_region a r \<longleftrightarrow>
           unat (region_vaddr r) \<le> unat a \<and> unat a < unat (region_vaddr r) + unat (region_length r)"
  unfolding in_region_def Let_def word_le_nat_alt word_less_nat_alt unat_u64_plus_small [OF assms]
  by (rule refl)

lemma div_round_up:
  fixes k m :: nat
  assumes "m < 4096"
  shows "(4096 * k + m + 4095) div 4096 = (if m = 0 then k else Suc k)"
proof (cases m)
  case 0
  then show ?thesis by simp
next
  case (Suc j)
  then have "4096 * k + m + 4095 = j + Suc k * 4096" by simp
  then have "(4096 * k + m + 4095) div 4096 = Suc k + j div 4096"
    by (simp only: div_mult_self1 numeral_neq_zero not_False_eq_True)
  then show ?thesis using Suc assms by simp
qed

lemma unat_pages_for: "unat (pages_for n) = (unat n + 4095) div 4096"
proof -
  define k where "k = unat n div 4096"
  define m where "m = unat n mod 4096"
  have n: "unat n = 4096 * k + m" "m < 4096" by (simp_all add: k_def m_def)
  have zero: "unat (n div PAGE_SIZE) = k" by (simp add: unat_div_PAGE_SIZE k_def)
  have "k < 18446744073709551615" using unat_less_2_64 [of n] n by linarith
  then have lt: "unat (1 :: u64) + unat (n div PAGE_SIZE) < 18446744073709551616"
    unfolding zero by simp
  have z: "n mod PAGE_SIZE = 0 \<longleftrightarrow> m = 0"
    using unat_mod_PAGE_SIZE [of n] m_def by (metis unat_0 word_unat_eq_iff)
  have one: "unat (1 + n div PAGE_SIZE) = Suc k"
    unfolding unat_u64_plus_small [OF lt] zero by simp
  show ?thesis
    unfolding n(1) div_round_up [OF n(2)] pages_for_def z using one zero by (cases "m = 0") simp_all
qed

end
