(* ===== verification/Channels.thy ===== *)
theory Channels
  imports KernelState
begin

text \<open>
  The byte channels behind file descriptors: pipes (\<open>filesystem_drivers/pipe.cpp\<close>), the two
  FIFOs of a socket (\<open>socket.h\<close>, \<open>socket.cpp\<close>), keyboard input (\<open>input.cpp\<close>) and the debug
  output (\<open>dbgout.h\<close>).  A read returns its result, the bytes it put into the caller's buffer
  and the new state; a write takes the caller's buffer as the function from an index to the
  byte there.  Results are those of the code: the number of bytes, \<open>-1\<close> for failure or end of
  file, \<open>-2\<close> when the caller has to block.

  The locale \<open>byte_channel\<close> is what the channels have in common: bytes leave in the order they
  entered, none is lost or invented, and the channel never holds more than its capacity.
\<close>

section \<open>Copies into and out of an array\<close>

text \<open>
  \<open>array_put\<close> is \<open>memcpy(Data + off, buffer, n)\<close>; \<open>array_pop\<close> is
  \<open>memmove(Data, Data + n, N - n)\<close>, which leaves the last \<open>n\<close> bytes as they are.
\<close>

definition array_put :: "nat \<Rightarrow> u8 list \<Rightarrow> u8 list \<Rightarrow> u8 list option" where
  "array_put off bytes data =
     (if off + length bytes \<le> length data
      then Some (take off data @ bytes @ drop (off + length bytes) data) else None)"

definition array_pop :: "nat \<Rightarrow> u8 list \<Rightarrow> (u8 list \<times> u8 list) option" where
  "array_pop n data =
     (if n \<le> length data
      then Some (take n data, drop n data @ drop (length data - n) data) else None)"

text \<open>Truncate a request that is larger than what the buffer holds or can hold.\<close>

definition truncate_count :: "u64 \<Rightarrow> u64 \<Rightarrow> u64" where
  "truncate_count limit byteCount = (if limit < byteCount then limit else byteCount)"

lemma unat_truncate_count [simp]: "unat (truncate_count limit n) = min (unat n) (unat limit)"
  by (simp add: truncate_count_def word_less_nat_alt min_def)

definition user_bytes :: "(nat \<Rightarrow> u8) \<Rightarrow> u64 \<Rightarrow> u8 list" where
  "user_bytes buffer n = map buffer [0..<unat n]"

lemma length_user_bytes [simp]: "length (user_bytes buffer n) = unat n"
  by (simp add: user_bytes_def)

lemma user_bytes_0 [simp]: "user_bytes buffer 0 = []"
  by (simp add: user_bytes_def)

lemma array_put_spec:
  assumes "off + length bytes \<le> length data"
  obtains data' where "array_put off bytes data = Some data'" "length data' = length data"
    "take (off + length bytes) data' = take off data @ bytes"
  using assms by (auto simp: array_put_def)

lemma array_pop_spec:
  assumes "n \<le> off" "off \<le> length data"
  obtains data' where "array_pop n data = Some (take n data, data')" "length data' = length data"
    "take (off - n) data' = drop n (take off data)"
  using assms by (auto simp: array_pop_def drop_take min_def)

section \<open>Pipes\<close>

definition upd_pipe :: "obj \<Rightarrow> (PipeBuffer \<Rightarrow> PipeBuffer) \<Rightarrow> 'd system \<Rightarrow> 'd system" where
  "upd_pipe b f s = s\<lparr>pipe_buffers := (pipe_buffers s)(b := f (pipe_buffers s b))\<rparr>"

definition new_pipe_buffer :: PipeBuffer where
  "new_pipe_buffer =
     \<lparr>pipe_Data = replicate PIPE_BUFSZ 0, pipe_Offset = 0, ReadClosed = False,
      WriteClosed = False, PIDsWaitingOnReadToWrite = [], PIDsWaitingOnWriteToRead = []\<rparr>"

definition pipe_clear :: "PipeBuffer \<Rightarrow> PipeBuffer" where
  "pipe_clear b =
     b\<lparr>PIDsWaitingOnReadToWrite := [], PIDsWaitingOnWriteToRead := [],
       pipe_Data := replicate (length (pipe_Data b)) 0, pipe_Offset := 0,
       ReadClosed := False, WriteClosed := False\<rparr>"

definition pipe_read :: "obj \<Rightarrow> u64 \<Rightarrow> 'd system \<Rightarrow> (int \<times> u8 list \<times> 'd system) option" where
  "pipe_read meta byteCount s =
     (if meta = 0 then Some (- 1, [], s)
      else do {
        md \<leftarrow> metas s meta;
        let pipe = DriverData md;
        if pipe = 0 then Some (- 1, [], s)
        else do {
          pe \<leftarrow> pipe_ends s pipe;
          let b = end_Buffer pe;
          let pb = pipe_buffers s b;
          if pipe_Offset pb = 0 then
            (if WriteClosed pb then Some (- 1, [], s)
             else Some (- 2, [],
               upd_pipe b (\<lambda>pb. pb\<lparr>PIDsWaitingOnWriteToRead :=
                 PIDsWaitingOnWriteToRead pb @ [ProcessID (current s)]\<rparr>) s))
          else do {
            let n = truncate_count (pipe_Offset pb) byteCount;
            (bytes, data) \<leftarrow> array_pop (unat n) (pipe_Data pb);
            let s1 = upd_pipe b (\<lambda>pb. pb\<lparr>pipe_Data := data, pipe_Offset := pipe_Offset pb - n\<rparr>) s;
            let s2 = wake_all (- 2) (PIDsWaitingOnReadToWrite pb) s1;
            let s3 = upd_pipe b (\<lambda>pb. pb\<lparr>PIDsWaitingOnReadToWrite := []\<rparr>) s2;
            Some (sint n, bytes, s3)
          }
        }
      })"

definition pipe_write ::
    "obj \<Rightarrow> u64 \<Rightarrow> (nat \<Rightarrow> u8) \<Rightarrow> 'd system \<Rightarrow> (int \<times> 'd system) option" where
  "pipe_write meta byteCount buffer s =
     (if meta = 0 then Some (- 1, s)
      else do {
        md \<leftarrow> metas s meta;
        let pipe = DriverData md;
        if pipe = 0 then Some (- 1, s)
        else if byteCount = 0 then Some (0, s)
        else do {
          let n = truncate_count (of_nat PIPE_BUFSZ) byteCount;
          pe \<leftarrow> pipe_ends s pipe;
          let b = end_Buffer pe;
          let pb = pipe_buffers s b;
          if of_nat PIPE_BUFSZ < pipe_Offset pb + n then
            Some (- 2, upd_pipe b (\<lambda>pb. pb\<lparr>PIDsWaitingOnReadToWrite :=
              PIDsWaitingOnReadToWrite pb @ [ProcessID (current s)]\<rparr>) s)
          else do {
            data \<leftarrow> array_put (unat (pipe_Offset pb)) (user_bytes buffer n) (pipe_Data pb);
            let s1 = upd_pipe b (\<lambda>pb. pb\<lparr>pipe_Data := data, pipe_Offset := pipe_Offset pb + n\<rparr>) s;
            let s2 = wake_all (- 2) (PIDsWaitingOnWriteToRead pb) s1;
            let s3 = upd_pipe b (\<lambda>pb. pb\<lparr>PIDsWaitingOnWriteToRead := []\<rparr>) s2;
            Some (sint n, s3)
          }
        }
      })"

text \<open>
  \<open>PipeDriver::close\<close>.  The vector of named pipes stays empty, since \<open>open\<close> never returns, so
  the search in it removes nothing.
\<close>

definition pipe_close :: "obj \<Rightarrow> 'd system \<Rightarrow> 'd system option" where
  "pipe_close meta s =
     (if meta = 0 then Some s
      else do {
        md \<leftarrow> metas s meta;
        pe \<leftarrow> pipe_ends s (DriverData md);
        let b = end_Buffer pe;
        let pb = pipe_buffers s b;
        if (case end_End pe of READ_END \<Rightarrow> ReadClosed pb | WRITE_END \<Rightarrow> WriteClosed pb) then Some s
        else do {
          let s1 = (case end_End pe of
              READ_END \<Rightarrow>
                upd_pipe b (\<lambda>pb. pb\<lparr>PIDsWaitingOnReadToWrite := []\<rparr>)
                  (wake_all (- 1) (PIDsWaitingOnReadToWrite pb)
                    (upd_pipe b (\<lambda>pb. pb\<lparr>ReadClosed := True\<rparr>) s))
            | WRITE_END \<Rightarrow>
                upd_pipe b (\<lambda>pb. pb\<lparr>PIDsWaitingOnWriteToRead := []\<rparr>)
                  (wake_all (- 1) (PIDsWaitingOnWriteToRead pb)
                    (upd_pipe b (\<lambda>pb. pb\<lparr>WriteClosed := True\<rparr>) s)));
          let s2 = s1\<lparr>pipe_ends := (pipe_ends s1)(DriverData md := None)\<rparr>;
          let pb2 = pipe_buffers s2 b;
          if \<not> ReadClosed pb2 \<or> \<not> WriteClosed pb2 then Some s2
          else if b \<in> set (FreePipeBuffers s2) then Some s2
          else Some ((upd_pipe b pipe_clear s2)
                       \<lparr>FreePipeBuffers := FreePipeBuffers s2 @ [b]\<rparr>)
        }
      })"

text \<open>The decimal numeral that \<open>std::format\<close> prints for the counter of anonymous pipes.\<close>

fun decimal :: "nat \<Rightarrow> string" where
  "decimal n = (if n < 10 then [char_of (n + 48)]
                else decimal (n div 10) @ [char_of (n mod 10 + 48)])"

declare decimal.simps [simp del]

definition lay_pipe :: "'d system \<Rightarrow> (obj \<times> obj) \<times> 'd system" where
  "lay_pipe s =
     (let (pipe, s1) =
            (if FreePipeBuffers s = []
             then let (p, s') = new_obj s
                  in (p, s'\<lparr>pipe_buffers := (pipe_buffers s')(p := new_pipe_buffer)\<rparr>)
             else (last (FreePipeBuffers s),
                   s\<lparr>FreePipeBuffers := butlast (FreePipeBuffers s)\<rparr>));
          (readEnd, s2) = new_obj s1;
          s3 = s2\<lparr>pipe_ends := (pipe_ends s2)(readEnd \<mapsto>
                 \<lparr>end_Buffer = pipe, end_End = READ_END\<rparr>)\<rparr>;
          (writeEnd, s4) = new_obj s3;
          s5 = s4\<lparr>pipe_ends := (pipe_ends s4)(writeEnd \<mapsto>
                 \<lparr>end_Buffer = pipe, end_End = WRITE_END\<rparr>)\<rparr>;
          s6 = s5\<lparr>pipe_counter := pipe_counter s5 + 1\<rparr>;
          path = ''panon'' @ decimal (pipe_counter s6);
          (readMeta, s7) = new_obj s6;
          s8 = s7\<lparr>metas := (metas s7)(readMeta \<mapsto>
                 make_metadata Regular path PipesDriver (of_nat PIPE_BUFSZ) readEnd)\<rparr>;
          (writeMeta, s9) = new_obj s8;
          s10 = s9\<lparr>metas := (metas s9)(writeMeta \<mapsto>
                 make_metadata Regular path PipesDriver (of_nat PIPE_BUFSZ) writeEnd)\<rparr>
      in ((readMeta, writeMeta), s10))"

section \<open>The FIFO of a socket\<close>

definition fifo_clear :: "FIFOBuffer \<Rightarrow> FIFOBuffer" where
  "fifo_clear f = f\<lparr>fifo_Data := replicate (length (fifo_Data f)) 0, fifo_Offset := 0,
     PIDsWaitingUntilRead := [], PIDsWaitingUntilWrite := []\<rparr>"

text \<open>
  \<open>FIFOBuffer::read\<close> and \<open>write\<close> return the new buffer and the processes to set running with
  the value \<open>-2\<close>.
\<close>

definition fifo_read :: "pid_t \<Rightarrow> u64 \<Rightarrow> FIFOBuffer \<Rightarrow>
    (int \<times> u8 list \<times> pid_t list \<times> FIFOBuffer) option" where
  "fifo_read pid byteCount f =
     (if fifo_Offset f = 0
      then Some (- 2, [], [], f\<lparr>PIDsWaitingUntilWrite := PIDsWaitingUntilWrite f @ [pid]\<rparr>)
      else do {
        let n = truncate_count (fifo_Offset f) byteCount;
        (bytes, data) \<leftarrow> array_pop (unat n) (fifo_Data f);
        Some (sint n, bytes, PIDsWaitingUntilRead f,
              f\<lparr>fifo_Data := data, fifo_Offset := fifo_Offset f - n, PIDsWaitingUntilRead := []\<rparr>)
      })"

definition fifo_write :: "pid_t \<Rightarrow> u64 \<Rightarrow> (nat \<Rightarrow> u8) \<Rightarrow> FIFOBuffer \<Rightarrow>
    (int \<times> pid_t list \<times> FIFOBuffer) option" where
  "fifo_write pid byteCount buffer f =
     (if of_nat (length (fifo_Data f)) < fifo_Offset f + byteCount
      then Some (- 2, [], f\<lparr>PIDsWaitingUntilRead := PIDsWaitingUntilRead f @ [pid]\<rparr>)
      else do {
        data \<leftarrow> array_put (unat (fifo_Offset f)) (user_bytes buffer byteCount) (fifo_Data f);
        Some (sint byteCount, PIDsWaitingUntilWrite f,
              f\<lparr>fifo_Data := data, fifo_Offset := fifo_Offset f + byteCount,
                PIDsWaitingUntilWrite := []\<rparr>)
      })"

section \<open>Sockets\<close>

definition SOCKET_TX_BUFFER_SIZE :: nat where "SOCKET_TX_BUFFER_SIZE = 2048"
definition SOCKET_RX_BUFFER_SIZE :: nat where "SOCKET_RX_BUFFER_SIZE = 2040"

definition new_fifo :: "nat \<Rightarrow> FIFOBuffer" where
  "new_fifo n = \<lparr>fifo_Data = replicate n 0, fifo_Offset = 0, PIDsWaitingUntilRead = [],
     PIDsWaitingUntilWrite = []\<rparr>"

definition new_socket_buffers :: SocketBuffers where
  "new_socket_buffers = \<lparr>TXBuffer = new_fifo SOCKET_TX_BUFFER_SIZE,
     RXBuffer = new_fifo SOCKET_RX_BUFFER_SIZE, RefCount = 1\<rparr>"

definition unbound :: SocketAddress where
  "unbound = \<lparr>address_Type = UNBOUND, address_Data = replicate 16 0\<rparr>"

definition address_eq :: "SocketAddress \<Rightarrow> SocketAddress \<Rightarrow> bool" where
  "address_eq a b \<longleftrightarrow>
     address_Type a = address_Type b \<and>
     (case address_Type a of
        UNBOUND \<Rightarrow> True
      | LENSOR16 \<Rightarrow> take 16 (address_Data a) = take 16 (address_Data b))"

definition new_socket_data :: SocketData where
  "new_socket_data = \<lparr>socket_PID = - 1, socket_FD = InvalidFD, socket_Address = unbound,
     WaitingOnConnection = False, ConnectionQueue = deq_empty, ClientServer = CLIENT,
     socket_Buffers = 0\<rparr>"

definition socket_open :: "'d system \<Rightarrow> obj \<times> 'd system" where
  "socket_open s =
     (let (data, s1) = new_obj s;
          s2 = s1\<lparr>sockets := (sockets s1)(data \<mapsto>
                 new_socket_data\<lparr>socket_PID := ProcessID (current s1)\<rparr>)\<rparr>;
          (meta, s3) = new_obj s2
      in (meta, s3\<lparr>metas := (metas s3)(meta \<mapsto>
            make_metadata Regular ''new_socket'' SocketsDriver (of_nat SOCKET_RX_BUFFER_SIZE) data)\<rparr>))"

text \<open>\<open>SocketDriver::socket\<close>; every domain but \<open>LENSOR\<close> (0) fails.\<close>

definition socket_socket :: "u32 \<Rightarrow> 'd system \<Rightarrow> (obj \<times> 'd system) option" where
  "socket_socket domain s =
     (if domain = 0 then do {
        let (f, s1) = socket_open s;
        md \<leftarrow> metas s1 f;
        sd \<leftarrow> sockets s1 (DriverData md);
        let (buffers, s2) = new_obj s1;
        Some (f, s2\<lparr>socket_buffers := (socket_buffers s2)(buffers \<mapsto> new_socket_buffers),
                    sockets := (sockets s2)(DriverData md \<mapsto> sd\<lparr>socket_Buffers := buffers\<rparr>)\<rparr>)
      }
      else Some (0, s))"

fun find_binding :: "SocketAddress \<Rightarrow> SocketBinding list \<Rightarrow> obj" where
  "find_binding a [] = 0"
| "find_binding a (b # bs) =
     (if address_eq (binding_Address b) a then binding_Data b else find_binding a bs)"

definition get_bound_socket :: "SocketAddress \<Rightarrow> 'd system \<Rightarrow> obj" where
  "get_bound_socket address s = find_binding address (Bindings s)"

definition socket_bind :: "obj \<Rightarrow> SocketAddress \<Rightarrow> 'd system \<Rightarrow> (bool \<times> 'd system) option" where
  "socket_bind sock address s =
     (if list_ex (\<lambda>b. address_eq (binding_Address b) address) (Bindings s) then Some (False, s)
      else do {
        sd \<leftarrow> sockets s sock;
        Some (True, s\<lparr>sockets := (sockets s)(sock \<mapsto> sd\<lparr>socket_Address := address\<rparr>),
                      Bindings := Bindings s @ [\<lparr>binding_Address = address, binding_Data = sock\<rparr>]\<rparr>)
      })"

definition socket_unbind :: "SocketAddress \<Rightarrow> 'd system \<Rightarrow> 'd system" where
  "socket_unbind addr s =
     s\<lparr>Bindings := filter (\<lambda>b. \<not> address_eq (binding_Address b) addr) (Bindings s)\<rparr>"

definition socket_close :: "obj \<Rightarrow> 'd system \<Rightarrow> 'd system option" where
  "socket_close meta s =
     (if meta = 0 then Some s
      else do {
        md \<leftarrow> metas s meta;
        let data = DriverData md;
        if data = 0 then Some s
        else do {
          sd \<leftarrow> sockets s data;
          s1 \<leftarrow>
            (if socket_Buffers sd = 0 then Some s
             else do {
               sb \<leftarrow> socket_buffers s (socket_Buffers sd);
               let sb1 = sb\<lparr>RefCount := RefCount sb - 1\<rparr>;
               let s' = s\<lparr>socket_buffers := (socket_buffers s)(socket_Buffers sd \<mapsto> sb1)\<rparr>;
               if RefCount sb1 = 0 then
                 let s'' = (if address_Type (socket_Address sd) \<noteq> UNBOUND
                            then socket_unbind (socket_Address sd) s' else s')
                 in Some (s''\<lparr>socket_buffers := (socket_buffers s'')(socket_Buffers sd := None)\<rparr>)
               else Some s'
             });
          Some (s1\<lparr>sockets := (sockets s1)(data := None)\<rparr>)
        }
      })"

definition socket_read :: "obj \<Rightarrow> u64 \<Rightarrow> 'd system \<Rightarrow> (int \<times> u8 list \<times> 'd system) option" where
  "socket_read meta byteCount s =
     (if meta = 0 then Some (- 1, [], s)
      else do {
        md \<leftarrow> metas s meta;
        if DriverData md = 0 then Some (- 1, [], s)
        else do {
          sd \<leftarrow> sockets s (DriverData md);
          let buffers = socket_Buffers sd;
          if buffers = 0 then Some (- 1, [], s)
          else do {
            sb \<leftarrow> socket_buffers s buffers;
            case ClientServer sd of
              CLIENT \<Rightarrow> do {
                (rc, bytes, pids, f) \<leftarrow> fifo_read (ProcessID (current s)) byteCount (TXBuffer sb);
                Some (rc, bytes, wake_all (- 2) pids
                  (s\<lparr>socket_buffers := (socket_buffers s)(buffers \<mapsto> sb\<lparr>TXBuffer := f\<rparr>)\<rparr>))
              }
            | SERVER \<Rightarrow> do {
                (rc, bytes, pids, f) \<leftarrow> fifo_read (ProcessID (current s)) byteCount (RXBuffer sb);
                Some (rc, bytes, wake_all (- 2) pids
                  (s\<lparr>socket_buffers := (socket_buffers s)(buffers \<mapsto> sb\<lparr>RXBuffer := f\<rparr>)\<rparr>))
              }
          }
        }
      })"

definition socket_write ::
    "obj \<Rightarrow> u64 \<Rightarrow> (nat \<Rightarrow> u8) \<Rightarrow> 'd system \<Rightarrow> (int \<times> 'd system) option" where
  "socket_write meta byteCount buffer s =
     (if meta = 0 then Some (- 1, s)
      else do {
        md \<leftarrow> metas s meta;
        if DriverData md = 0 then Some (- 1, s)
        else do {
          sd \<leftarrow> sockets s (DriverData md);
          let buffers = socket_Buffers sd;
          if buffers = 0 then Some (- 1, s)
          else do {
            sb \<leftarrow> socket_buffers s buffers;
            case ClientServer sd of
              CLIENT \<Rightarrow> do {
                (rc, pids, f) \<leftarrow> fifo_write (ProcessID (current s)) byteCount buffer (RXBuffer sb);
                Some (rc, wake_all (- 2) pids
                  (s\<lparr>socket_buffers := (socket_buffers s)(buffers \<mapsto> sb\<lparr>RXBuffer := f\<rparr>)\<rparr>))
              }
            | SERVER \<Rightarrow> do {
                (rc, pids, f) \<leftarrow> fifo_write (ProcessID (current s)) byteCount buffer (TXBuffer sb);
                Some (rc, wake_all (- 2) pids
                  (s\<lparr>socket_buffers := (socket_buffers s)(buffers \<mapsto> sb\<lparr>TXBuffer := f\<rparr>)\<rparr>))
              }
          }
        }
      })"

section \<open>Keyboard input and debug output\<close>

definition upd_input :: "obj \<Rightarrow> (InputBuffer \<Rightarrow> InputBuffer) \<Rightarrow> 'd system \<Rightarrow> 'd system" where
  "upd_input b f s = s\<lparr>input_buffers := (input_buffers s)(b := f (input_buffers s b))\<rparr>"

definition input_close :: "obj \<Rightarrow> 'd system \<Rightarrow> 'd system option" where
  "input_close file s =
     (if file = 0 then Some s
      else do {
        md \<leftarrow> metas s file;
        Some (s\<lparr>FreeInputBuffers := FreeInputBuffers s @ [DriverData md]\<rparr>)
      })"

text \<open>
  \<open>InputDriver::open\<close>: an existing buffer of that name is returned through its weak pointer,
  which is null once the file has been closed; otherwise a closed buffer is used again as it
  is, or a new one is made.
\<close>

fun find_input :: "string \<Rightarrow> NamedInputBuffer list \<Rightarrow> NamedInputBuffer option" where
  "find_input path [] = None"
| "find_input path (n # ns) = (if named_Name n = path then Some n else find_input path ns)"

definition input_open :: "string \<Rightarrow> 'd system \<Rightarrow> obj \<times> 'd system" where
  "input_open path s =
     (case find_input path (InputBuffers s) of
        Some n \<Rightarrow>
          (case metas s (named_Meta n) of
             None \<Rightarrow> (0, s)
           | Some md \<Rightarrow> (named_Meta n,
               s\<lparr>metas := (metas s)(named_Meta n \<mapsto> md\<lparr>use_count := use_count md + 1\<rparr>)\<rparr>))
      | None \<Rightarrow>
          let (inp, s1) =
                (if FreeInputBuffers s = []
                 then let (b, s') = new_obj s
                      in (b, s'\<lparr>input_buffers := (input_buffers s')(b :=
                               \<lparr>input_Data = replicate INPUT_BUFSZ 0, input_Offset = 0, PIDsWaiting = []\<rparr>)\<rparr>)
                 else (last (FreeInputBuffers s),
                       s\<lparr>FreeInputBuffers := butlast (FreeInputBuffers s)\<rparr>));
              (f, s2) = new_obj s1;
              s3 = s2\<lparr>metas := (metas s2)(f \<mapsto>
                     make_metadata Regular path StdinDriver (of_nat INPUT_BUFSZ) inp)\<rparr>
          in (f, s3\<lparr>InputBuffers := InputBuffers s3 @
                   [\<lparr>named_Meta = f, named_Name = path, named_Buffer = inp\<rparr>]\<rparr>))"

definition input_read :: "obj \<Rightarrow> u64 \<Rightarrow> 'd system \<Rightarrow> (int \<times> u8 list \<times> 'd system) option" where
  "input_read file bytes s =
     (if file = 0 then Some (- 1, [], s)
      else do {
        md \<leftarrow> metas s file;
        let inp = DriverData md;
        if inp = 0 then Some (- 1, [], s)
        else do {
          let ib = input_buffers s inp;
          if input_Offset ib = 0 then
            Some (- 2, [], upd_input inp (\<lambda>ib. ib\<lparr>PIDsWaiting :=
              PIDsWaiting ib @ [ProcessID (current s)]\<rparr>) s)
          else do {
            let n = truncate_count (input_Offset ib) bytes;
            (out, data) \<leftarrow> array_pop (unat n) (input_Data ib);
            Some (sint n, out,
              upd_input inp (\<lambda>ib. ib\<lparr>input_Data := data, input_Offset := input_Offset ib - n\<rparr>) s)
          }
        }
      })"

definition input_room :: "u64 \<Rightarrow> u64 \<Rightarrow> u64" where
  "input_room off bytes =
     (if of_nat INPUT_BUFSZ < off + bytes then of_nat INPUT_BUFSZ - off else bytes)"

definition input_write ::
    "obj \<Rightarrow> u64 \<Rightarrow> (nat \<Rightarrow> u8) \<Rightarrow> 'd system \<Rightarrow> (int \<times> 'd system) option" where
  "input_write file bytes buffer s =
     (if file = 0 then Some (- 1, s)
      else do {
        md \<leftarrow> metas s file;
        let inp = DriverData md;
        if inp = 0 then Some (- 1, s)
        else do {
          let ib = input_buffers s inp;
          let n = input_room (input_Offset ib) bytes;
          data \<leftarrow> array_put (unat (input_Offset ib)) (user_bytes buffer n) (input_Data ib);
          let s1 = upd_input inp (\<lambda>ib. ib\<lparr>input_Data := data, input_Offset := input_Offset ib + n\<rparr>) s;
          let s2 = wake_all (- 2) (PIDsWaiting ib) s1;
          Some (sint n, upd_input inp (\<lambda>ib. ib\<lparr>PIDsWaiting := []\<rparr>) s2)
        }
      })"

definition dbgout_write :: "u64 \<Rightarrow> (nat \<Rightarrow> u8) \<Rightarrow> 'd system \<Rightarrow> int \<times> 'd system" where
  "dbgout_write n buffer s = (sint n, s\<lparr>dbgout := dbgout s @ user_bytes buffer n\<rparr>)"

section \<open>What a byte channel promises\<close>

datatype ('r, 'w) channel_call = Read_call 'r | Write_call 'w

text \<open>
  A sequence of reads and writes: the bytes the writes accepted, the bytes the reads returned,
  and the final state.
\<close>

fun channel_run ::
    "('r \<Rightarrow> 's \<Rightarrow> (int \<times> u8 list \<times> 's) option) \<Rightarrow> ('w \<Rightarrow> 's \<Rightarrow> (int \<times> 's) option) \<Rightarrow>
     ('w \<Rightarrow> u8 list) \<Rightarrow> ('r, 'w) channel_call list \<Rightarrow> 's \<Rightarrow> (u8 list \<times> u8 list \<times> 's) option" where
  "channel_run rd wr payload [] s = Some ([], [], s)"
| "channel_run rd wr payload (Read_call r # cs) s = do {
     (rc, bytes, s1) \<leftarrow> rd r s;
     (written, got, s2) \<leftarrow> channel_run rd wr payload cs s1;
     Some (written, bytes @ got, s2)
   }"
| "channel_run rd wr payload (Write_call w # cs) s = do {
     (rc, s1) \<leftarrow> wr w s;
     (written, got, s2) \<leftarrow> channel_run rd wr payload cs s1;
     Some (take (nat rc) (payload w) @ written, got, s2)
   }"

fun channel_calls_valid :: "('r \<Rightarrow> bool) \<Rightarrow> ('w \<Rightarrow> bool) \<Rightarrow> ('r, 'w) channel_call list \<Rightarrow> bool" where
  "channel_calls_valid vr vw [] = True"
| "channel_calls_valid vr vw (Read_call r # cs) = (vr r \<and> channel_calls_valid vr vw cs)"
| "channel_calls_valid vr vw (Write_call w # cs) = (vw w \<and> channel_calls_valid vr vw cs)"

locale byte_channel =
  fixes channel_ok :: "'s \<Rightarrow> bool"
    and contents :: "'s \<Rightarrow> u8 list"
    and capacity :: nat
    and rd :: "'r \<Rightarrow> 's \<Rightarrow> (int \<times> u8 list \<times> 's) option"
    and wr :: "'w \<Rightarrow> 's \<Rightarrow> (int \<times> 's) option"
    and payload :: "'w \<Rightarrow> u8 list"
    and valid_rd :: "'r \<Rightarrow> bool"
    and valid_wr :: "'w \<Rightarrow> bool"
  assumes rd_law: "channel_ok s \<Longrightarrow> valid_rd r \<Longrightarrow>
      \<exists>rc bytes s'. rd r s = Some (rc, bytes, s') \<and> channel_ok s' \<and>
        contents s = bytes @ contents s' \<and> (rc < 0 \<longrightarrow> bytes = []) \<and>
        (0 \<le> rc \<longrightarrow> rc = int (length bytes))"
    and wr_law: "channel_ok s \<Longrightarrow> valid_wr w \<Longrightarrow>
      \<exists>rc s'. wr w s = Some (rc, s') \<and> channel_ok s' \<and>
        contents s' = contents s @ take (nat rc) (payload w) \<and> nat rc \<le> length (payload w)"
    and bounded: "channel_ok s \<Longrightarrow> length (contents s) \<le> capacity"
begin

lemma fifo_order:
  assumes "channel_ok s" "channel_calls_valid valid_rd valid_wr cs"
  shows "\<exists>written got s'. channel_run rd wr payload cs s = Some (written, got, s') \<and>
           channel_ok s' \<and> contents s @ written = got @ contents s' \<and>
           length (contents s') \<le> capacity"
  using assms
proof (induction cs arbitrary: s)
  case Nil
  then show ?case using bounded by simp
next
  case (Cons c cs)
  show ?case
  proof (cases c)
    case (Read_call r)
    obtain rc bytes s1 where 1: "rd r s = Some (rc, bytes, s1)" "channel_ok s1"
      "contents s = bytes @ contents s1"
      using rd_law [of s r] Cons.prems Read_call by auto
    obtain written got s2 where 2: "channel_run rd wr payload cs s1 = Some (written, got, s2)"
      "channel_ok s2" "contents s1 @ written = got @ contents s2" "length (contents s2) \<le> capacity"
      using Cons.IH [OF 1(2)] Cons.prems Read_call by auto
    show ?thesis using 1 2 Read_call by simp
  next
    case (Write_call w)
    obtain rc s1 where 1: "wr w s = Some (rc, s1)" "channel_ok s1"
      "contents s1 = contents s @ take (nat rc) (payload w)"
      using wr_law [of s w] Cons.prems Write_call by auto
    obtain written got s2 where 2: "channel_run rd wr payload cs s1 = Some (written, got, s2)"
      "channel_ok s2" "contents s1 @ written = got @ contents s2" "length (contents s2) \<le> capacity"
      using Cons.IH [OF 1(2)] Cons.prems Write_call by auto
    show ?thesis using 1 2 Write_call by simp
  qed
qed

text \<open>Every byte a reader gets was written, in order; on an empty channel, a prefix of it.\<close>

lemma empty_prefix:
  assumes "channel_ok s" "channel_calls_valid valid_rd valid_wr cs" "contents s = []"
    and "channel_run rd wr payload cs s = Some (written, got, s')"
  shows "got = take (length got) written"
  using fifo_order [OF assms(1,2)] assms(3,4) by auto

end

lemma sint_u64_small: "unat (n :: u64) < 9223372036854775808 \<Longrightarrow> sint n = int (unat n)"
proof -
  assume lt: "unat n < 9223372036854775808"
  have "sint n = signed_take_bit 63 (int (unat n))" unfolding sint_uint uint_nat by simp
  moreover have "signed_take_bit 63 (int m) = int m" if "m < 9223372036854775808" for m
    using that by (intro signed_take_bit_int_eq_self) simp_all
  ultimately show ?thesis using lt by metis
qed

section \<open>Pipes are byte channels\<close>

text \<open>
  The fourth and fifth conjunct: readers wait on an empty pipe only, writers on one that holds
  something, so that the two never wait for each other.
\<close>

definition pipe_ok :: "PipeBuffer \<Rightarrow> bool" where
  "pipe_ok pb \<longleftrightarrow>
     length (pipe_Data pb) = PIPE_BUFSZ \<and> unat (pipe_Offset pb) \<le> PIPE_BUFSZ \<and>
     (PIDsWaitingOnWriteToRead pb \<noteq> [] \<longrightarrow> pipe_Offset pb = 0) \<and>
     (PIDsWaitingOnReadToWrite pb \<noteq> [] \<longrightarrow> pipe_Offset pb \<noteq> 0)"

definition pipe_contents :: "PipeBuffer \<Rightarrow> u8 list" where
  "pipe_contents pb = take (unat (pipe_Offset pb)) (pipe_Data pb)"

lemma length_pipe_contents: "pipe_ok pb \<Longrightarrow> length (pipe_contents pb) = unat (pipe_Offset pb)"
  by (simp add: pipe_ok_def pipe_contents_def)

definition pipe_meta ::
    "(obj \<Rightarrow> FileMetadata option) \<Rightarrow> (obj \<Rightarrow> PipeEnd option) \<Rightarrow> obj \<Rightarrow> obj \<Rightarrow> bool" where
  "pipe_meta M E b meta \<longleftrightarrow>
     meta \<noteq> 0 \<and>
     (case M meta of
        None \<Rightarrow> False
      | Some md \<Rightarrow> DriverData md \<noteq> 0 \<and>
          (case E (DriverData md) of None \<Rightarrow> False | Some pe \<Rightarrow> end_Buffer pe = b))"

definition pipe_state_ok ::
    "(obj \<Rightarrow> FileMetadata option) \<Rightarrow> (obj \<Rightarrow> PipeEnd option) \<Rightarrow> obj \<Rightarrow> 'd system \<Rightarrow> bool" where
  "pipe_state_ok M E b s \<longleftrightarrow> metas s = M \<and> pipe_ends s = E \<and> pipe_ok (pipe_buffers s b)"

lemma pipe_metaE:
  assumes "pipe_meta M E b meta"
  obtains md pe where "meta \<noteq> 0" "M meta = Some md" "DriverData md \<noteq> 0"
    "E (DriverData md) = Some pe" "end_Buffer pe = b"
  using assms by (auto simp: pipe_meta_def split: option.splits)

lemma upd_pipe_frame [simp, frame]:
  "pipe_buffers (upd_pipe b f s) = (pipe_buffers s)(b := f (pipe_buffers s b))"
  "metas (upd_pipe b f s) = metas s"
  "pipe_ends (upd_pipe b f s) = pipe_ends s"
  "processes (upd_pipe b f s) = processes s"
  "ProcessQueue (upd_pipe b f s) = ProcessQueue s"
  "CurrentProcess (upd_pipe b f s) = CurrentProcess s"
  "Files (upd_pipe b f s) = Files s"
  "next_obj (upd_pipe b f s) = next_obj s"
  "FreePipeBuffers (upd_pipe b f s) = FreePipeBuffers s"
  by (simp_all add: upd_pipe_def)

lemma process_upd_pipe [simp]: "process (upd_pipe b f s) = process s"
  by (simp add: process_def fun_eq_iff)

text \<open>A read from a pipe that holds something.\<close>

lemma pipe_read_some:
  fixes n :: u64
  assumes "pipe_state_ok M E b s" "pipe_meta M E b meta" "pipe_Offset (pipe_buffers s b) \<noteq> 0"
  defines "k \<equiv> min (unat n) (unat (pipe_Offset (pipe_buffers s b)))"
  obtains s' where "pipe_read meta n s = Some (int k, take k (pipe_contents (pipe_buffers s b)), s')"
    "pipe_state_ok M E b s'"
    "pipe_contents (pipe_buffers s' b) = drop k (pipe_contents (pipe_buffers s b))"
    "PIDsWaitingOnReadToWrite (pipe_buffers s' b) = []"
    "\<And>p. processes s' p =
       (if p \<noteq> 0 \<and> p \<in> process s ` set (PIDsWaitingOnReadToWrite (pipe_buffers s b))
        then unblock True (- 2) (processes s p) else processes s p)"
    "ProcessQueue s' = ProcessQueue s"
proof -
  obtain md pe where m: "meta \<noteq> 0" "M meta = Some md" "DriverData md \<noteq> 0"
    "E (DriverData md) = Some pe" "end_Buffer pe = b"
    using assms(2) by (rule pipe_metaE)
  define pb where "pb = pipe_buffers s b"
  have ok: "pipe_ok pb" and eqs: "metas s = M" "pipe_ends s = E"
    using assms(1) by (auto simp: pipe_state_ok_def pb_def)
  define w where "w = truncate_count (pipe_Offset pb) n"
  have uw: "unat w = k" by (simp add: w_def k_def pb_def)
  have kle: "k \<le> unat (pipe_Offset pb)" by (simp add: k_def pb_def)
  have off: "unat (pipe_Offset pb) \<le> length (pipe_Data pb)" "unat (pipe_Offset pb) \<le> 512"
    and len: "length (pipe_Data pb) = 512" and nowait: "PIDsWaitingOnWriteToRead pb = []"
    using ok assms(3) by (auto simp: pipe_ok_def PIPE_BUFSZ_def pb_def)
  obtain data where d: "array_pop k (pipe_Data pb) = Some (take k (pipe_Data pb), data)"
    "length data = 512"
    "take (unat (pipe_Offset pb) - k) data = drop k (take (unat (pipe_Offset pb)) (pipe_Data pb))"
    using array_pop_spec [OF kle off(1)] len by metis
  have sw: "sint w = int k" using uw kle off by (subst sint_u64_small) auto
  have um: "unat (pipe_Offset pb - w) = unat (pipe_Offset pb) - k"
    using uw kle by (subst unat_u64_minus) (auto simp: word_le_nat_alt)
  define s1 where
    "s1 = upd_pipe b (\<lambda>pb. pb\<lparr>pipe_Data := data, pipe_Offset := pipe_Offset pb - w\<rparr>) s"
  define s' where "s' = upd_pipe b (\<lambda>pb. pb\<lparr>PIDsWaitingOnReadToWrite := []\<rparr>)
      (wake_all (- 2) (PIDsWaitingOnReadToWrite pb) s1)"
  have run: "pipe_read meta n s = Some (int k, take k (pipe_Data pb), s')"
    using m eqs assms(3) d(1) uw sw
    by (simp add: pipe_read_def pb_def [symmetric] w_def [symmetric] s'_def s1_def Let_def)
  have pb': "pipe_buffers s' b = pb\<lparr>pipe_Data := data, pipe_Offset := pipe_Offset pb - w,
               PIDsWaitingOnReadToWrite := []\<rparr>"
    by (simp add: s'_def s1_def pb_def)
  have tk: "take k (pipe_contents pb) = take k (pipe_Data pb)"
    using kle by (simp add: pipe_contents_def min_absorb1)
  show ?thesis
  proof (rule that)
    show "pipe_read meta n s = Some (int k, take k (pipe_contents (pipe_buffers s b)), s')"
      using run tk by (simp add: pb_def)
    show "pipe_state_ok M E b s'"
      using off um d(2) eqs nowait pb' by (simp add: pipe_state_ok_def pipe_ok_def PIPE_BUFSZ_def)
        (simp add: s'_def s1_def)
    show "pipe_contents (pipe_buffers s' b) = drop k (pipe_contents (pipe_buffers s b))"
      using um d(3) by (simp add: pipe_contents_def pb' pb_def [symmetric])
    show "PIDsWaitingOnReadToWrite (pipe_buffers s' b) = []" by (simp add: pb')
    show "processes s' p =
       (if p \<noteq> 0 \<and> p \<in> process s ` set (PIDsWaitingOnReadToWrite (pipe_buffers s b))
        then unblock True (- 2) (processes s p) else processes s p)" for p
      by (simp add: s'_def s1_def wake_all_processes pb_def)
    show "ProcessQueue s' = ProcessQueue s" by (simp add: s'_def s1_def)
  qed
qed

text \<open>A read from an empty pipe is the end of file once the write end is closed, else blocks.\<close>

lemma pipe_read_empty:
  assumes "pipe_state_ok M E b s" "pipe_meta M E b meta" "pipe_Offset (pipe_buffers s b) = 0"
  shows "pipe_read meta n s =
           (if WriteClosed (pipe_buffers s b) then Some (- 1, [], s)
            else Some (- 2, [], upd_pipe b (\<lambda>pb. pb\<lparr>PIDsWaitingOnWriteToRead :=
                   PIDsWaitingOnWriteToRead pb @ [ProcessID (current s)]\<rparr>) s))"
  using assms(1,3) by (rule_tac pipe_metaE [OF assms(2)])
    (auto simp: pipe_read_def pipe_state_ok_def Let_def)

lemma pipe_write_fits:
  fixes n :: u64
  assumes "pipe_state_ok M E b s" "pipe_meta M E b meta" "n \<noteq> 0"
  defines "k \<equiv> min (unat n) PIPE_BUFSZ"
  assumes "unat (pipe_Offset (pipe_buffers s b)) + k \<le> PIPE_BUFSZ"
  obtains s' where "pipe_write meta n buffer s = Some (int k, s')" "pipe_state_ok M E b s'"
    "pipe_contents (pipe_buffers s' b) =
       pipe_contents (pipe_buffers s b) @ take k (user_bytes buffer n)"
    "PIDsWaitingOnWriteToRead (pipe_buffers s' b) = []"
    "\<And>p. processes s' p =
       (if p \<noteq> 0 \<and> p \<in> process s ` set (PIDsWaitingOnWriteToRead (pipe_buffers s b))
        then unblock True (- 2) (processes s p) else processes s p)"
    "ProcessQueue s' = ProcessQueue s"
proof -
  obtain md pe where m: "meta \<noteq> 0" "M meta = Some md" "DriverData md \<noteq> 0"
    "E (DriverData md) = Some pe" "end_Buffer pe = b"
    using assms(2) by (rule pipe_metaE)
  define pb where "pb = pipe_buffers s b"
  have ok: "pipe_ok pb" and eqs: "metas s = M" "pipe_ends s = E"
    using assms(1) by (auto simp: pipe_state_ok_def pb_def)
  define w where "w = truncate_count 512 n"
  have uw: "unat w = k" by (simp add: w_def k_def PIPE_BUFSZ_def)
  have kpos: "0 < k" using assms(3) by (simp add: k_def PIPE_BUFSZ_def unat_gt_0)
  have fit: "unat (pipe_Offset pb) + unat w \<le> 512"
    using assms(5) uw by (simp add: pb_def PIPE_BUFSZ_def)
  have up: "unat (pipe_Offset pb + w) = unat (pipe_Offset pb) + k"
    using fit uw by (subst unat_u64_plus_small) auto
  have nowrap: "\<not> 512 < pipe_Offset pb + w" using fit up uw by (simp add: word_less_nat_alt)
  have len: "length (pipe_Data pb) = 512" using ok by (simp add: pipe_ok_def PIPE_BUFSZ_def)
  have "map buffer [0..<k] = take k (map buffer [0..<unat n])"
    by (simp add: k_def take_map)
  then have ub: "user_bytes buffer w = take k (user_bytes buffer n)"
    by (simp add: user_bytes_def uw)
  obtain data where d: "array_put (unat (pipe_Offset pb)) (user_bytes buffer w) (pipe_Data pb) = Some data"
    "length data = 512"
    "take (unat (pipe_Offset pb) + k) data =
       take (unat (pipe_Offset pb)) (pipe_Data pb) @ user_bytes buffer w"
    using array_put_spec [of "unat (pipe_Offset pb)" "user_bytes buffer w" "pipe_Data pb"] fit len uw
    by auto
  have sw: "sint w = int k" using uw fit by (subst sint_u64_small) auto
  define s1 where
    "s1 = upd_pipe b (\<lambda>pb. pb\<lparr>pipe_Data := data, pipe_Offset := pipe_Offset pb + w\<rparr>) s"
  define s' where "s' = upd_pipe b (\<lambda>pb. pb\<lparr>PIDsWaitingOnWriteToRead := []\<rparr>)
      (wake_all (- 2) (PIDsWaitingOnWriteToRead pb) s1)"
  have run: "pipe_write meta n buffer s = Some (int k, s')"
    using m eqs assms(3) d(1) nowrap sw
    by (simp add: pipe_write_def pb_def [symmetric] PIPE_BUFSZ_def w_def [symmetric] s'_def s1_def Let_def)
  have pb': "pipe_buffers s' b = pb\<lparr>pipe_Data := data, pipe_Offset := pipe_Offset pb + w,
               PIDsWaitingOnWriteToRead := []\<rparr>"
    by (simp add: s'_def s1_def pb_def)
  have nz: "pipe_Offset pb + w \<noteq> 0" using up kpos by (metis add_is_0 less_not_refl unat_0)
  show ?thesis
  proof (rule that)
    show "pipe_write meta n buffer s = Some (int k, s')" by (rule run)
    show "pipe_state_ok M E b s'"
      using fit up uw d(2) eqs nz pb' by (simp add: pipe_state_ok_def pipe_ok_def PIPE_BUFSZ_def)
        (simp add: s'_def s1_def)
    show "pipe_contents (pipe_buffers s' b) =
       pipe_contents (pipe_buffers s b) @ take k (user_bytes buffer n)"
      using up d(3) ub by (simp add: pipe_contents_def pb' pb_def [symmetric])
    show "PIDsWaitingOnWriteToRead (pipe_buffers s' b) = []" by (simp add: pb')
    show "processes s' p =
       (if p \<noteq> 0 \<and> p \<in> process s ` set (PIDsWaitingOnWriteToRead (pipe_buffers s b))
        then unblock True (- 2) (processes s p) else processes s p)" for p
      by (simp add: s'_def s1_def wake_all_processes pb_def)
    show "ProcessQueue s' = ProcessQueue s" by (simp add: s'_def s1_def)
  qed
qed

lemma pipe_write_full:
  fixes n :: u64
  assumes "pipe_state_ok M E b s" "pipe_meta M E b meta" "n \<noteq> 0"
  defines "k \<equiv> min (unat n) PIPE_BUFSZ"
  assumes "PIPE_BUFSZ < unat (pipe_Offset (pipe_buffers s b)) + k"
  shows "pipe_write meta n buffer s =
           Some (- 2, upd_pipe b (\<lambda>pb. pb\<lparr>PIDsWaitingOnReadToWrite :=
                  PIDsWaitingOnReadToWrite pb @ [ProcessID (current s)]\<rparr>) s)"
    and "pipe_Offset (pipe_buffers s b) \<noteq> 0"
proof -
  obtain md pe where m: "meta \<noteq> 0" "M meta = Some md" "DriverData md \<noteq> 0"
    "E (DriverData md) = Some pe" "end_Buffer pe = b"
    using assms(2) by (rule pipe_metaE)
  define pb where "pb = pipe_buffers s b"
  have ok: "unat (pipe_Offset pb) \<le> 512" and eqs: "metas s = M" "pipe_ends s = E"
    using assms(1) by (auto simp: pipe_state_ok_def pb_def pipe_ok_def PIPE_BUFSZ_def)
  define w where "w = truncate_count 512 n"
  have uw: "unat w = k" by (simp add: w_def k_def PIPE_BUFSZ_def)
  have "k \<le> 512" by (simp add: k_def PIPE_BUFSZ_def)
  then have up: "unat (pipe_Offset pb + w) = unat (pipe_Offset pb) + k"
    using ok uw by (subst unat_u64_plus_small) auto
  then have "512 < pipe_Offset pb + w"
    using assms(5) by (simp add: word_less_nat_alt pb_def PIPE_BUFSZ_def)
  then show "pipe_write meta n buffer s =
           Some (- 2, upd_pipe b (\<lambda>pb. pb\<lparr>PIDsWaitingOnReadToWrite :=
                  PIDsWaitingOnReadToWrite pb @ [ProcessID (current s)]\<rparr>) s)"
    using m eqs assms(3)
    by (simp add: pipe_write_def pb_def [symmetric] PIPE_BUFSZ_def w_def [symmetric] Let_def)
  show "pipe_Offset (pipe_buffers s b) \<noteq> 0"
    using assms(5) \<open>k \<le> 512\<close> by (auto simp: PIPE_BUFSZ_def)
qed

lemma pipe_state_ok_push:
  assumes "pipe_state_ok M E b s"
  shows "pipe_Offset (pipe_buffers s b) = 0 \<Longrightarrow>
      pipe_state_ok M E b (upd_pipe b (\<lambda>pb. pb\<lparr>PIDsWaitingOnWriteToRead := f pb\<rparr>) s)"
    and "pipe_Offset (pipe_buffers s b) \<noteq> 0 \<Longrightarrow>
      pipe_state_ok M E b (upd_pipe b (\<lambda>pb. pb\<lparr>PIDsWaitingOnReadToWrite := f pb\<rparr>) s)"
  using assms by (auto simp: pipe_state_ok_def pipe_ok_def)

interpretation pipe: byte_channel "pipe_state_ok M E b" "\<lambda>s. pipe_contents (pipe_buffers s b)" PIPE_BUFSZ
  "\<lambda>(meta, n). pipe_read meta n" "\<lambda>(meta, n, buffer). pipe_write meta n buffer"
  "\<lambda>(meta, n, buffer). user_bytes buffer n"
  "\<lambda>(meta, n). pipe_meta M E b meta" "\<lambda>(meta, n, buffer). pipe_meta M E b meta" for M E b
proof (unfold_locales, goal_cases)
  case (1 s r)
  obtain meta n where r: "r = (meta, n)" by (cases r)
  then have m: "pipe_meta M E b meta" using 1 by simp
  show ?case
  proof (cases "pipe_Offset (pipe_buffers s b) = 0")
    case True
    then show ?thesis
      using pipe_read_empty [OF 1(1) m True, of n] 1(1) pipe_state_ok_push(1) [OF 1(1) True]
      by (simp add: r pipe_contents_def split: if_splits)
  next
    case False
    show ?thesis
      by (rule pipe_read_some [OF 1(1) m False, of n])
         (use 1(1) in \<open>simp add: r length_pipe_contents pipe_state_ok_def\<close>)
  qed
next
  case (2 s w)
  obtain meta n buffer where w: "w = (meta, n, buffer)" by (cases w) auto
  then have m: "pipe_meta M E b meta" using 2 by simp
  show ?case
  proof (cases "n = 0")
    case True
    then show ?thesis
      using 2(1) by (rule_tac pipe_metaE [OF m])
        (auto simp: w pipe_write_def pipe_state_ok_def Let_def)
  next
    case False
    show ?thesis
    proof (cases "unat (pipe_Offset (pipe_buffers s b)) + min (unat n) PIPE_BUFSZ \<le> PIPE_BUFSZ")
      case True
      show ?thesis
        by (rule pipe_write_fits [OF 2(1) m False True, of buffer]) (simp add: w)
    next
      case full: False
      then have lt: "PIPE_BUFSZ < unat (pipe_Offset (pipe_buffers s b)) + min (unat n) PIPE_BUFSZ"
        by simp
      show ?thesis
        using pipe_write_full(1) [OF 2(1) m False lt, of buffer]
          pipe_write_full(2) [OF 2(1) m False lt] pipe_state_ok_push(2) [OF 2(1)]
        by (simp add: w pipe_contents_def)
    qed
  qed
next
  case (3 s)
  then show ?case by (simp add: pipe_state_ok_def pipe_ok_def pipe_contents_def)
qed

section \<open>The FIFOs of a socket are byte channels\<close>

definition fifo_ok :: "nat \<Rightarrow> FIFOBuffer \<Rightarrow> bool" where
  "fifo_ok N f \<longleftrightarrow> length (fifo_Data f) = N \<and> unat (fifo_Offset f) \<le> N"

definition fifo_contents :: "FIFOBuffer \<Rightarrow> u8 list" where
  "fifo_contents f = take (unat (fifo_Offset f)) (fifo_Data f)"

lemma fifo_read_law:
  assumes "fifo_ok N f" "N < 9223372036854775808"
  shows "\<exists>rc bytes pids f'. fifo_read pid n f = Some (rc, bytes, pids, f') \<and> fifo_ok N f' \<and>
           fifo_contents f = bytes @ fifo_contents f' \<and> (rc < 0 \<longrightarrow> bytes = []) \<and>
           (0 \<le> rc \<longrightarrow> rc = int (length bytes))"
proof (cases "fifo_Offset f = 0")
  case True
  then show ?thesis using assms by (auto simp: fifo_read_def fifo_ok_def fifo_contents_def)
next
  case False
  define w where "w = truncate_count (fifo_Offset f) n"
  define k where "k = unat w"
  have off: "unat (fifo_Offset f) \<le> length (fifo_Data f)" using assms by (simp add: fifo_ok_def)
  have kle: "k \<le> unat (fifo_Offset f)" by (simp add: k_def w_def)
  obtain data where d: "array_pop k (fifo_Data f) = Some (take k (fifo_Data f), data)"
    "length data = length (fifo_Data f)"
    "take (unat (fifo_Offset f) - k) data = drop k (take (unat (fifo_Offset f)) (fifo_Data f))"
    using array_pop_spec [OF kle off] by metis
  have um: "unat (fifo_Offset f - w) = unat (fifo_Offset f) - k"
    using kle by (subst unat_u64_minus) (auto simp: word_le_nat_alt k_def)
  have sw: "sint w = int k"
    using kle off assms by (subst sint_u64_small) (auto simp: fifo_ok_def k_def)
  have "take k (fifo_Data f) @ drop k (take (unat (fifo_Offset f)) (fifo_Data f)) = fifo_contents f"
    using kle append_take_drop_id [of k "take (unat (fifo_Offset f)) (fifo_Data f)"]
    by (simp add: fifo_contents_def min_absorb1)
  then show ?thesis
    using False d um sw kle off assms
    by (auto simp: fifo_read_def w_def [symmetric] k_def [symmetric] fifo_ok_def Let_def fifo_contents_def)
qed

lemma fifo_write_law:
  assumes "fifo_ok N f" "N < 9223372036854775808" "unat n < 9223372036854775808"
  shows "\<exists>rc pids f'. fifo_write pid n buffer f = Some (rc, pids, f') \<and> fifo_ok N f' \<and>
           fifo_contents f' = fifo_contents f @ take (nat rc) (user_bytes buffer n) \<and>
           nat rc \<le> length (user_bytes buffer n)"
proof -
  have up: "unat (fifo_Offset f + n) = unat (fifo_Offset f) + unat n"
    using assms by (subst unat_u64_plus_small) (auto simp: fifo_ok_def)
  have uN: "unat (of_nat N :: u64) = N" using assms(2) by (simp add: unat_of_nat_u64)
  have guard: "of_nat (length (fifo_Data f)) < fifo_Offset f + n \<longleftrightarrow> N < unat (fifo_Offset f) + unat n"
    using assms(1) uN up by (simp add: word_less_nat_alt fifo_ok_def)
  show ?thesis
  proof (cases "N < unat (fifo_Offset f) + unat n")
    case True
    then show ?thesis using guard assms(1) by (simp add: fifo_write_def fifo_ok_def fifo_contents_def)
  next
    case False
    then obtain data where d:
      "array_put (unat (fifo_Offset f)) (user_bytes buffer n) (fifo_Data f) = Some data"
      "length data = length (fifo_Data f)"
      "take (unat (fifo_Offset f) + unat n) data =
         take (unat (fifo_Offset f)) (fifo_Data f) @ user_bytes buffer n"
      using array_put_spec [of "unat (fifo_Offset f)" "user_bytes buffer n" "fifo_Data f"] assms(1)
      by (auto simp: fifo_ok_def)
    then show ?thesis
      using False guard up assms sint_u64_small [OF assms(3)]
      by (simp add: fifo_write_def fifo_ok_def fifo_contents_def)
  qed
qed

text \<open>
  \<open>socket_meta K M o role\<close>: the file \<open>meta\<close> is an end of the socket with buffers \<open>o\<close>.  A client
  reads what the server transmits (TX) and writes what the server receives (RX).
\<close>

definition socket_meta :: "(obj \<Rightarrow> FileMetadata option) \<Rightarrow> (obj \<Rightarrow> SocketData option) \<Rightarrow> obj \<Rightarrow>
    ClientServerRole \<Rightarrow> obj \<Rightarrow> bool" where
  "socket_meta M K bufs role meta \<longleftrightarrow>
     meta \<noteq> 0 \<and> bufs \<noteq> 0 \<and>
     (case M meta of
        None \<Rightarrow> False
      | Some md \<Rightarrow> DriverData md \<noteq> 0 \<and>
          (case K (DriverData md) of
             None \<Rightarrow> False
           | Some sd \<Rightarrow> socket_Buffers sd = bufs \<and> ClientServer sd = role))"

definition socket_state_ok :: "(obj \<Rightarrow> FileMetadata option) \<Rightarrow> (obj \<Rightarrow> SocketData option) \<Rightarrow> obj \<Rightarrow>
    'd system \<Rightarrow> bool" where
  "socket_state_ok M K bufs s \<longleftrightarrow>
     metas s = M \<and> sockets s = K \<and>
     (case socket_buffers s bufs of
        None \<Rightarrow> False
      | Some sb \<Rightarrow> fifo_ok SOCKET_TX_BUFFER_SIZE (TXBuffer sb) \<and>
                   fifo_ok SOCKET_RX_BUFFER_SIZE (RXBuffer sb))"

definition tx_contents :: "obj \<Rightarrow> 'd system \<Rightarrow> u8 list" where
  "tx_contents bufs s =
     (case socket_buffers s bufs of None \<Rightarrow> [] | Some sb \<Rightarrow> fifo_contents (TXBuffer sb))"

definition rx_contents :: "obj \<Rightarrow> 'd system \<Rightarrow> u8 list" where
  "rx_contents bufs s =
     (case socket_buffers s bufs of None \<Rightarrow> [] | Some sb \<Rightarrow> fifo_contents (RXBuffer sb))"

lemma socket_buffer_sizes:
  "SOCKET_TX_BUFFER_SIZE < 9223372036854775808" "SOCKET_RX_BUFFER_SIZE < 9223372036854775808"
  by (simp_all add: SOCKET_TX_BUFFER_SIZE_def SOCKET_RX_BUFFER_SIZE_def)

lemma socket_metaE:
  assumes "socket_state_ok M K bufs s" "socket_meta M K bufs role meta"
  obtains md sd sb where "meta \<noteq> 0" "bufs \<noteq> 0" "metas s meta = Some md" "DriverData md \<noteq> 0"
    "sockets s (DriverData md) = Some sd" "socket_Buffers sd = bufs" "ClientServer sd = role"
    "socket_buffers s bufs = Some sb" "fifo_ok SOCKET_TX_BUFFER_SIZE (TXBuffer sb)"
    "fifo_ok SOCKET_RX_BUFFER_SIZE (RXBuffer sb)" "metas s = M" "sockets s = K"
  using assms unfolding socket_state_ok_def socket_meta_def
  by (cases "M meta"; cases "socket_buffers s bufs") (auto split: option.splits)

lemma socket_read_law:
  assumes "socket_state_ok M K bufs s" "socket_meta M K bufs role meta"
  shows "\<exists>rc bytes s'. socket_read meta n s = Some (rc, bytes, s') \<and> socket_state_ok M K bufs s' \<and>
           (rc < 0 \<longrightarrow> bytes = []) \<and> (0 \<le> rc \<longrightarrow> rc = int (length bytes)) \<and>
           (case role of
              CLIENT \<Rightarrow> tx_contents bufs s = bytes @ tx_contents bufs s' \<and>
                        rx_contents bufs s' = rx_contents bufs s
            | SERVER \<Rightarrow> rx_contents bufs s = bytes @ rx_contents bufs s' \<and>
                        tx_contents bufs s' = tx_contents bufs s)"
proof -
  obtain md sd sb where h: "meta \<noteq> 0" "bufs \<noteq> 0" "metas s meta = Some md" "DriverData md \<noteq> 0"
    "sockets s (DriverData md) = Some sd" "socket_Buffers sd = bufs" "ClientServer sd = role"
    "socket_buffers s bufs = Some sb" "fifo_ok SOCKET_TX_BUFFER_SIZE (TXBuffer sb)"
    "fifo_ok SOCKET_RX_BUFFER_SIZE (RXBuffer sb)" "metas s = M" "sockets s = K"
    using assms by (rule socket_metaE)
  show ?thesis
  proof (cases role)
    case CLIENT
    then show ?thesis
      using h fifo_read_law [OF h(9) socket_buffer_sizes(1), of "ProcessID (current s)" n]
      by (auto simp: socket_read_def socket_state_ok_def tx_contents_def rx_contents_def Let_def)
  next
    case SERVER
    then show ?thesis
      using h fifo_read_law [OF h(10) socket_buffer_sizes(2), of "ProcessID (current s)" n]
      by (auto simp: socket_read_def socket_state_ok_def tx_contents_def rx_contents_def Let_def)
  qed
qed

lemma socket_write_law:
  assumes "socket_state_ok M K bufs s" "socket_meta M K bufs role meta"
    and "unat n < 9223372036854775808"
  shows "\<exists>rc s'. socket_write meta n buffer s = Some (rc, s') \<and> socket_state_ok M K bufs s' \<and>
           nat rc \<le> length (user_bytes buffer n) \<and>
           (case role of
              CLIENT \<Rightarrow> rx_contents bufs s' = rx_contents bufs s @ take (nat rc) (user_bytes buffer n) \<and>
                        tx_contents bufs s' = tx_contents bufs s
            | SERVER \<Rightarrow> tx_contents bufs s' = tx_contents bufs s @ take (nat rc) (user_bytes buffer n) \<and>
                        rx_contents bufs s' = rx_contents bufs s)"
proof -
  obtain md sd sb where h: "meta \<noteq> 0" "bufs \<noteq> 0" "metas s meta = Some md" "DriverData md \<noteq> 0"
    "sockets s (DriverData md) = Some sd" "socket_Buffers sd = bufs" "ClientServer sd = role"
    "socket_buffers s bufs = Some sb" "fifo_ok SOCKET_TX_BUFFER_SIZE (TXBuffer sb)"
    "fifo_ok SOCKET_RX_BUFFER_SIZE (RXBuffer sb)" "metas s = M" "sockets s = K"
    using assms(1,2) by (rule socket_metaE)
  show ?thesis
  proof (cases role)
    case CLIENT
    then show ?thesis
      using h fifo_write_law [OF h(10) socket_buffer_sizes(2) assms(3), of "ProcessID (current s)" buffer]
      by (auto simp: socket_write_def socket_state_ok_def tx_contents_def rx_contents_def Let_def)
  next
    case SERVER
    then show ?thesis
      using h fifo_write_law [OF h(9) socket_buffer_sizes(1) assms(3), of "ProcessID (current s)" buffer]
      by (auto simp: socket_write_def socket_state_ok_def tx_contents_def rx_contents_def Let_def)
  qed
qed

lemma socket_contents_bounded:
  assumes "socket_state_ok M K bufs s"
  shows "length (tx_contents bufs s) \<le> SOCKET_TX_BUFFER_SIZE"
    and "length (rx_contents bufs s) \<le> SOCKET_RX_BUFFER_SIZE"
  using assms
  by (auto simp: socket_state_ok_def tx_contents_def rx_contents_def fifo_ok_def fifo_contents_def
      split: option.splits)

interpretation tx: byte_channel "socket_state_ok M K bufs" "tx_contents bufs" SOCKET_TX_BUFFER_SIZE
  "\<lambda>(meta, n). socket_read meta n" "\<lambda>(meta, n, buffer). socket_write meta n buffer"
  "\<lambda>(meta, n, buffer). user_bytes buffer n"
  "\<lambda>(meta, n). socket_meta M K bufs CLIENT meta"
  "\<lambda>(meta, n, buffer). socket_meta M K bufs SERVER meta \<and> unat n < 9223372036854775808"
  for M K bufs
proof (unfold_locales, goal_cases)
  case (1 s r)
  then show ?case using socket_read_law [of M K bufs s CLIENT "fst r" "snd r"] by (cases r) auto
next
  case (2 s w)
  then show ?case
    using socket_write_law [of M K bufs s SERVER "fst w" "fst (snd w)" "snd (snd w)"]
    by (cases w) auto
next
  case (3 s)
  then show ?case by (rule socket_contents_bounded(1))
qed

interpretation rx: byte_channel "socket_state_ok M K bufs" "rx_contents bufs" SOCKET_RX_BUFFER_SIZE
  "\<lambda>(meta, n). socket_read meta n" "\<lambda>(meta, n, buffer). socket_write meta n buffer"
  "\<lambda>(meta, n, buffer). user_bytes buffer n"
  "\<lambda>(meta, n). socket_meta M K bufs SERVER meta"
  "\<lambda>(meta, n, buffer). socket_meta M K bufs CLIENT meta \<and> unat n < 9223372036854775808"
  for M K bufs
proof (unfold_locales, goal_cases)
  case (1 s r)
  then show ?case using socket_read_law [of M K bufs s SERVER "fst r" "snd r"] by (cases r) auto
next
  case (2 s w)
  then show ?case
    using socket_write_law [of M K bufs s CLIENT "fst w" "fst (snd w)" "snd (snd w)"]
    by (cases w) auto
next
  case (3 s)
  then show ?case by (rule socket_contents_bounded(2))
qed

section \<open>Keyboard input is a byte channel\<close>

definition input_ok :: "InputBuffer \<Rightarrow> bool" where
  "input_ok ib \<longleftrightarrow> length (input_Data ib) = INPUT_BUFSZ \<and> unat (input_Offset ib) \<le> INPUT_BUFSZ"

definition input_contents :: "InputBuffer \<Rightarrow> u8 list" where
  "input_contents ib = take (unat (input_Offset ib)) (input_Data ib)"

definition input_meta :: "(obj \<Rightarrow> FileMetadata option) \<Rightarrow> obj \<Rightarrow> obj \<Rightarrow> bool" where
  "input_meta M b file \<longleftrightarrow>
     file \<noteq> 0 \<and> b \<noteq> 0 \<and> (case M file of None \<Rightarrow> False | Some md \<Rightarrow> DriverData md = b)"

definition input_state_ok :: "(obj \<Rightarrow> FileMetadata option) \<Rightarrow> obj \<Rightarrow> 'd system \<Rightarrow> bool" where
  "input_state_ok M b s \<longleftrightarrow> metas s = M \<and> input_ok (input_buffers s b)"

lemma upd_input_frame [simp, frame]:
  "input_buffers (upd_input b f s) = (input_buffers s)(b := f (input_buffers s b))"
  "metas (upd_input b f s) = metas s"
  "processes (upd_input b f s) = processes s"
  "ProcessQueue (upd_input b f s) = ProcessQueue s"
  by (simp_all add: upd_input_def)

lemma input_read_law:
  assumes "input_state_ok M b s" "input_meta M b file"
  shows "\<exists>rc bytes s'. input_read file n s = Some (rc, bytes, s') \<and> input_state_ok M b s' \<and>
           input_contents (input_buffers s b) = bytes @ input_contents (input_buffers s' b) \<and>
           (rc < 0 \<longrightarrow> bytes = []) \<and> (0 \<le> rc \<longrightarrow> rc = int (length bytes))"
proof -
  obtain md where m: "file \<noteq> 0" "b \<noteq> 0" "metas s file = Some md" "DriverData md = b" "metas s = M"
    using assms by (auto simp: input_meta_def input_state_ok_def split: option.splits)
  define ib where "ib = input_buffers s b"
  have len: "length (input_Data ib) = 4064" "unat (input_Offset ib) \<le> 4064"
    using assms(1) by (simp_all add: input_state_ok_def input_ok_def INPUT_BUFSZ_def ib_def)
  show ?thesis
  proof (cases "input_Offset ib = 0")
    case True
    then show ?thesis
      using m assms(1)
      by (simp add: input_read_def ib_def input_contents_def input_state_ok_def input_ok_def Let_def)
  next
    case False
    define w where "w = truncate_count (input_Offset ib) n"
    define k where "k = unat w"
    have off: "unat (input_Offset ib) \<le> length (input_Data ib)" using len by simp
    have kle: "k \<le> unat (input_Offset ib)" by (simp add: k_def w_def)
    obtain data where d: "array_pop k (input_Data ib) = Some (take k (input_Data ib), data)"
      "length data = length (input_Data ib)"
      "take (unat (input_Offset ib) - k) data = drop k (take (unat (input_Offset ib)) (input_Data ib))"
      using array_pop_spec [OF kle off] by metis
    have um: "unat (input_Offset ib - w) = unat (input_Offset ib) - k"
      using kle by (subst unat_u64_minus) (auto simp: word_le_nat_alt k_def)
    have sw: "sint w = int k" using kle len by (subst sint_u64_small) (auto simp: k_def)
    have "take k (input_Data ib) @ drop k (take (unat (input_Offset ib)) (input_Data ib)) =
            input_contents ib"
      using kle append_take_drop_id [of k "take (unat (input_Offset ib)) (input_Data ib)"]
      by (simp add: input_contents_def min_absorb1)
    then show ?thesis
      using False m d um sw kle len
      by (simp add: input_read_def ib_def [symmetric] w_def [symmetric] k_def [symmetric] Let_def
          input_state_ok_def input_ok_def INPUT_BUFSZ_def input_contents_def)
  qed
qed

lemma input_write_law:
  assumes "input_state_ok M b s" "input_meta M b file" "unat n < 9223372036854775808"
  shows "\<exists>rc s'. input_write file n buffer s = Some (rc, s') \<and> input_state_ok M b s' \<and>
           input_contents (input_buffers s' b) =
             input_contents (input_buffers s b) @ take (nat rc) (user_bytes buffer n) \<and>
           nat rc \<le> length (user_bytes buffer n)"
proof -
  obtain md where m: "file \<noteq> 0" "b \<noteq> 0" "metas s file = Some md" "DriverData md = b" "metas s = M"
    using assms by (auto simp: input_meta_def input_state_ok_def split: option.splits)
  define ib where "ib = input_buffers s b"
  have len: "length (input_Data ib) = 4064" "unat (input_Offset ib) \<le> 4064"
    using assms(1) by (simp_all add: input_state_ok_def input_ok_def INPUT_BUFSZ_def ib_def)
  define w where "w = input_room (input_Offset ib) n"
  define k where "k = min (unat n) (4064 - unat (input_Offset ib))"
  have up: "unat (input_Offset ib + n) = unat (input_Offset ib) + unat n"
    using len assms(3) by (subst unat_u64_plus_small) auto
  have um: "unat (4064 - input_Offset ib) = 4064 - unat (input_Offset ib)"
    using len by (subst unat_u64_minus) (auto simp: word_le_nat_alt)
  have uw: "unat w = k"
    using up um by (auto simp: w_def k_def input_room_def INPUT_BUFSZ_def word_less_nat_alt min_def)
  have fit: "unat (input_Offset ib) + k \<le> 4064" "k \<le> unat n" using len by (auto simp: k_def)
  have up': "unat (input_Offset ib + w) = unat (input_Offset ib) + k"
    using fit uw by (subst unat_u64_plus_small) auto
  have sw: "sint w = int k" using uw fit by (subst sint_u64_small) auto
  have ub: "user_bytes buffer w = take k (user_bytes buffer n)"
    using fit(2) by (simp add: user_bytes_def uw take_map min_absorb1)
  obtain data where d:
    "array_put (unat (input_Offset ib)) (user_bytes buffer w) (input_Data ib) = Some data"
    "length data = length (input_Data ib)"
    "take (unat (input_Offset ib) + k) data =
       take (unat (input_Offset ib)) (input_Data ib) @ user_bytes buffer w"
    using array_put_spec [of "unat (input_Offset ib)" "user_bytes buffer w" "input_Data ib"] fit len uw
    by auto
  define s1 where
    "s1 = upd_input b (\<lambda>ib. ib\<lparr>input_Data := data, input_Offset := input_Offset ib + w\<rparr>) s"
  define s' where "s' = upd_input b (\<lambda>ib. ib\<lparr>PIDsWaiting := []\<rparr>) (wake_all (- 2) (PIDsWaiting ib) s1)"
  have run: "input_write file n buffer s = Some (int k, s')"
    using m d(1) sw
    by (simp add: input_write_def ib_def [symmetric] w_def [symmetric] s'_def s1_def Let_def)
  have ib': "input_buffers s' b =
      ib\<lparr>input_Data := data, input_Offset := input_Offset ib + w, PIDsWaiting := []\<rparr>"
    by (simp add: s'_def s1_def ib_def)
  have "input_state_ok M b s'"
    using m len d(2) up' fit ib'
    by (simp add: input_state_ok_def input_ok_def INPUT_BUFSZ_def) (simp add: s'_def s1_def)
  moreover have "input_contents (input_buffers s' b) =
      input_contents (input_buffers s b) @ take k (user_bytes buffer n)"
    using d(3) up' ub by (simp add: input_contents_def ib' ib_def [symmetric])
  ultimately show ?thesis using run fit(2) by simp
qed

interpretation keyboard: byte_channel "input_state_ok M b" "\<lambda>s. input_contents (input_buffers s b)"
  INPUT_BUFSZ "\<lambda>(file, n). input_read file n" "\<lambda>(file, n, buffer). input_write file n buffer"
  "\<lambda>(file, n, buffer). user_bytes buffer n"
  "\<lambda>(file, n). input_meta M b file"
  "\<lambda>(file, n, buffer). input_meta M b file \<and> unat n < 9223372036854775808" for M b
proof (unfold_locales, goal_cases)
  case (1 s r)
  then show ?case using input_read_law [of M b s "fst r" "snd r"] by (cases r) auto
next
  case (2 s w)
  then show ?case
    using input_write_law [of M b s "fst w" "fst (snd w)" "snd (snd w)"] by (cases w) auto
next
  case (3 s)
  then show ?case by (simp add: input_state_ok_def input_ok_def input_contents_def)
qed

section \<open>Closing the write end\<close>

lemma pipe_close_write_end:
  assumes "pipe_state_ok M E b s" "meta \<noteq> 0" "M meta = Some md"
    and "E (DriverData md) = Some \<lparr>end_Buffer = b, end_End = WRITE_END\<rparr>"
    and "\<not> WriteClosed (pipe_buffers s b)" "\<not> ReadClosed (pipe_buffers s b)"
  obtains s' where "pipe_close meta s = Some s'"
    "pipe_state_ok M (E(DriverData md := None)) b s'"
    "pipe_contents (pipe_buffers s' b) = pipe_contents (pipe_buffers s b)"
    "WriteClosed (pipe_buffers s' b)"
    "\<And>p. processes s' p =
       (if p \<noteq> 0 \<and> p \<in> process s ` set (PIDsWaitingOnWriteToRead (pipe_buffers s b))
        then unblock True (- 1) (processes s p) else processes s p)"
proof -
  define pb where "pb = pipe_buffers s b"
  define s1 where "s1 = upd_pipe b (\<lambda>pb. pb\<lparr>PIDsWaitingOnWriteToRead := []\<rparr>)
      (wake_all (- 1) (PIDsWaitingOnWriteToRead pb) (upd_pipe b (\<lambda>pb. pb\<lparr>WriteClosed := True\<rparr>) s))"
  define s' where "s' = s1\<lparr>pipe_ends := (pipe_ends s1)(DriverData md := None)\<rparr>"
  have eqs: "metas s = M" "pipe_ends s = E" "pipe_ok pb"
    using assms(1) by (auto simp: pipe_state_ok_def pb_def)
  have pb': "pipe_buffers s' b = pb\<lparr>WriteClosed := True, PIDsWaitingOnWriteToRead := []\<rparr>"
    by (simp add: s'_def s1_def pb_def)
  have "pipe_close meta s = Some s'"
    using assms(2-6) eqs by (simp add: pipe_close_def Let_def s'_def s1_def pb_def)
  moreover have "pipe_state_ok M (E(DriverData md := None)) b s'"
    using eqs pb' by (simp add: pipe_state_ok_def pipe_ok_def) (simp add: s'_def s1_def)
  moreover have "processes s' p =
       (if p \<noteq> 0 \<and> p \<in> process s ` set (PIDsWaitingOnWriteToRead (pipe_buffers s b))
        then unblock True (- 1) (processes s p) else processes s p)" for p
    by (simp add: s'_def s1_def wake_all_processes pb_def)
  ultimately show ?thesis
    using that pb' by (simp add: pipe_contents_def pb_def)
qed

section \<open>Properties\<close>

text \<open>The state before anything was set up, with the given memory manager and volumes.\<close>

definition blank_system :: "vmm \<Rightarrow> (nat \<Rightarrow> 'd) \<Rightarrow> 'd system" where
  "blank_system v vols =
     \<lparr>processes = \<lambda>_. new_process 0, ProcessQueue = [], CurrentProcess = 0, the_pid = 0,
      PageMapsToFree = [], init_process = 0, fxsr_enabled = False, fpu = replicate 512 0,
      metas = \<lambda>_. None, Files = sv_empty, Mounts = [], volumes = vols, dbgout = [],
      pipe_ends = \<lambda>_. None, pipe_buffers = \<lambda>_. new_pipe_buffer, FreePipeBuffers = [],
      pipe_counter = 0, sockets = \<lambda>_. None, socket_buffers = \<lambda>_. None, Bindings = [],
      input_buffers = \<lambda>_. \<lparr>input_Data = replicate INPUT_BUFSZ 0, input_Offset = 0, PIDsWaiting = []\<rparr>,
      InputBuffers = [], FreeInputBuffers = [], Listeners = \<lambda>_. [], vm = v, ram = \<lambda>_. 0,
      next_obj = 1\<rparr>"

text \<open>Two processes, of which the first runs, and a pipe whose buffer is object 3.\<close>

definition example_two :: "unit system" where
  "example_two = (blank_system \<lparr>physical = example_pmm, tables = \<lambda>_ _. 0, ActivePageMap = 0, CR3 = 0\<rparr>
     (\<lambda>_. ()))
     \<lparr>processes := (\<lambda>p. (new_process 0)\<lparr>ProcessID := of_nat p\<rparr>), ProcessQueue := [1, 2],
      CurrentProcess := 1, the_pid := 2, next_obj := 3\<rparr>"

definition example_pipe :: "unit system" where
  "example_pipe = snd (lay_pipe example_two)"

lemma example_pipe_simps [simp]:
  "pipe_buffers example_pipe 3 = new_pipe_buffer"
  "pipe_ends example_pipe = [4 \<mapsto> \<lparr>end_Buffer = 3, end_End = READ_END\<rparr>,
                             5 \<mapsto> \<lparr>end_Buffer = 3, end_End = WRITE_END\<rparr>]"
  "metas example_pipe = [6 \<mapsto> make_metadata Regular (''panon'' @ decimal 1) PipesDriver 512 4,
                         7 \<mapsto> make_metadata Regular (''panon'' @ decimal 1) PipesDriver 512 5]"
  "processes example_pipe = (\<lambda>p. (new_process 0)\<lparr>ProcessID := of_nat p\<rparr>)"
  "ProcessQueue example_pipe = [1, 2]"
  "CurrentProcess example_pipe = 1"
  by (simp_all add: example_pipe_def example_two_def lay_pipe_def new_obj_def blank_system_def
      PIPE_BUFSZ_def Let_def fun_eq_iff)

lemma example_pipe_ok:
  "pipe_state_ok (metas example_pipe) (pipe_ends example_pipe) 3 example_pipe"
  "pipe_meta (metas example_pipe) (pipe_ends example_pipe) 3 6"
  "pipe_meta (metas example_pipe) (pipe_ends example_pipe) 3 7"
  by (simp_all add: pipe_state_ok_def pipe_ok_def new_pipe_buffer_def PIPE_BUFSZ_def pipe_meta_def
      make_metadata_def)

text \<open>
  C9: A pipe is first in, first out.  In any interleaving of reads and writes through the files
  of one pipe, each call has a defined result, the bytes that reads returned followed by the
  bytes left in the pipe are the bytes that were in it followed by the bytes that writes
  accepted, and the pipe never holds more than its 512 bytes.
\<close>

theorem pipe_fifo_order:
  assumes "pipe_state_ok M E b s"
    and "channel_calls_valid (\<lambda>(meta, n). pipe_meta M E b meta)
           (\<lambda>(meta, n, buffer). pipe_meta M E b meta) calls"
  shows "\<exists>written got s'.
           channel_run (\<lambda>(meta, n). pipe_read meta n) (\<lambda>(meta, n, buffer). pipe_write meta n buffer)
             (\<lambda>(meta, n, buffer). user_bytes buffer n) calls s = Some (written, got, s') \<and>
           pipe_state_ok M E b s' \<and>
           pipe_contents (pipe_buffers s b) @ written = got @ pipe_contents (pipe_buffers s' b) \<and>
           length (pipe_contents (pipe_buffers s' b)) \<le> PIPE_BUFSZ"
  using assms by (rule pipe.fifo_order)

theorem pipe_fifo_order_witness:
  "\<exists>written got s'.
     channel_run (\<lambda>(meta, n). pipe_read meta n) (\<lambda>(meta, n, buffer). pipe_write meta n buffer)
       (\<lambda>(meta, n, buffer). user_bytes buffer n)
       [Read_call (6, 10), Write_call (7, 3, \<lambda>i. of_nat i), Read_call (6, 2), Write_call (7, 600, \<lambda>_. 7)]
       example_pipe = Some (written, got, s') \<and>
     written = got @ pipe_contents (pipe_buffers s' 3)"
  using pipe_fifo_order [OF example_pipe_ok(1), of
      "[Read_call (6, 10), Write_call (7, 3, \<lambda>i. of_nat i), Read_call (6, 2), Write_call (7, 600, \<lambda>_. 7)]"]
    example_pipe_ok(2,3)
  by (simp add: pipe_contents_def new_pipe_buffer_def) blast



text \<open>
  C25: Closing the write end is seen as the end of file.  When the only write end of a pipe whose
  read end is still open is closed, every process that waits to read becomes runnable with the
  result \<open>-1\<close>, no byte in the pipe is lost, and from then on a read of an empty pipe returns
  \<open>-1\<close> instead of blocking.
\<close>

theorem pipe_close_eof:
  assumes "pipe_state_ok M E b s" "w \<noteq> 0" "M w = Some md"
    and "E (DriverData md) = Some \<lparr>end_Buffer = b, end_End = WRITE_END\<rparr>"
    and "\<not> WriteClosed (pipe_buffers s b)" "\<not> ReadClosed (pipe_buffers s b)"
    and "pipe_meta M (E(DriverData md := None)) b r"
  shows "\<exists>s'. pipe_close w s = Some s' \<and>
           pipe_contents (pipe_buffers s' b) = pipe_contents (pipe_buffers s b) \<and>
           list_all (\<lambda>pid. process s pid = 0 \<or>
               State (processes s' (process s pid)) = RUNNING \<and>
               RAX (CPU (processes s' (process s pid))) = - 1)
             (PIDsWaitingOnWriteToRead (pipe_buffers s b)) \<and>
           (pipe_contents (pipe_buffers s b) = [] \<longrightarrow> pipe_read r n s' = Some (- 1, [], s'))"
proof -
  obtain s' where c: "pipe_close w s = Some s'" "pipe_state_ok M (E(DriverData md := None)) b s'"
    "pipe_contents (pipe_buffers s' b) = pipe_contents (pipe_buffers s b)"
    "WriteClosed (pipe_buffers s' b)"
    "\<And>p. processes s' p =
       (if p \<noteq> 0 \<and> p \<in> process s ` set (PIDsWaitingOnWriteToRead (pipe_buffers s b))
        then unblock True (- 1) (processes s p) else processes s p)"
    using assms(1-6) by (rule pipe_close_write_end) (rule that, assumption+)
  have "pipe_read r n s' = Some (- 1, [], s')" if "pipe_contents (pipe_buffers s b) = []"
  proof -
    have "length (pipe_contents (pipe_buffers s' b)) = unat (pipe_Offset (pipe_buffers s' b))"
      using c(2) by (intro length_pipe_contents) (simp add: pipe_state_ok_def)
    then have "pipe_Offset (pipe_buffers s' b) = 0" using that c(3) by (simp add: unat_eq_0)
    then show ?thesis using pipe_read_empty [OF c(2) assms(7)] c(4) by simp
  qed
  then show ?thesis using c by (auto simp: list_all_iff)
qed

theorem pipe_close_eof_witness:
  "\<exists>s'. pipe_close 7 example_pipe = Some s' \<and> pipe_read 6 8 s' = Some (- 1, [], s')"
proof -
  have m: "pipe_meta (metas example_pipe) ((pipe_ends example_pipe)(5 := None)) 3 6"
    by (simp add: pipe_meta_def make_metadata_def)
  show ?thesis
    using pipe_close_eof [OF example_pipe_ok(1), of 7
        "make_metadata Regular (''panon'' @ decimal 1) PipesDriver 512 5" 6 8] m
    by (auto simp: new_pipe_buffer_def make_metadata_def pipe_contents_def)
qed


definition example_socket :: "unit system" where
  "example_socket = example_two
     \<lparr>metas := [8 \<mapsto> make_metadata Regular ''c'' SocketsDriver 2040 9,
                10 \<mapsto> make_metadata Regular ''s'' SocketsDriver 2040 11],
      sockets := [9 \<mapsto> new_socket_data\<lparr>socket_Buffers := 12\<rparr>,
                  11 \<mapsto> new_socket_data\<lparr>socket_Buffers := 12, ClientServer := SERVER\<rparr>],
      socket_buffers := [12 \<mapsto> new_socket_buffers]\<rparr>"

lemma example_socket_ok:
  "socket_state_ok (metas example_socket) (sockets example_socket) 12 example_socket"
  "socket_meta (metas example_socket) (sockets example_socket) 12 CLIENT 8"
  "socket_meta (metas example_socket) (sockets example_socket) 12 SERVER 10"
  by (simp_all add: example_socket_def socket_state_ok_def socket_meta_def fifo_ok_def new_fifo_def
      new_socket_buffers_def new_socket_data_def make_metadata_def)


text \<open>
  A write to a socket that is larger than its FIFO never succeeds.  Whatever the FIFO holds,
  the writer is told to block and nothing is stored; when the FIFO is empty a reader is told to
  block as well, so that neither can ever wake the other.
\<close>

theorem socket_oversized_write_blocks:
  assumes "fifo_ok N f" "N < unat n" "unat n < 9223372036854775808"
  shows "\<exists>f'. fifo_write pid n buffer f = Some (- 2, [], f') \<and> fifo_contents f' = fifo_contents f \<and>
           (fifo_contents f = [] \<longrightarrow> (\<exists>f''. fifo_read pid' m f' = Some (- 2, [], [], f'')))"
proof -
  have len: "length (fifo_Data f) = N" and off: "unat (fifo_Offset f) \<le> N"
    using assms(1) by (auto simp: fifo_ok_def)
  have N: "N < 9223372036854775808" using assms(2,3) by linarith
  have "unat (fifo_Offset f) + unat n < 18446744073709551616" using off assms(2,3) by linarith
  then have up: "unat (fifo_Offset f + n) = unat (fifo_Offset f) + unat n"
    by (rule unat_u64_plus_small)
  have "unat (of_nat N :: u64) = N" using N by (intro unat_of_nat_u64) linarith
  then have guard: "of_nat (length (fifo_Data f)) < fifo_Offset f + n"
    unfolding word_less_nat_alt up len using assms(2) by linarith
  have empty: "fifo_Offset f = 0" if "fifo_contents f = []"
  proof -
    have "length (fifo_contents f) = unat (fifo_Offset f)"
      unfolding fifo_contents_def using len off by simp
    then show ?thesis using that by (simp add: unat_eq_0)
  qed
  define f' where "f' = f\<lparr>PIDsWaitingUntilRead := PIDsWaitingUntilRead f @ [pid]\<rparr>"
  have "fifo_write pid n buffer f = Some (- 2, [], f')"
    unfolding fifo_write_def f'_def using guard by (simp only: if_True)
  moreover have "fifo_contents f' = fifo_contents f" by (simp add: f'_def fifo_contents_def)
  moreover have "\<exists>f''. fifo_read pid' m f' = Some (- 2, [], [], f'')" if "fifo_contents f = []"
    using empty [OF that] by (simp add: f'_def fifo_read_def)
  ultimately show ?thesis by blast
qed

theorem socket_oversized_write_blocks_witness:
  "\<exists>f'. fifo_write 1 3000 (\<lambda>_. 0) (new_fifo 2048) = Some (- 2, [], f') \<and>
     (\<exists>f''. fifo_read 2 10 f' = Some (- 2, [], [], f''))"
proof -
  have ok: "fifo_ok 2048 (new_fifo 2048)" and empty: "fifo_contents (new_fifo 2048) = []"
    by (simp_all add: fifo_ok_def new_fifo_def fifo_contents_def)
  from socket_oversized_write_blocks [OF ok, of 3000 1 "\<lambda>_. 0" 2 10] empty
  show ?thesis by auto
qed

lemma mod_once: "m \<le> x \<Longrightarrow> x < 2 * m \<Longrightarrow> x mod m = x - m" for x m :: nat
  by (simp add: le_mod_geq)

text \<open>
  The room check of a socket write wraps around.  With bytes in the FIFO and a byte count whose
  sum with the offset passes \<open>2^64\<close>, the check succeeds and the copy leaves the array.
\<close>

theorem socket_write_wraps:
  assumes "fifo_ok N f" "N < 9223372036854775808" "18446744073709551616 \<le> unat (fifo_Offset f) + unat n"
  shows "fifo_write pid n buffer f = None"
proof -
  have "unat (fifo_Offset f + n) = (unat (fifo_Offset f) + unat n) mod 18446744073709551616"
    by (rule unat_u64_plus)
  also have "\<dots> = unat (fifo_Offset f) + unat n - 18446744073709551616"
    using assms(3) unat_less_2_64 [of n] unat_less_2_64 [of "fifo_Offset f"]
    by (intro mod_once) linarith+
  finally have up: "unat (fifo_Offset f + n) = unat (fifo_Offset f) + unat n - 18446744073709551616" .
  have lt: "unat n < 18446744073709551616" by simp
  have "unat (fifo_Offset f + n) \<le> N" using up lt assms(1) unfolding fifo_ok_def by linarith
  then have "\<not> of_nat (length (fifo_Data f)) < fifo_Offset f + n"
    using assms(1,2) by (simp add: word_less_nat_alt fifo_ok_def unat_of_nat_u64)
  moreover have "\<not> unat (fifo_Offset f) + unat n \<le> length (fifo_Data f)"
    using assms by (simp add: fifo_ok_def)
  ultimately show ?thesis by (simp add: fifo_write_def array_put_def)
qed

theorem socket_write_wraps_witness:
  "fifo_write 1 (- 1) (\<lambda>_. 0) ((new_fifo 2048)\<lparr>fifo_Offset := 1\<rparr>) = None"
  by (rule socket_write_wraps [where N = 2048]) (simp_all add: fifo_ok_def new_fifo_def unsigned_minus_1_eq_mask mask_eq_exp_minus_1)

end
