(* ===== verification/Vfs.thy ===== *)
theory Vfs
  imports Channels
begin

text \<open>
  The virtual file system of \<open>kernel/src/virtual_filesystem.{h,cpp}\<close>.  A process file
  descriptor indexes the process's sparse vector of system descriptors, and a system descriptor
  indexes the kernel's sparse vector of shared pointers to file metadata.  Erasing the last
  owner of a metadata runs its destructor, which closes the file in its driver.

  The file systems that are mounted on top of storage devices are reached through the virtual
  functions of \<open>FilesystemDriver\<close>; \<open>fs_ops\<close> is that interface, on the contents \<open>'d\<close> of a device.

  \<open>vfs_inv\<close> relates the tables and the owner counts.  The descriptor operations preserve it,
  and \<open>vfs_file\<close> characterises what each of them does to what a descriptor refers to.
\<close>

section \<open>Drivers\<close>

record 'd fs_ops =
  fs_open :: "string \<Rightarrow> 'd \<Rightarrow> (FileType \<times> string \<times> u64 \<times> nat) option"
  fs_read :: "u64 \<Rightarrow> u64 \<Rightarrow> 'd \<Rightarrow> int \<times> u8 list"
  fs_write :: "u64 \<Rightarrow> u64 \<Rightarrow> (nat \<Rightarrow> u8) \<Rightarrow> 'd \<Rightarrow> int \<times> 'd"
  fs_directory_data :: "string \<Rightarrow> u64 \<Rightarrow> 'd \<Rightarrow> int \<times> (FileType \<times> string) list"

text \<open>
  \<open>open\<close> of a driver returns a new owner of the metadata, or null.  The pipe driver stops the
  machine, which is \<open>None\<close>.
\<close>

definition driver_open :: "'d fs_ops \<Rightarrow> FilesystemDriver \<Rightarrow> string \<Rightarrow> 'd system \<Rightarrow> (obj \<times> 'd system) option" where
  "driver_open ops drv path s =
     (case drv of
        NullDriver \<Rightarrow> None
      | StdinDriver \<Rightarrow> Some (input_open path s)
      | StdoutDriver \<Rightarrow> Some (0, s)
      | PipesDriver \<Rightarrow> None
      | SocketsDriver \<Rightarrow> Some (socket_open s)
      | MountedFS n \<Rightarrow>
          (case fs_open ops path (volumes s n) of
             None \<Rightarrow> Some (0, s)
           | Some (type, name, sz, data) \<Rightarrow>
               let (m, s1) = new_obj s
               in Some (m, s1\<lparr>metas := (metas s1)(m \<mapsto> make_metadata type name (MountedFS n) sz data)\<rparr>)))"

text \<open>\<open>close\<close>: for a mounted file system it ends in the empty \<open>close\<close> of the port controller.\<close>

definition driver_close :: "obj \<Rightarrow> 'd system \<Rightarrow> 'd system option" where
  "driver_close m s =
     do {
       md \<leftarrow> metas s m;
       case FileDriver md of
         NullDriver \<Rightarrow> Some s
       | StdinDriver \<Rightarrow> input_close m s
       | StdoutDriver \<Rightarrow> Some s
       | PipesDriver \<Rightarrow> pipe_close m s
       | SocketsDriver \<Rightarrow> socket_close m s
       | MountedFS n \<Rightarrow> Some s
     }"

definition driver_read ::
    "'d fs_ops \<Rightarrow> obj \<Rightarrow> u64 \<Rightarrow> u64 \<Rightarrow> 'd system \<Rightarrow> (int \<times> u8 list \<times> 'd system) option" where
  "driver_read ops m offs n s =
     do {
       md \<leftarrow> metas s m;
       case FileDriver md of
         NullDriver \<Rightarrow> None
       | StdinDriver \<Rightarrow> input_read m n s
       | StdoutDriver \<Rightarrow> Some (- 1, [], s)
       | PipesDriver \<Rightarrow> pipe_read m n s
       | SocketsDriver \<Rightarrow> socket_read m n s
       | MountedFS v \<Rightarrow>
           (let (rc, bytes) = fs_read ops (of_nat (DriverData md) + offs) n (volumes s v)
            in Some (rc, bytes, s))
     }"

definition driver_write ::
    "'d fs_ops \<Rightarrow> obj \<Rightarrow> u64 \<Rightarrow> u64 \<Rightarrow> (nat \<Rightarrow> u8) \<Rightarrow> 'd system \<Rightarrow> (int \<times> 'd system) option" where
  "driver_write ops m offs n buffer s =
     do {
       md \<leftarrow> metas s m;
       case FileDriver md of
         NullDriver \<Rightarrow> None
       | StdinDriver \<Rightarrow> input_write m n buffer s
       | StdoutDriver \<Rightarrow> Some (dbgout_write n buffer s)
       | PipesDriver \<Rightarrow> pipe_write m n buffer s
       | SocketsDriver \<Rightarrow> socket_write m n buffer s
       | MountedFS v \<Rightarrow>
           (let (rc, d) = fs_write ops (of_nat (DriverData md) + offs) n buffer (volumes s v)
            in Some (rc, s\<lparr>volumes := (volumes s)(v := d)\<rparr>))
     }"

section \<open>Owners of file metadata\<close>

text \<open>A copy of a shared pointer, and the destruction of one.\<close>

definition acquire_meta :: "obj \<Rightarrow> 'd system \<Rightarrow> 'd system option" where
  "acquire_meta m s =
     do {
       md \<leftarrow> metas s m;
       Some (s\<lparr>metas := (metas s)(m \<mapsto> md\<lparr>use_count := use_count md + 1\<rparr>)\<rparr>)
     }"

definition release_meta :: "obj \<Rightarrow> 'd system \<Rightarrow> 'd system option" where
  "release_meta m s =
     do {
       md \<leftarrow> metas s m;
       if use_count md \<le> 1 then do {
         s1 \<leftarrow> driver_close m s;
         Some (s1\<lparr>metas := (metas s1)(m := None)\<rparr>)
       }
       else Some (s\<lparr>metas := (metas s)(m \<mapsto> md\<lparr>use_count := use_count md - 1\<rparr>)\<rparr>)
     }"

section \<open>Descriptors\<close>

definition procfd_to_fd :: "'d system \<Rightarrow> obj \<Rightarrow> FileDescriptor \<Rightarrow> FileDescriptor" where
  "procfd_to_fd s p procfd =
     (case sv_at (FileDescriptors (processes s p)) (unat procfd) of
        None \<Rightarrow> InvalidFD
      | Some sysfd \<Rightarrow> sysfd)"

definition file_of_sysfd :: "'d system \<Rightarrow> FileDescriptor \<Rightarrow> obj" where
  "file_of_sysfd s fd = sv_get 0 (Files s) (unat fd)"

definition file_of_procfd :: "'d system \<Rightarrow> FileDescriptor \<Rightarrow> obj" where
  "file_of_procfd s procfd =
     (case sv_at (FileDescriptors (current s)) (unat procfd) of
        None \<Rightarrow> 0
      | Some sysfd \<Rightarrow> file_of_sysfd s sysfd)"

definition valid_procfd :: "'d system \<Rightarrow> obj \<Rightarrow> FileDescriptor \<Rightarrow> bool" where
  "valid_procfd s p procfd \<longleftrightarrow> procfd_to_fd s p procfd \<noteq> InvalidFD"

definition valid_sysfd :: "'d system \<Rightarrow> FileDescriptor \<Rightarrow> bool" where
  "valid_sysfd s fd \<longleftrightarrow> file_of_sysfd s fd \<noteq> 0"

definition upd_fds :: "obj \<Rightarrow> FileDescriptor sparse_vector \<Rightarrow> 'd system \<Rightarrow> 'd system" where
  "upd_fds p t s = upd_process p (\<lambda>q. q\<lparr>FileDescriptors := t\<rparr>) s"

text \<open>\<open>add_file\<close> takes over the owner that its argument holds; a null process is the current one.\<close>

definition add_file :: "obj \<Rightarrow> obj \<Rightarrow> 'd system \<Rightarrow> (FileDescriptor \<times> FileDescriptor) \<times> 'd system" where
  "add_file m proc s =
     (let p = (if proc = 0 then CurrentProcess s else proc);
          ((fd, _), files) = sv_push_back 0 m (Files s);
          s1 = s\<lparr>Files := files\<rparr>;
          ((procfd, _), fds) = sv_push_back InvalidFD (of_nat fd) (FileDescriptors (processes s1 p))
      in ((of_nat procfd, of_nat fd), upd_fds p fds s1))"

definition free_fd :: "obj \<Rightarrow> FileDescriptor \<Rightarrow> FileDescriptor \<Rightarrow> 'd system \<Rightarrow> 'd system option" where
  "free_fd p fd procfd s =
     (if p = 0 then Some s
      else do {
        (_, fds) \<leftarrow> sv_erase InvalidFD (unat procfd) (FileDescriptors (processes s p));
        let s1 = upd_fds p fds s;
        let m = file_of_sysfd s1 fd;
        (erased, files) \<leftarrow> sv_erase 0 (unat fd) (Files s1);
        let s2 = s1\<lparr>Files := files\<rparr>;
        if erased then release_meta m s2 else Some s2
      })"

definition vfs_close :: "obj \<Rightarrow> FileDescriptor \<Rightarrow> 'd system \<Rightarrow> (bool \<times> 'd system) option" where
  "vfs_close p procfd s =
     (if p = 0 then Some (False, s)
      else let fd = procfd_to_fd s p procfd in
        if fd = InvalidFD then Some (False, s)
        else if file_of_sysfd s fd = 0 then Some (False, s)
        else do {
          s1 \<leftarrow> free_fd p fd procfd s;
          Some (True, s1)
        })"

fun vfs_open_loop :: "'d fs_ops \<Rightarrow> string \<Rightarrow> MountPoint list \<Rightarrow> 'd system \<Rightarrow>
    ((FileDescriptor \<times> FileDescriptor) \<times> 'd system) option" where
  "vfs_open_loop ops path [] s = Some ((InvalidFD, InvalidFD), s)"
| "vfs_open_loop ops path (mount # rest) s =
     (if take (length (mount_Path mount)) path \<noteq> mount_Path mount then vfs_open_loop ops path rest s
      else do {
        (m, s1) \<leftarrow> driver_open ops (mount_FS mount) (drop (length (mount_Path mount)) path) s;
        if m \<noteq> 0 then Some (add_file m 0 s1) else vfs_open_loop ops path rest s1
      })"

definition vfs_open :: "'d fs_ops \<Rightarrow> string \<Rightarrow> 'd system \<Rightarrow>
    ((FileDescriptor \<times> FileDescriptor) \<times> 'd system) option" where
  "vfs_open ops path s =
     (if length path \<le> 1 then Some ((InvalidFD, InvalidFD), s)
      else if hd path \<noteq> CHR ''/'' then Some ((InvalidFD, InvalidFD), s)
      else vfs_open_loop ops path (Mounts s) s)"

definition vfs_read :: "'d fs_ops \<Rightarrow> FileDescriptor \<Rightarrow> u64 \<Rightarrow> u64 \<Rightarrow> 'd system \<Rightarrow>
    (int \<times> u8 list \<times> 'd system) option" where
  "vfs_read ops fd byteCount byteOffset s =
     (let m = file_of_procfd s fd in
      if m = 0 then Some (- 1, [], s)
      else do {
        md \<leftarrow> metas s m;
        driver_read ops m (byteOffset + offset md) byteCount s
      })"

definition vfs_write :: "'d fs_ops \<Rightarrow> FileDescriptor \<Rightarrow> u64 \<Rightarrow> (nat \<Rightarrow> u8) \<Rightarrow> u64 \<Rightarrow> 'd system \<Rightarrow>
    (int \<times> 'd system) option" where
  "vfs_write ops fd byteCount buffer byteOffset s =
     (let m = file_of_procfd s fd in
      if m = 0 then Some (- 1, s)
      else do {
        md \<leftarrow> metas s m;
        driver_write ops m (byteOffset + offset md) byteCount buffer s
      })"

definition vfs_mount :: "string \<Rightarrow> FilesystemDriver \<Rightarrow> 'd system \<Rightarrow> 'd system" where
  "vfs_mount path fs s = s\<lparr>Mounts := Mounts s @ [\<lparr>mount_Path = path, mount_FS = fs\<rparr>]\<rparr>"

definition vfs_dup :: "obj \<Rightarrow> FileDescriptor \<Rightarrow> 'd system \<Rightarrow>
    ((FileDescriptor \<times> FileDescriptor) \<times> 'd system) option" where
  "vfs_dup proc fd s =
     (if proc = 0 \<or> \<not> valid_procfd s proc fd then Some ((InvalidFD, InvalidFD), s)
      else let f = file_of_sysfd s (procfd_to_fd s proc fd) in
        if f = 0 then Some ((InvalidFD, InvalidFD), s)
        else do {
          s1 \<leftarrow> acquire_meta f s;
          Some (add_file f proc s1)
        })"

definition vfs_dup2 :: "obj \<Rightarrow> FileDescriptor \<Rightarrow> FileDescriptor \<Rightarrow> 'd system \<Rightarrow> (bool \<times> 'd system) option" where
  "vfs_dup2 proc fd replaced s =
     (if proc = 0 then Some (False, s)
      else if \<not> valid_procfd s proc fd then Some (False, s)
      else if \<not> valid_procfd s proc replaced then Some (False, s)
      else if fd = replaced then Some (True, s)
      else let f = file_of_sysfd s (procfd_to_fd s proc fd) in
        if f = 0 then Some (False, s)
        else do {
          s1 \<leftarrow> acquire_meta f s;
          let replaced_sysfd = procfd_to_fd s1 proc replaced;
          let m = file_of_sysfd s1 replaced_sysfd;
          (ok, files) \<leftarrow> sv_replace 0 (unat replaced_sysfd) f (Files s1);
          let s2 = s1\<lparr>Files := files\<rparr>;
          s3 \<leftarrow> (if ok then (if m \<noteq> 0 then release_meta m s2 else Some s2) else release_meta f s2);
          Some (True, s3)
        })"

text \<open>\<open>directory_data\<close>: the root lists the mount points, with no regard to the room given.\<close>

fun directory_data_loop :: "'d fs_ops \<Rightarrow> string \<Rightarrow> u64 \<Rightarrow> MountPoint list \<Rightarrow> 'd system \<Rightarrow>
    (int \<times> (FileType \<times> string) list) option" where
  "directory_data_loop ops path n [] s = Some (- 1, [])"
| "directory_data_loop ops path n (mount # rest) s =
     (if take (length (mount_Path mount)) path \<noteq> mount_Path mount
      then directory_data_loop ops path n rest s
      else case mount_FS mount of
        NullDriver \<Rightarrow> None
      | MountedFS v \<Rightarrow>
          Some (fs_directory_data ops (drop (length (mount_Path mount)) path) n (volumes s v))
      | _ \<Rightarrow> Some (- 1, []))"

definition vfs_directory_data :: "'d fs_ops \<Rightarrow> string \<Rightarrow> u64 \<Rightarrow> 'd system \<Rightarrow>
    (int \<times> (FileType \<times> string) list) option" where
  "vfs_directory_data ops path entry_count s =
     (if entry_count = 0 then Some (0, [])
      else if path = [] \<or> path = ''/'' then
        Some (int (length (Mounts s)), map (\<lambda>m. (Directory, mount_Path m)) (Mounts s))
      else if hd path \<noteq> CHR ''/'' then Some (- 1, [])
      else directory_data_loop ops path entry_count (Mounts s) s)"

section \<open>What the drivers leave alone\<close>

text \<open>
  The part of the state the descriptor tables consist of.  Closing a file in its driver only
  touches the driver's own objects and the run state of the processes that wait on it.
\<close>

definition same_tables :: "'d system \<Rightarrow> 'd system \<Rightarrow> bool" where
  "same_tables s s' \<longleftrightarrow>
     Files s' = Files s \<and> ProcessQueue s' = ProcessQueue s \<and> CurrentProcess s' = CurrentProcess s \<and>
     next_obj s' = next_obj s \<and>
     (\<forall>p. FileDescriptors (processes s' p) = FileDescriptors (processes s p) \<and>
          ProcessID (processes s' p) = ProcessID (processes s p))"

lemma same_tables_refl [simp]: "same_tables s s"
  by (simp add: same_tables_def)

lemma same_tables_trans: "same_tables a b \<Longrightarrow> same_tables b c \<Longrightarrow> same_tables a c"
  by (simp add: same_tables_def)

lemma same_tables_wake_all [simp]: "same_tables s (wake_all v pids s)"
  by (simp add: same_tables_def)

lemma same_tables_upd_pipe [simp]: "same_tables s (upd_pipe b f s)"
  by (simp add: same_tables_def)

lemma pipe_close_frame:
  "pipe_close m s = Some s' \<Longrightarrow> same_tables s s' \<and> metas s' = metas s"
  by (auto simp: pipe_close_def Let_def same_tables_def
      split: if_splits bind_splits EndType.splits)

lemma socket_close_frame:
  "socket_close m s = Some s' \<Longrightarrow> same_tables s s' \<and> metas s' = metas s"
  by (auto simp: socket_close_def socket_unbind_def Let_def same_tables_def
      split: if_splits bind_splits)

lemma input_close_frame:
  "input_close m s = Some s' \<Longrightarrow> same_tables s s' \<and> metas s' = metas s"
  by (auto simp: input_close_def same_tables_def split: if_splits bind_splits)

lemma driver_close_frame:
  "driver_close m s = Some s' \<Longrightarrow> same_tables s s' \<and> metas s' = metas s"
  by (auto simp: driver_close_def split: bind_splits FilesystemDriver.splits
      dest: pipe_close_frame socket_close_frame input_close_frame)

lemma acquire_meta_frame:
  assumes "acquire_meta m s = Some s'"
  obtains md where "metas s m = Some md" "same_tables s s'"
    "metas s' = (metas s)(m \<mapsto> md\<lparr>use_count := use_count md + 1\<rparr>)"
  using assms by (auto simp: acquire_meta_def same_tables_def split: bind_splits)

lemma release_meta_frame:
  assumes "release_meta m s = Some s'"
  obtains md where "metas s m = Some md" "same_tables s s'"
    "metas s' = (metas s)(m := (if use_count md \<le> 1 then None
                                 else Some (md\<lparr>use_count := use_count md - 1\<rparr>)))"
proof -
  obtain md where md: "metas s m = Some md"
    using assms by (auto simp: release_meta_def split: bind_splits)
  show ?thesis
  proof (cases "use_count md \<le> 1")
    case True
    then obtain s1 where "driver_close m s = Some s1" "s' = s1\<lparr>metas := (metas s1)(m := None)\<rparr>"
      using assms md by (auto simp: release_meta_def split: bind_splits)
    then show ?thesis
      using that [OF md] True driver_close_frame [of m s s1] by (auto simp: same_tables_def)
  next
    case False
    then show ?thesis
      using that [OF md] assms md by (auto simp: release_meta_def same_tables_def)
  qed
qed

section \<open>The invariant\<close>

text \<open>The system descriptor of a process descriptor, and the file it refers to (0: none).\<close>

abbreviation fds :: "'d system \<Rightarrow> obj \<Rightarrow> nat \<Rightarrow> FileDescriptor" where
  "fds s p \<equiv> sv_get InvalidFD (FileDescriptors (processes s p))"

abbreviation slots :: "'d system \<Rightarrow> nat \<Rightarrow> obj" where
  "slots s \<equiv> sv_get 0 (Files s)"

definition vfs_file :: "'d system \<Rightarrow> obj \<Rightarrow> nat \<Rightarrow> obj" where
  "vfs_file s p i = (if fds s p i = InvalidFD then 0 else slots s (unat (fds s p i)))"

definition vfs_inv :: "'d system \<Rightarrow> bool" where
  "vfs_inv s \<longleftrightarrow>
     sv_inv 0 (Files s) \<and>
     (\<forall>p \<in> set (ProcessQueue s). sv_inv InvalidFD (FileDescriptors (processes s p))) \<and>
     (\<forall>p \<in> set (ProcessQueue s). \<forall>i. fds s p i \<noteq> InvalidFD \<longrightarrow> slots s (unat (fds s p i)) \<noteq> 0) \<and>
     (\<forall>p \<in> set (ProcessQueue s). \<forall>q \<in> set (ProcessQueue s). \<forall>i j.
        fds s p i \<noteq> InvalidFD \<and> fds s p i = fds s q j \<longrightarrow> p = q \<and> i = j) \<and>
     (\<forall>i. slots s i \<noteq> 0 \<longrightarrow>
        (\<exists>md. metas s (slots s i) = Some md \<and> occurrences (slots s) (slots s i) \<le> use_count md))"

text \<open>Room for one more descriptor: the tables have not reached the invalid descriptor.\<close>

definition fd_room :: "'d system \<Rightarrow> obj \<Rightarrow> bool" where
  "fd_room s p \<longleftrightarrow>
     length (sv_els (Files s)) < 18446744073709551615 \<and>
     length (sv_els (FileDescriptors (processes s p))) < 18446744073709551615"

lemma vfs_invD:
  assumes "vfs_inv s"
  shows "sv_inv 0 (Files s)"
    and "p \<in> set (ProcessQueue s) \<Longrightarrow> sv_inv InvalidFD (FileDescriptors (processes s p))"
    and "p \<in> set (ProcessQueue s) \<Longrightarrow> fds s p i \<noteq> InvalidFD \<Longrightarrow> slots s (unat (fds s p i)) \<noteq> 0"
    and "p \<in> set (ProcessQueue s) \<Longrightarrow> q \<in> set (ProcessQueue s) \<Longrightarrow> fds s p i \<noteq> InvalidFD \<Longrightarrow>
           fds s p i = fds s q j \<Longrightarrow> p = q \<and> i = j"
    and "slots s k \<noteq> 0 \<Longrightarrow>
           \<exists>md. metas s (slots s k) = Some md \<and> occurrences (slots s) (slots s k) \<le> use_count md"
  using assms unfolding vfs_inv_def by blast+

lemma procfd_to_fd_eq: "procfd_to_fd s p fd = fds s p (unat fd)"
  by (simp add: procfd_to_fd_def sv_get_at)

lemma file_of_sysfd_eq: "file_of_sysfd s fd = slots s (unat fd)"
  by (simp add: file_of_sysfd_def)

lemma same_tables_vfs_file:
  assumes "same_tables s s'"
  shows "vfs_file s' = vfs_file s" "fds s' = fds s" "slots s' = slots s"
    "ProcessQueue s' = ProcessQueue s"
  using assms by (auto simp: same_tables_def vfs_file_def fun_eq_iff)

lemma InvalidFD_unat: "unat InvalidFD = 18446744073709551615"
  by (simp add: InvalidFD_def unsigned_minus_1_eq_mask mask_eq_exp_minus_1)

lemma of_nat_not_invalid:
  assumes "n < 18446744073709551615"
  shows "of_nat n \<noteq> InvalidFD" "unat (of_nat n :: FileDescriptor) = n"
proof -
  show u: "unat (of_nat n :: FileDescriptor) = n" using assms by (simp add: unat_of_nat_u64)
  show "of_nat n \<noteq> InvalidFD" using u InvalidFD_unat assms by (metis less_irrefl)
qed

lemma sv_free_index:
  assumes "sv_push_back x v t = ((i, b), t')" "sv_inv x t" "v \<noteq> x"
  shows "i \<le> length (sv_els t)"
proof (cases "sv_idxs t = []")
  case True
  then show ?thesis using sv_push_back_spec(5) [OF assms(2,3,1)] by simp
next
  case False
  then have "last (sv_idxs t) \<in> set (sv_idxs t)" by simp
  then have "last (sv_idxs t) < length (sv_els t)" using assms(2) by (simp add: sv_inv_def)
  then show ?thesis
    using assms(1,3) False by (auto simp: sv_push_back_def sv_allocate_def)
qed

section \<open>Adding a file\<close>

lemma add_file_spec:
  assumes inv: "vfs_inv s" and p: "p \<in> set (ProcessQueue s)" "p \<noteq> 0" and m: "m \<noteq> 0"
    and md: "metas s m = Some md" "occurrences (slots s) m < use_count md"
    and room: "fd_room s p"
    and add: "add_file m p s = ((procfd, fd), s')"
  shows "vfs_inv s'"
    and "vfs_file s p (unat procfd) = 0" "vfs_file s' p (unat procfd) = m"
    and "procfd \<noteq> InvalidFD" "fd \<noteq> InvalidFD"
    and "\<And>q j. q \<in> set (ProcessQueue s) \<Longrightarrow> (q, j) \<noteq> (p, unat procfd) \<Longrightarrow>
           vfs_file s' q j = vfs_file s q j"
    and "metas s' = metas s" "ProcessQueue s' = ProcessQueue s"
    and "fds s p (unat procfd) = InvalidFD"
    and "\<And>q k. fds s' q k = (if q = p \<and> k = unat procfd then fd else fds s q k)"
    and "sv_idxs (FileDescriptors (processes s p)) = [] \<Longrightarrow>
           unat procfd = length (sv_els (FileDescriptors (processes s p))) \<and>
           sv_idxs (FileDescriptors (processes s' p)) = []"
    and "length (sv_els (FileDescriptors (processes s' p))) =
           max (length (sv_els (FileDescriptors (processes s p)))) (Suc (unat procfd))"
    and "length (sv_els (Files s')) \<le> Suc (length (sv_els (Files s)))"
proof -
  obtain i b1 files where f: "sv_push_back 0 m (Files s) = ((i, b1), files)" by (metis surj_pair)
  note F = sv_push_back_spec [OF vfs_invD(1) [OF inv] m f]
  have il: "i < 18446744073709551615"
    using sv_free_index [OF f vfs_invD(1) [OF inv] m] room by (simp add: fd_room_def)
  note I = of_nat_not_invalid [OF il]
  obtain j b2 t where g: "sv_push_back InvalidFD (of_nat i) (FileDescriptors (processes s p)) = ((j, b2), t)"
    by (metis surj_pair)
  note G = sv_push_back_spec [OF vfs_invD(2) [OF inv p(1)] I(1) g]
  have jl: "j < 18446744073709551615"
    using sv_free_index [OF g vfs_invD(2) [OF inv p(1)] I(1)] room by (simp add: fd_room_def)
  note J = of_nat_not_invalid [OF jl]
  have res: "procfd = of_nat j" "fd = of_nat i" "s' = upd_fds p t (s\<lparr>Files := files\<rparr>)"
    using add p(2) f g by (auto simp: add_file_def Let_def)
  have Fs: "slots s' = (slots s)(i := m)" using F(4) by (simp add: res upd_fds_def upd_process_def)
  have fds': "fds s' q k = (if q = p \<and> k = j then of_nat i else fds s q k)" for q k
    using G(4) by (auto simp: res upd_fds_def fun_eq_iff)
  have Q: "ProcessQueue s' = ProcessQueue s" "metas s' = metas s" "Files s' = files"
    "FileDescriptors (processes s' p) = t"
    by (simp_all add: res upd_fds_def upd_process_def)
  have i_unused: "unat (fds s q k) \<noteq> i" if "q \<in> set (ProcessQueue s)" "fds s q k \<noteq> InvalidFD" for q k
    using vfs_invD(3) [OF inv that] F(3) by metis
  have i_unused': "fds s q k \<noteq> of_nat i" if "q \<in> set (ProcessQueue s)" "fds s q k \<noteq> InvalidFD" for q k
    using i_unused [OF that] I(2) by metis
  show "metas s' = metas s" "ProcessQueue s' = ProcessQueue s" by (simp_all add: Q)
  note rs = res(1,2)
  show "procfd \<noteq> InvalidFD" "fd \<noteq> InvalidFD" using I J by (simp_all add: rs)
  show "fds s p (unat procfd) = InvalidFD" using G(3) J by (simp add: rs)
  then show "vfs_file s p (unat procfd) = 0" by (simp add: vfs_file_def)
  show "vfs_file s' p (unat procfd) = m"
    using I J by (simp add: vfs_file_def fds' Fs rs)
  show "vfs_file s' q k = vfs_file s q k"
    if "q \<in> set (ProcessQueue s)" "(q, k) \<noteq> (p, unat procfd)" for q k
    using that i_unused [of q k] J by (auto simp: vfs_file_def fds' Fs rs)
  show "fds s' q k = (if q = p \<and> k = unat procfd then fd else fds s q k)" for q k
    using fds' J by (simp add: rs)
  show "sv_idxs (FileDescriptors (processes s p)) = [] \<Longrightarrow>
           unat procfd = length (sv_els (FileDescriptors (processes s p))) \<and>
           sv_idxs (FileDescriptors (processes s' p)) = []"
    using G(5) J by (simp add: Q rs)
  show "length (sv_els (FileDescriptors (processes s' p))) =
           max (length (sv_els (FileDescriptors (processes s p)))) (Suc (unat procfd))"
    using G(6) J by (simp add: Q rs)
  show "length (sv_els (Files s')) \<le> Suc (length (sv_els (Files s)))"
    using F(6) sv_free_index [OF f vfs_invD(1) [OF inv] m] by (simp add: Q)
  have occ: "occurrences (slots s') w = occurrences (slots s) w + (if m = w then 1 else 0)"
    if "w \<noteq> 0" for w
    using sv.insert_occurrences [OF vfs_invD(1) [OF inv] m that] f Q by simp
  show "vfs_inv s'" unfolding vfs_inv_def
  proof (intro conjI)
    show "sv_inv 0 (Files s')" using F(2) by (simp add: Q)
    show "\<forall>q \<in> set (ProcessQueue s'). sv_inv InvalidFD (FileDescriptors (processes s' q))"
      using G(2) vfs_invD(2) [OF inv] by (auto simp: res upd_fds_def upd_process_def)
    show "\<forall>q \<in> set (ProcessQueue s'). \<forall>k. fds s' q k \<noteq> InvalidFD \<longrightarrow> slots s' (unat (fds s' q k)) \<noteq> 0"
      using vfs_invD(3) [OF inv] I m by (auto simp: Q(1,2) fds' Fs)
    show "\<forall>q \<in> set (ProcessQueue s'). \<forall>r \<in> set (ProcessQueue s'). \<forall>k l.
        fds s' q k \<noteq> InvalidFD \<and> fds s' q k = fds s' r l \<longrightarrow> q = r \<and> k = l"
      using vfs_invD(4) [OF inv] i_unused' p(1) by (auto simp: Q(1,2) fds' split: if_splits) metis+
    show "\<forall>k. slots s' k \<noteq> 0 \<longrightarrow>
        (\<exists>md. metas s' (slots s' k) = Some md \<and> occurrences (slots s') (slots s' k) \<le> use_count md)"
    proof (intro allI impI)
      fix k assume k: "slots s' k \<noteq> 0"
      show "\<exists>md. metas s' (slots s' k) = Some md \<and> occurrences (slots s') (slots s' k) \<le> use_count md"
      proof (cases "slots s' k = m")
        case True
        then show ?thesis using md m occ [of m] by (simp add: Q(2))
      next
        case False
        then have "slots s k = slots s' k" by (auto simp: Fs split: if_splits)
        then show ?thesis using vfs_invD(5) [OF inv, of k] False k occ [OF k] by (auto simp: Q(2))
      qed
    qed
  qed
qed

section \<open>Owners and closing\<close>

lemma vfs_inv_same_tables:
  assumes "vfs_inv s" "same_tables s s'"
    and "\<And>i. slots s i \<noteq> 0 \<Longrightarrow>
           \<exists>md. metas s' (slots s i) = Some md \<and> occurrences (slots s) (slots s i) \<le> use_count md"
  shows "vfs_inv s'"
proof -
  have eqs: "Files s' = Files s" "ProcessQueue s' = ProcessQueue s"
    "\<And>p. FileDescriptors (processes s' p) = FileDescriptors (processes s p)"
    using assms(2) by (auto simp: same_tables_def)
  show ?thesis using assms(1,3) unfolding vfs_inv_def eqs by blast
qed

lemma acquire_inv:
  assumes "vfs_inv s" "acquire_meta m s = Some s'"
  shows "vfs_inv s'"
proof -
  obtain md where a: "metas s m = Some md" "same_tables s s'"
    "metas s' = (metas s)(m \<mapsto> md\<lparr>use_count := use_count md + 1\<rparr>)"
    using assms(2) by (rule acquire_meta_frame)
  show ?thesis
    using vfs_invD(5) [OF assms(1)] a
    by (intro vfs_inv_same_tables [OF assms(1) a(2)]) (fastforce simp: le_Suc_eq)
qed

lemma release_inv:
  assumes "vfs_inv s" "release_meta m s = Some s'"
    and "metas s m = Some md" "m \<noteq> 0" "occurrences (slots s) m < use_count md"
  shows "vfs_inv s'"
proof -
  obtain md' where a: "metas s m = Some md'" "same_tables s s'"
    "metas s' = (metas s)(m := (if use_count md' \<le> 1 then None
                                 else Some (md'\<lparr>use_count := use_count md' - 1\<rparr>)))"
    using assms(2) by (rule release_meta_frame)
  have none: "slots s i \<noteq> m" if "use_count md \<le> 1" for i
    using sv.occurs_iff [OF assms(4), of "Files s"] assms(5) that by auto
  show ?thesis
    using vfs_invD(5) [OF assms(1)] a assms(3,5) none
    by (intro vfs_inv_same_tables [OF assms(1) a(2)]) force
qed

text \<open>A file whose driver objects are in place can be closed.\<close>

definition closable :: "'d system \<Rightarrow> obj \<Rightarrow> bool" where
  "closable s m \<longleftrightarrow>
     (case metas s m of
        None \<Rightarrow> False
      | Some md \<Rightarrow>
          (case FileDriver md of
             PipesDriver \<Rightarrow> pipe_ends s (DriverData md) \<noteq> None
           | SocketsDriver \<Rightarrow> DriverData md = 0 \<or>
               (case sockets s (DriverData md) of
                  None \<Rightarrow> False
                | Some sd \<Rightarrow> socket_Buffers sd = 0 \<or> socket_buffers s (socket_Buffers sd) \<noteq> None)
           | _ \<Rightarrow> True))"

lemma closable_cong:
  assumes "metas s' = metas s" "pipe_ends s' = pipe_ends s" "sockets s' = sockets s"
    "socket_buffers s' = socket_buffers s"
  shows "closable s' m = closable s m"
  unfolding closable_def assms by (rule refl)

lemma closable_owners:
  assumes "closable s m" "metas s f = Some md"
  shows "closable (s\<lparr>metas := (metas s)(f \<mapsto> md\<lparr>use_count := n\<rparr>), Files := t\<rparr>) m"
proof (cases "m = f")
  case True
  then show ?thesis using assms by (cases "FileDriver md") (simp_all add: closable_def split: option.splits)
next
  case False
  then obtain md' where "metas s m = Some md'"
    using assms(1) by (auto simp: closable_def split: option.splits)
  then show ?thesis using assms False by (cases "FileDriver md'") (simp_all add: closable_def split: option.splits)
qed

lemma closable_release:
  assumes "closable s m" "m \<noteq> 0"
  shows "\<exists>s'. release_meta m s = Some s'"
proof -
  obtain md where md: "metas s m = Some md" using assms(1) by (auto simp: closable_def split: option.splits)
  have "\<exists>s'. driver_close m s = Some s'"
  proof (cases "FileDriver md")
    case PipesDriver
    then obtain pe where "pipe_ends s (DriverData md) = Some pe"
      using assms md by (auto simp: closable_def)
    then show ?thesis
      using assms md PipesDriver
      by (cases "end_End pe") (auto simp: driver_close_def pipe_close_def Let_def)
  next
    case SocketsDriver
    then show ?thesis
      using assms md
      by (cases "sockets s (DriverData md)")
         (auto simp: closable_def driver_close_def socket_close_def Let_def)
  qed (use md in \<open>auto simp: driver_close_def input_close_def assms(2)\<close>)
  then show ?thesis by (auto simp: release_meta_def md)
qed

text \<open>Erasing a descriptor of a process together with the slot it refers to.\<close>

lemma erase_descriptor:
  assumes inv: "vfs_inv s" and p: "p \<in> set (ProcessQueue s)"
    and fd: "fds s p i = fd" "fd \<noteq> InvalidFD"
  obtains t files s2 where
    "sv_erase InvalidFD i (FileDescriptors (processes s p)) = Some (True, t)"
    "sv_erase 0 (unat fd) (Files s) = Some (True, files)"
    "s2 = upd_fds p t s\<lparr>Files := files\<rparr>" "vfs_inv s2"
    "vfs_file s2 p i = 0"
    "\<And>q j. q \<in> set (ProcessQueue s) \<Longrightarrow> (q, j) \<noteq> (p, i) \<Longrightarrow> vfs_file s2 q j = vfs_file s q j"
    "occurrences (slots s) (slots s (unat fd)) = Suc (occurrences (slots s2) (slots s (unat fd)))"
    "metas s2 = metas s" "ProcessQueue s2 = ProcessQueue s"
proof -
  have nz: "slots s (unat fd) \<noteq> 0" using vfs_invD(3) [OF inv p, of i] fd by simp
  obtain t where t: "sv_erase InvalidFD i (FileDescriptors (processes s p)) = Some (True, t)"
    "sv_inv InvalidFD t" "sv_get InvalidFD t = (fds s p)(i := InvalidFD)"
    using sv_erase_spec [OF vfs_invD(2) [OF inv p], of i] fd by metis
  obtain files where f: "sv_erase 0 (unat fd) (Files s) = Some (True, files)"
    "sv_inv 0 files" "sv_get 0 files = (slots s)(unat fd := 0)"
    using sv_erase_spec [OF vfs_invD(1) [OF inv] nz] by metis
  define s2 where "s2 = upd_fds p t s\<lparr>Files := files\<rparr>"
  have fds2: "fds s2 q j = (if q = p \<and> j = i then InvalidFD else fds s q j)" for q j
    using t(3) by (auto simp: s2_def upd_fds_def)
  have slots2: "slots s2 = (slots s)(unat fd := 0)" using f(3) by (simp add: s2_def)
  have Q: "ProcessQueue s2 = ProcessQueue s" "metas s2 = metas s"
    by (simp_all add: s2_def upd_fds_def upd_process_def)
  have other: "unat (fds s q j) \<noteq> unat fd"
    if "q \<in> set (ProcessQueue s)" "fds s q j \<noteq> InvalidFD" "(q, j) \<noteq> (p, i)" for q j
    using vfs_invD(4) [OF inv that(1) p that(2), of i] that(3) fd
    by (metis prod.inject word_unat_eq_iff)
  have occ: "occurrences (slots s) w = occurrences (slots s2) w + (if slots s (unat fd) = w then 1 else 0)"
    if "w \<noteq> 0" for w
    using sv.clear_occurrences [OF vfs_invD(1) [OF inv] nz that, of files] f(1)
    by (simp add: s2_def)
  have "vfs_inv s2" unfolding vfs_inv_def
  proof (intro conjI)
    show "sv_inv 0 (Files s2)" using f(2) by (simp add: s2_def)
    show "\<forall>q \<in> set (ProcessQueue s2). sv_inv InvalidFD (FileDescriptors (processes s2 q))"
      using t(2) vfs_invD(2) [OF inv] Q by (auto simp: s2_def upd_fds_def)
    show "\<forall>q \<in> set (ProcessQueue s2). \<forall>k. fds s2 q k \<noteq> InvalidFD \<longrightarrow> slots s2 (unat (fds s2 q k)) \<noteq> 0"
      using vfs_invD(3) [OF inv] other by (auto simp: Q fds2 slots2)
    show "\<forall>q \<in> set (ProcessQueue s2). \<forall>r \<in> set (ProcessQueue s2). \<forall>k l.
        fds s2 q k \<noteq> InvalidFD \<and> fds s2 q k = fds s2 r l \<longrightarrow> q = r \<and> k = l"
      using vfs_invD(4) [OF inv] by (auto simp: Q fds2)
    show "\<forall>k. slots s2 k \<noteq> 0 \<longrightarrow>
        (\<exists>md. metas s2 (slots s2 k) = Some md \<and> occurrences (slots s2) (slots s2 k) \<le> use_count md)"
    proof (intro allI impI)
      fix k assume k: "slots s2 k \<noteq> 0"
      then have eq: "slots s2 k = slots s k" by (simp add: slots2 split: if_splits)
      then obtain md where "metas s (slots s k) = Some md"
        "occurrences (slots s) (slots s k) \<le> use_count md"
        using vfs_invD(5) [OF inv, of k] k by auto
      then show "\<exists>md. metas s2 (slots s2 k) = Some md \<and> occurrences (slots s2) (slots s2 k) \<le> use_count md"
        using occ [OF k] by (auto simp: Q eq)
    qed
  qed
  moreover have "vfs_file s2 p i = 0" by (simp add: vfs_file_def fds2)
  moreover have "vfs_file s2 q j = vfs_file s q j"
    if "q \<in> set (ProcessQueue s)" "(q, j) \<noteq> (p, i)" for q j
    using other [of q j] that by (auto simp: vfs_file_def fds2 slots2)
  ultimately show ?thesis
    using that t(1) f(1) s2_def occ [OF nz] Q by simp
qed

lemma vfs_close_spec:
  assumes inv: "vfs_inv s" and p: "p \<in> set (ProcessQueue s)" "p \<noteq> 0"
    and valid: "valid_procfd s p procfd" and run: "vfs_close p procfd s = Some (b, s')"
  shows "b" "vfs_inv s'" "vfs_file s' p (unat procfd) = 0"
    and "\<And>q j. q \<in> set (ProcessQueue s) \<Longrightarrow> (q, j) \<noteq> (p, unat procfd) \<Longrightarrow>
           vfs_file s' q j = vfs_file s q j"
    and "ProcessQueue s' = ProcessQueue s"
    and "\<exists>md. metas s (vfs_file s p (unat procfd)) = Some md \<and>
           metas s' = (metas s)(vfs_file s p (unat procfd) :=
             (if use_count md \<le> 1 then None else Some (md\<lparr>use_count := use_count md - 1\<rparr>)))"
proof -
  define fd where "fd = fds s p (unat procfd)"
  have fd: "fd \<noteq> InvalidFD" using valid by (simp add: valid_procfd_def procfd_to_fd_eq fd_def)
  define m where "m = slots s (unat fd)"
  have nz: "m \<noteq> 0" using vfs_invD(3) [OF inv p(1)] fd by (simp add: m_def fd_def)
  have mf: "vfs_file s p (unat procfd) = m" using fd by (simp add: vfs_file_def m_def fd_def)
  obtain t files s2 where e:
    "sv_erase InvalidFD (unat procfd) (FileDescriptors (processes s p)) = Some (True, t)"
    "sv_erase 0 (unat fd) (Files s) = Some (True, files)"
    "s2 = upd_fds p t s\<lparr>Files := files\<rparr>" "vfs_inv s2"
    "vfs_file s2 p (unat procfd) = 0"
    "\<And>q j. q \<in> set (ProcessQueue s) \<Longrightarrow> (q, j) \<noteq> (p, unat procfd) \<Longrightarrow> vfs_file s2 q j = vfs_file s q j"
    "occurrences (slots s) (slots s (unat fd)) = Suc (occurrences (slots s2) (slots s (unat fd)))"
    "metas s2 = metas s" "ProcessQueue s2 = ProcessQueue s"
    by (rule erase_descriptor [OF inv p(1) fd_def [symmetric] fd]) (rule that, assumption+)
  have Fs: "Files (upd_fds p t s) = Files s" by (simp add: upd_fds_def upd_process_def)
  have rel: "b" "release_meta m s2 = Some s'"
    using run p(2) fd nz e(1,2)
    by (auto simp: vfs_close_def free_fd_def procfd_to_fd_eq fd_def [symmetric] file_of_sysfd_eq
        m_def [symmetric] e(3) Fs Let_def split: bind_splits)
  obtain md where md: "metas s m = Some md" "occurrences (slots s) m \<le> use_count md"
    using vfs_invD(5) [OF inv, of "unat fd"] nz by (auto simp: m_def)
  have lt: "occurrences (slots s2) m < use_count md" using md(2) e(7) by (simp add: m_def)
  obtain md' where a: "metas s2 m = Some md'" "same_tables s2 s'"
    "metas s' = (metas s2)(m := (if use_count md' \<le> 1 then None
                                  else Some (md'\<lparr>use_count := use_count md' - 1\<rparr>)))"
    using rel(2) by (rule release_meta_frame)
  show "b" by (rule rel(1))
  show "vfs_inv s'" using release_inv [OF e(4) rel(2) _ nz lt] md(1) e(8) by simp
  show "vfs_file s' p (unat procfd) = 0" using e(5) same_tables_vfs_file(1) [OF a(2)] by simp
  show "vfs_file s' q j = vfs_file s q j" if "q \<in> set (ProcessQueue s)" "(q, j) \<noteq> (p, unat procfd)" for q j
    using e(6) [OF that] same_tables_vfs_file(1) [OF a(2)] by simp
  show "ProcessQueue s' = ProcessQueue s" using e(9) same_tables_vfs_file(4) [OF a(2)] by simp
  show "\<exists>md. metas s (vfs_file s p (unat procfd)) = Some md \<and>
           metas s' = (metas s)(vfs_file s p (unat procfd) :=
             (if use_count md \<le> 1 then None else Some (md\<lparr>use_count := use_count md - 1\<rparr>)))"
    using a e(8) md(1) by (simp add: mf)
qed

text \<open>With the driver objects in place, closing a valid descriptor has a result.\<close>

lemma vfs_close_total:
  assumes inv: "vfs_inv s" and p: "p \<in> set (ProcessQueue s)" "p \<noteq> 0"
    and valid: "valid_procfd s p procfd" and cl: "closable s (vfs_file s p (unat procfd))"
  shows "\<exists>s'. vfs_close p procfd s = Some (True, s')"
proof -
  define fd where "fd = fds s p (unat procfd)"
  have fd: "fd \<noteq> InvalidFD" using valid by (simp add: valid_procfd_def procfd_to_fd_eq fd_def)
  define m where "m = slots s (unat fd)"
  have nz: "m \<noteq> 0" using vfs_invD(3) [OF inv p(1)] fd by (simp add: m_def fd_def)
  have mf: "vfs_file s p (unat procfd) = m" using fd by (simp add: vfs_file_def m_def fd_def)
  obtain t files s2 where e:
    "sv_erase InvalidFD (unat procfd) (FileDescriptors (processes s p)) = Some (True, t)"
    "sv_erase 0 (unat fd) (Files s) = Some (True, files)"
    "s2 = upd_fds p t s\<lparr>Files := files\<rparr>"
    by (rule erase_descriptor [OF inv p(1) fd_def [symmetric] fd]) (rule that, assumption+)
  have "closable s2 m"
    using cl closable_cong [of s2 s m] by (simp add: mf e(3) upd_fds_def upd_process_def)
  then obtain s' where "release_meta m s2 = Some s'" using closable_release nz by blast
  moreover have "Files (upd_fds p t s) = Files s" by (simp add: upd_fds_def upd_process_def)
  ultimately show ?thesis
    using p(2) fd nz e
    by (auto simp: vfs_close_def free_fd_def procfd_to_fd_eq fd_def [symmetric] file_of_sysfd_eq
        m_def [symmetric] Let_def)
qed

section \<open>Duplicating descriptors\<close>

lemma vfs_dup_spec:
  assumes inv: "vfs_inv s" and p: "p \<in> set (ProcessQueue s)" "p \<noteq> 0"
    and valid: "valid_procfd s p fd" and room: "fd_room s p"
    and run: "vfs_dup p fd s = Some ((procfd, sysfd), s')"
  shows "vfs_inv s'" "procfd \<noteq> InvalidFD"
    and "vfs_file s p (unat procfd) = 0" "vfs_file s' p (unat procfd) = vfs_file s p (unat fd)"
    and "\<And>q j. q \<in> set (ProcessQueue s) \<Longrightarrow> (q, j) \<noteq> (p, unat procfd) \<Longrightarrow>
           vfs_file s' q j = vfs_file s q j"
    and "ProcessQueue s' = ProcessQueue s"
    and "\<exists>md. metas s (vfs_file s p (unat fd)) = Some md \<and>
           metas s' = (metas s)(vfs_file s p (unat fd) \<mapsto> md\<lparr>use_count := use_count md + 1\<rparr>)"
proof -
  define g where "g = fds s p (unat fd)"
  have g: "g \<noteq> InvalidFD" using valid by (simp add: valid_procfd_def procfd_to_fd_eq g_def)
  define m where "m = slots s (unat g)"
  have nz: "m \<noteq> 0" using vfs_invD(3) [OF inv p(1)] g by (simp add: m_def g_def)
  have mf: "vfs_file s p (unat fd) = m" using g by (simp add: vfs_file_def m_def g_def)
  obtain s1 where acq: "acquire_meta m s = Some s1" and add: "add_file m p s1 = ((procfd, sysfd), s')"
    using run p(2) valid nz
    by (auto simp: vfs_dup_def procfd_to_fd_eq g_def [symmetric] file_of_sysfd_eq m_def [symmetric]
        Let_def split: bind_splits)
  obtain md where a: "metas s m = Some md" "same_tables s s1"
    "metas s1 = (metas s)(m \<mapsto> md\<lparr>use_count := use_count md + 1\<rparr>)"
    using acq by (rule acquire_meta_frame)
  have le: "occurrences (slots s) m \<le> use_count md"
    using vfs_invD(5) [OF inv, of "unat g"] nz a(1) by (auto simp: m_def)
  have tabs: "ProcessQueue s1 = ProcessQueue s" "slots s1 = slots s" "vfs_file s1 = vfs_file s"
    using same_tables_vfs_file [OF a(2)] by auto
  have room1: "fd_room s1 p" using room a(2) by (simp add: fd_room_def same_tables_def)
  have p1: "p \<in> set (ProcessQueue s1)" using p(1) tabs by simp
  have md1: "metas s1 m = Some (md\<lparr>use_count := use_count md + 1\<rparr>)" using a(3) by simp
  have lt1: "occurrences (slots s1) m < use_count (md\<lparr>use_count := use_count md + 1\<rparr>)"
    using le unfolding tabs(2) by simp
  note A = add_file_spec [OF acquire_inv [OF inv acq] p1 p(2) nz md1 lt1 room1 add]
  show "vfs_inv s'" "procfd \<noteq> InvalidFD" by (fact A)+
  show "vfs_file s p (unat procfd) = 0" "vfs_file s' p (unat procfd) = vfs_file s p (unat fd)"
    using A(2,3) tabs mf by simp_all
  show "vfs_file s' q j = vfs_file s q j" if "q \<in> set (ProcessQueue s)" "(q, j) \<noteq> (p, unat procfd)" for q j
    using A(6) [of q j] that tabs by simp
  show "ProcessQueue s' = ProcessQueue s" using A(8) tabs by simp
  show "\<exists>md. metas s (vfs_file s p (unat fd)) = Some md \<and>
           metas s' = (metas s)(vfs_file s p (unat fd) \<mapsto> md\<lparr>use_count := use_count md + 1\<rparr>)"
    using A(7) a mf by simp
qed

text \<open>Replacing the file in a slot that a descriptor refers to.\<close>

lemma replace_slot:
  assumes inv: "vfs_inv s" and k: "slots s k \<noteq> 0" and f: "f \<noteq> 0"
    and md: "metas s f = Some md" "occurrences (slots s) f < use_count md"
  obtains files s2 where "sv_replace 0 k f (Files s) = Some (True, files)" "s2 = s\<lparr>Files := files\<rparr>"
    "vfs_inv s2" "slots s2 = (slots s)(k := f)"
    "\<exists>md'. metas s2 (slots s k) = Some md' \<and> occurrences (slots s2) (slots s k) < use_count md'"
proof -
  obtain files where r: "sv_replace 0 k f (Files s) = Some (True, files)" "sv_inv 0 files"
    "sv_get 0 files = (slots s)(k := f)"
    using sv_replace_spec [OF vfs_invD(1) [OF inv] k f] by metis
  define s2 where "s2 = s\<lparr>Files := files\<rparr>"
  have slots2: "slots s2 = (slots s)(k := f)" using r(3) by (simp add: s2_def)
  have occ: "occurrences (slots s2) w + (if slots s k = w then 1 else 0) =
               occurrences (slots s) w + (if f = w then 1 else 0)" if "w \<noteq> 0" for w
    using sv.set_occurrences [OF vfs_invD(1) [OF inv] k f that, of files] r(1) by (simp add: s2_def)
  have live: "\<exists>md. metas s2 w = Some md \<and> occurrences (slots s2) w \<le> use_count md"
    if w: "w \<noteq> 0" "w = f \<or> (\<exists>j. slots s j = w)" for w
  proof (cases "w = f")
    case True
    then show ?thesis using occ [OF f] md by (auto simp: s2_def split: if_splits)
  next
    case False
    then obtain j where "slots s j = w" using w by auto
    then obtain md' where "metas s w = Some md'" "occurrences (slots s) w \<le> use_count md'"
      using vfs_invD(5) [OF inv, of j] w(1) by auto
    then show ?thesis using occ [OF w(1)] False by (auto simp: s2_def split: if_splits)
  qed
  have "vfs_inv s2" unfolding vfs_inv_def
  proof (intro conjI)
    show "sv_inv 0 (Files s2)" using r(2) by (simp add: s2_def)
    show "\<forall>q \<in> set (ProcessQueue s2). sv_inv InvalidFD (FileDescriptors (processes s2 q))"
      using vfs_invD(2) [OF inv] by (simp add: s2_def)
    show "\<forall>q \<in> set (ProcessQueue s2). \<forall>i. fds s2 q i \<noteq> InvalidFD \<longrightarrow> slots s2 (unat (fds s2 q i)) \<noteq> 0"
      using vfs_invD(3) [OF inv] f unfolding slots2 by (auto simp: s2_def)
    show "\<forall>q \<in> set (ProcessQueue s2). \<forall>r \<in> set (ProcessQueue s2). \<forall>i j.
        fds s2 q i \<noteq> InvalidFD \<and> fds s2 q i = fds s2 r j \<longrightarrow> q = r \<and> i = j"
      by (simp add: s2_def) (blast dest: vfs_invD(4) [OF inv])
    show "\<forall>j. slots s2 j \<noteq> 0 \<longrightarrow>
        (\<exists>md. metas s2 (slots s2 j) = Some md \<and> occurrences (slots s2) (slots s2 j) \<le> use_count md)"
      using live unfolding slots2 by auto
  qed
  moreover have "\<exists>md'. metas s2 (slots s k) = Some md' \<and> occurrences (slots s2) (slots s k) < use_count md'"
  proof (cases "slots s k = f")
    case True
    then show ?thesis using occ [OF f] md by (auto simp: s2_def)
  next
    case False
    obtain md' where "metas s (slots s k) = Some md'" "occurrences (slots s) (slots s k) \<le> use_count md'"
      using vfs_invD(5) [OF inv k] by auto
    then show ?thesis using occ [OF k] False by (auto simp: s2_def)
  qed
  ultimately show ?thesis using that r(1) s2_def slots2 by blast
qed

lemma vfs_dup2_spec:
  assumes inv: "vfs_inv s" and p: "p \<in> set (ProcessQueue s)" "p \<noteq> 0"
    and valid: "valid_procfd s p fd" "valid_procfd s p replaced" "fd \<noteq> replaced"
    and run: "vfs_dup2 p fd replaced s = Some (b, s')"
  shows "b" "vfs_inv s'"
    and "vfs_file s' p (unat replaced) = vfs_file s p (unat fd)"
    and "\<And>q j. q \<in> set (ProcessQueue s) \<Longrightarrow> (q, j) \<noteq> (p, unat replaced) \<Longrightarrow>
           vfs_file s' q j = vfs_file s q j"
    and "ProcessQueue s' = ProcessQueue s"
proof -
  define g where "g = fds s p (unat fd)"
  define h where "h = fds s p (unat replaced)"
  have gh: "g \<noteq> InvalidFD" "h \<noteq> InvalidFD"
    using valid by (simp_all add: valid_procfd_def procfd_to_fd_eq g_def h_def)
  define f where "f = slots s (unat g)"
  define m where "m = slots s (unat h)"
  have nz: "f \<noteq> 0" "m \<noteq> 0"
    using vfs_invD(3) [OF inv p(1)] gh by (simp_all add: f_def m_def g_def h_def)
  obtain md where md: "metas s f = Some md" "occurrences (slots s) f \<le> use_count md"
    using vfs_invD(5) [OF inv, of "unat g"] nz by (auto simp: f_def)
  define s1 where "s1 = s\<lparr>metas := (metas s)(f \<mapsto> md\<lparr>use_count := use_count md + 1\<rparr>)\<rparr>"
  have acq: "acquire_meta f s = Some s1" by (simp add: acquire_meta_def md s1_def)
  have inv1: "vfs_inv s1" using acquire_inv [OF inv acq] .
  have tabs: "slots s1 = slots s" "fds s1 q j = fds s q j" "vfs_file s1 q j = vfs_file s q j"
    "ProcessQueue s1 = ProcessQueue s" for q j by (simp_all add: s1_def vfs_file_def)
  have md1: "metas s1 f = Some (md\<lparr>use_count := use_count md + 1\<rparr>)" by (simp add: s1_def)
  have lt1: "occurrences (slots s1) f < use_count (md\<lparr>use_count := use_count md + 1\<rparr>)"
    using md(2) unfolding tabs(1) by simp
  have m1: "slots s1 (unat h) \<noteq> 0" using nz(2) unfolding tabs(1) m_def .
  obtain files s2 where r: "sv_replace 0 (unat h) f (Files s1) = Some (True, files)"
    "s2 = s1\<lparr>Files := files\<rparr>" "vfs_inv s2" "slots s2 = (slots s1)(unat h := f)"
    "\<exists>md'. metas s2 (slots s1 (unat h)) = Some md' \<and>
       occurrences (slots s2) (slots s1 (unat h)) < use_count md'"
    by (rule replace_slot [OF inv1 m1 nz(1) md1 lt1]) (rule that, assumption+)
  have rel: "b" "release_meta m s2 = Some s'"
    using run p(2) valid nz acq r(1,2)
    by (auto simp: vfs_dup2_def procfd_to_fd_eq tabs(2) g_def [symmetric] h_def [symmetric]
        file_of_sysfd_eq tabs(1) f_def [symmetric] m_def [symmetric] Let_def split: bind_splits)
  have mm: "slots s1 (unat h) = m" unfolding tabs(1) m_def ..
  obtain md' where md': "metas s2 m = Some md'" "occurrences (slots s2) m < use_count md'"
    using r(5) mm by auto
  obtain md'' where a: "same_tables s2 s'" using rel(2) by (rule release_meta_frame)
  have Q2: "ProcessQueue s2 = ProcessQueue s" "fds s2 q j = fds s q j" for q j
    by (simp_all add: r(2) s1_def)
  show "b" by (rule rel(1))
  show "vfs_inv s'" using release_inv [OF r(3) rel(2) md'(1) nz(2) md'(2)] .
  show "vfs_file s' p (unat replaced) = vfs_file s p (unat fd)"
    unfolding same_tables_vfs_file(1) [OF a]
    using gh by (simp add: vfs_file_def r(4) Q2 g_def [symmetric] h_def [symmetric] f_def)
  show "vfs_file s' q j = vfs_file s q j" if q: "q \<in> set (ProcessQueue s)" "(q, j) \<noteq> (p, unat replaced)" for q j
  proof -
    have "unat (fds s q j) \<noteq> unat h" if "fds s q j \<noteq> InvalidFD"
      using vfs_invD(4) [OF inv q(1) p(1) that, of "unat replaced"] q(2)
      by (metis h_def prod.inject word_unat_eq_iff)
    then show ?thesis
      unfolding same_tables_vfs_file(1) [OF a] by (simp add: vfs_file_def r(4) Q2 tabs(1))
  qed
  show "ProcessQueue s' = ProcessQueue s" using same_tables_vfs_file(4) [OF a] Q2 by simp
qed

lemma vfs_dup2_total:
  assumes inv: "vfs_inv s" and p: "p \<in> set (ProcessQueue s)" "p \<noteq> 0"
    and valid: "valid_procfd s p fd" "valid_procfd s p replaced" "fd \<noteq> replaced"
    and cl: "closable s (vfs_file s p (unat replaced))"
  shows "\<exists>b s'. vfs_dup2 p fd replaced s = Some (b, s')"
proof -
  define g where "g = fds s p (unat fd)"
  define h where "h = fds s p (unat replaced)"
  have gh: "g \<noteq> InvalidFD" "h \<noteq> InvalidFD"
    using valid by (simp_all add: valid_procfd_def procfd_to_fd_eq g_def h_def)
  define f where "f = slots s (unat g)"
  define m where "m = slots s (unat h)"
  have nz: "f \<noteq> 0" "m \<noteq> 0"
    using vfs_invD(3) [OF inv p(1)] gh by (simp_all add: f_def m_def g_def h_def)
  obtain md where md: "metas s f = Some md" "occurrences (slots s) f \<le> use_count md"
    using vfs_invD(5) [OF inv, of "unat g"] nz by (auto simp: f_def)
  define s1 where "s1 = s\<lparr>metas := (metas s)(f \<mapsto> md\<lparr>use_count := use_count md + 1\<rparr>)\<rparr>"
  have acq: "acquire_meta f s = Some s1" by (simp add: acquire_meta_def md s1_def)
  have inv1: "vfs_inv s1" using acquire_inv [OF inv acq] .
  have tabs: "slots s1 = slots s" "fds s1 q j = fds s q j" for q j by (simp_all add: s1_def)
  have md1: "metas s1 f = Some (md\<lparr>use_count := use_count md + 1\<rparr>)" by (simp add: s1_def)
  have lt1: "occurrences (slots s1) f < use_count (md\<lparr>use_count := use_count md + 1\<rparr>)"
    using md(2) unfolding tabs(1) by simp
  have m1: "slots s1 (unat h) \<noteq> 0" using nz(2) unfolding tabs(1) m_def .
  obtain files s2 where r: "sv_replace 0 (unat h) f (Files s1) = Some (True, files)"
    "s2 = s1\<lparr>Files := files\<rparr>"
    by (rule replace_slot [OF inv1 m1 nz(1) md1 lt1]) (rule that, assumption+)
  have "closable s m" using cl gh by (simp add: vfs_file_def m_def h_def)
  then have "closable s2 m"
    unfolding r(2) s1_def by (intro closable_owners) (simp_all add: md)
  then obtain s3 where "release_meta m s2 = Some s3" using closable_release nz(2) by blast
  then have "vfs_dup2 p fd replaced s = Some (True, s3)"
    using p(2) valid nz acq r
    by (simp add: vfs_dup2_def procfd_to_fd_eq tabs(2) g_def [symmetric] h_def [symmetric]
        file_of_sysfd_eq tabs(1) f_def [symmetric] m_def [symmetric] Let_def)
  then show ?thesis by blast
qed

section \<open>Properties\<close>

text \<open>
  The descriptor operations of the system, in any order and by any process: \<open>dup\<close>, \<open>dup2\<close>,
  \<open>close\<close>, and the addition of a freshly made file.
\<close>

inductive vfs_step :: "'d system \<Rightarrow> 'd system \<Rightarrow> bool" where
  step_add: "p \<in> set (ProcessQueue s) \<Longrightarrow> p \<noteq> 0 \<Longrightarrow> fd_room s p \<Longrightarrow> m \<noteq> 0 \<Longrightarrow> metas s m = Some md \<Longrightarrow>
    0 < use_count md \<Longrightarrow> \<forall>i. slots s i \<noteq> m \<Longrightarrow> add_file m p s = (r, s') \<Longrightarrow> vfs_step s s'"
| step_dup: "p \<in> set (ProcessQueue s) \<Longrightarrow> p \<noteq> 0 \<Longrightarrow> fd_room s p \<Longrightarrow>
    vfs_dup p fd s = Some (r, s') \<Longrightarrow> vfs_step s s'"
| step_dup2: "p \<in> set (ProcessQueue s) \<Longrightarrow> p \<noteq> 0 \<Longrightarrow>
    vfs_dup2 p fd replaced s = Some (b, s') \<Longrightarrow> vfs_step s s'"
| step_close: "p \<in> set (ProcessQueue s) \<Longrightarrow> p \<noteq> 0 \<Longrightarrow>
    vfs_close p fd s = Some (b, s') \<Longrightarrow> vfs_step s s'"

lemma vfs_dup2_unchanged:
  assumes run: "vfs_dup2 p fd replaced s = Some (b, s')"
    and "\<not> valid_procfd s p fd \<or> \<not> valid_procfd s p replaced \<or> fd = replaced"
  shows "s' = s"
proof -
  consider "\<not> valid_procfd s p fd" | "valid_procfd s p fd" "\<not> valid_procfd s p replaced"
    | "valid_procfd s p fd" "valid_procfd s p replaced" "fd = replaced"
    using assms(2) by blast
  then show ?thesis
    by cases (use run in \<open>simp_all add: vfs_dup2_def split: if_split_asm\<close>)
qed

lemma vfs_step_inv: "vfs_step s s' \<Longrightarrow> vfs_inv s \<Longrightarrow> vfs_inv s'"
proof (induction rule: vfs_step.induct)
  case (step_add p s m md r s')
  obtain procfd fd where r: "r = (procfd, fd)" by (cases r)
  have "occurrences (slots s) m = 0" using step_add(7) by (simp add: occurrences_def)
  then have lt: "occurrences (slots s) m < use_count md" using step_add(6) by simp
  show ?case by (rule add_file_spec(1) [OF step_add(9,1,2,4,5) lt step_add(3) step_add(8) [unfolded r]])
next
  case (step_dup p s fd r s')
  obtain procfd sysfd where r: "r = (procfd, sysfd)" by (cases r)
  show ?case
  proof (cases "valid_procfd s p fd")
    case True
    show ?thesis by (rule vfs_dup_spec(1) [OF step_dup(5,1,2) True step_dup(3) step_dup(4) [unfolded r]])
  next
    case False
    then have "s' = s" using step_dup(4) by (simp add: vfs_dup_def)
    then show ?thesis using step_dup(5) by simp
  qed
next
  case (step_dup2 p s fd replaced b s')
  show ?case
  proof (cases "valid_procfd s p fd \<and> valid_procfd s p replaced \<and> fd \<noteq> replaced")
    case True
    show ?thesis
      by (rule vfs_dup2_spec(2) [OF step_dup2(4,1,2) _ _ _ step_dup2(3)]) (simp_all only: True simp_thms)
  next
    case False
    then have "s' = s" by (intro vfs_dup2_unchanged [OF step_dup2(3)]) blast
    then show ?thesis using step_dup2(4) by simp
  qed
next
  case (step_close p s fd b s')
  show ?case
  proof (cases "valid_procfd s p fd")
    case True
    then show ?thesis using vfs_close_spec(2) [OF step_close(4,1,2) _ step_close(3)] by simp
  next
    case False
    then have "s' = s" using step_close(3)
      by (simp add: vfs_close_def valid_procfd_def Let_def split: if_split_asm)
    then show ?thesis using step_close(4) by simp
  qed
qed

definition example_files :: "unit system" where
  "example_files = example_pipe
     \<lparr>Files := \<lparr>sv_els = [6, 7], sv_idxs = []\<rparr>,
      processes := (processes example_pipe)
        (1 := (processes example_pipe 1)\<lparr>FileDescriptors := \<lparr>sv_els = [0, 1], sv_idxs = []\<rparr>\<rparr>)\<rparr>"

lemma example_files_simps [simp]:
  "Files example_files = \<lparr>sv_els = [6, 7], sv_idxs = []\<rparr>"
  "FileDescriptors (processes example_files p) =
     (if p = 1 then \<lparr>sv_els = [0, 1], sv_idxs = []\<rparr> else sv_empty)"
  "metas example_files = metas example_pipe"
  "ProcessQueue example_files = [1, 2]"
  "CurrentProcess example_files = 1"
  "pipe_ends example_files = pipe_ends example_pipe"
  "pipe_buffers example_files = pipe_buffers example_pipe"
  by (simp_all add: example_files_def new_process_def)

lemma sv_get_two: "sv_get x \<lparr>sv_els = [a, b], sv_idxs = []\<rparr> i = (if i = 0 then a else if i = 1 then b else x)"
  by (auto simp: sv_get_def nth_Cons' numeral_2_eq_2)

lemma sv_inv_two: "a \<noteq> x \<Longrightarrow> b \<noteq> x \<Longrightarrow> sv_inv x \<lparr>sv_els = [a, b], sv_idxs = []\<rparr>"
  by (auto simp: sv_inv_def less_Suc_eq nth_Cons' numeral_2_eq_2)

lemma occurrences_two: "a \<noteq> b \<Longrightarrow> a \<noteq> x \<Longrightarrow> b \<noteq> x \<Longrightarrow>
   occurrences (sv_get x \<lparr>sv_els = [a, b], sv_idxs = []\<rparr>) w = (if w = a \<or> w = b then 1 else if w = x then 0 else 0)"
  if "w \<noteq> x"
proof -
  have "{i. sv_get x \<lparr>sv_els = [a, b], sv_idxs = []\<rparr> i = w} =
      (if w = a then {0} else if w = b then {1} else {})" if "a \<noteq> b"
    using that \<open>w \<noteq> x\<close> by (auto simp: sv_get_two split: if_splits)
  then show "a \<noteq> b \<Longrightarrow> a \<noteq> x \<Longrightarrow> b \<noteq> x \<Longrightarrow>
      occurrences (sv_get x \<lparr>sv_els = [a, b], sv_idxs = []\<rparr>) w =
        (if w = a \<or> w = b then 1 else if w = x then 0 else 0)"
    by (simp add: occurrences_def)
qed

lemma example_files_inv: "vfs_inv example_files"
  by (auto simp: vfs_inv_def sv_inv_two sv_get_two InvalidFD_def occurrences_two make_metadata_def
      split: if_splits)

text \<open>
  C6: The descriptor tables stay consistent.  However \<open>dup\<close>, \<open>dup2\<close>, \<open>close\<close> and the adding of new
  files by the processes in the queue are interleaved, the free lists of both kinds of table
  are exact, every valid descriptor of a process refers to an open file, no two descriptors
  share an entry of the kernel's table, and every file in the table is alive with at least as
  many owners as entries.
\<close>

theorem vfs_descriptors_consistent:
  assumes "vfs_inv s" "vfs_step\<^sup>*\<^sup>* s s'"
  shows "vfs_inv s'"
  using assms(2,1) by (induction rule: rtranclp_induct) (auto intro: vfs_step_inv)

theorem vfs_descriptors_consistent_witness:
  "\<exists>s' r. vfs_dup 1 0 example_files = Some (r, s') \<and> vfs_inv s'"
proof -
  obtain r s' where run: "vfs_dup 1 0 example_files = Some (r, s')"
    by (simp add: vfs_dup_def valid_procfd_def procfd_to_fd_eq sv_get_two InvalidFD_def
        file_of_sysfd_eq acquire_meta_def make_metadata_def Let_def)
       (metis surj_pair)
  have "vfs_step example_files s'"
    by (rule step_dup [OF _ _ _ run]) (simp_all add: fd_room_def)
  then have "vfs_step\<^sup>*\<^sup>* example_files s'" by simp
  from vfs_descriptors_consistent [OF example_files_inv this] run show ?thesis by blast
qed

text \<open>
  \<open>dup\<close> returns a descriptor that was free and refers to the same open file.  The file has one
  more owner, and every other descriptor of every process refers to what it referred to.
\<close>

theorem vfs_dup_shares:
  assumes "vfs_inv s" "p \<in> set (ProcessQueue s)" "p \<noteq> 0" "valid_procfd s p fd" "fd_room s p"
  shows "\<exists>procfd sysfd s'. vfs_dup p fd s = Some ((procfd, sysfd), s') \<and>
           procfd \<noteq> InvalidFD \<and> vfs_file s p (unat procfd) = 0 \<and>
           vfs_file s' p (unat procfd) = vfs_file s p (unat fd) \<and>
           (\<exists>md. metas s (vfs_file s p (unat fd)) = Some md \<and>
              metas s' (vfs_file s p (unat fd)) = Some (md\<lparr>use_count := use_count md + 1\<rparr>)) \<and>
           (\<forall>q j. q \<in> set (ProcessQueue s) \<and> (q, j) \<noteq> (p, unat procfd) \<longrightarrow>
              vfs_file s' q j = vfs_file s q j)"
proof -
  define m where "m = slots s (unat (fds s p (unat fd)))"
  have fdv: "fds s p (unat fd) \<noteq> InvalidFD" using assms(4) by (simp add: valid_procfd_def procfd_to_fd_eq)
  have nz: "m \<noteq> 0" using vfs_invD(3) [OF assms(1,2) fdv] by (simp add: m_def)
  then obtain md where "metas s m = Some md" using vfs_invD(5) [OF assms(1)] by (auto simp: m_def)
  then have "\<exists>x. vfs_dup p fd s = Some x"
    using assms(3,4) nz
    by (simp add: vfs_dup_def procfd_to_fd_eq file_of_sysfd_eq m_def acquire_meta_def Let_def)
  then obtain procfd sysfd s' where run: "vfs_dup p fd s = Some ((procfd, sysfd), s')"
    by (metis surj_pair)
  note D = vfs_dup_spec [OF assms run]
  show ?thesis using run D(2-7) by auto
qed

theorem vfs_dup_shares_witness:
  "\<exists>procfd sysfd s'. vfs_dup 1 1 example_files = Some ((procfd, sysfd), s') \<and>
     vfs_file s' 1 (unat procfd) = 7 \<and> vfs_file s' 1 0 = 6"
proof -
  have h: "valid_procfd example_files 1 1" "fd_room example_files 1"
    by (simp_all add: valid_procfd_def procfd_to_fd_eq sv_get_two InvalidFD_def fd_room_def)
  have f: "vfs_file example_files 1 1 = 7" "vfs_file example_files 1 0 = 6"
    by (simp_all add: vfs_file_def sv_get_two InvalidFD_def)
  obtain procfd sysfd s' where d: "vfs_dup 1 1 example_files = Some ((procfd, sysfd), s')"
    "vfs_file example_files 1 (unat procfd) = 0"
    "vfs_file s' 1 (unat procfd) = vfs_file example_files 1 (unat (1 :: u64))"
    "\<forall>q j. q \<in> set (ProcessQueue example_files) \<and> (q, j) \<noteq> (1, unat procfd) \<longrightarrow>
       vfs_file s' q j = vfs_file example_files q j"
    using vfs_dup_shares [OF example_files_inv _ _ h] by auto
  have "unat procfd \<noteq> 0" using d(2) f(2) by (metis numeral_neq_zero)
  then show ?thesis using d f by auto
qed

text \<open>
  C23: \<open>close\<close> invalidates exactly the closed descriptor.  The descriptor refers to nothing
  afterwards, all others refer to what they referred to, and the file is destroyed, which
  closes it in its driver, when this was its last owner; otherwise it has one owner less.
\<close>

theorem vfs_close_exact:
  assumes "vfs_inv s" "p \<in> set (ProcessQueue s)" "p \<noteq> 0" "valid_procfd s p fd"
    and "closable s (vfs_file s p (unat fd))"
  shows "\<exists>s' md. vfs_close p fd s = Some (True, s') \<and> vfs_file s' p (unat fd) = 0 \<and>
           metas s (vfs_file s p (unat fd)) = Some md \<and>
           metas s' = (metas s)(vfs_file s p (unat fd) :=
             (if use_count md \<le> 1 then None else Some (md\<lparr>use_count := use_count md - 1\<rparr>))) \<and>
           (\<forall>q j. q \<in> set (ProcessQueue s) \<and> (q, j) \<noteq> (p, unat fd) \<longrightarrow>
              vfs_file s' q j = vfs_file s q j)"
proof -
  obtain s' where run: "vfs_close p fd s = Some (True, s')" using vfs_close_total [OF assms] by blast
  note C = vfs_close_spec [OF assms(1-4) run]
  show ?thesis using run C(3,4,6) by blast
qed

theorem vfs_close_exact_witness:
  "\<exists>s'. vfs_close 1 0 example_files = Some (True, s') \<and> vfs_file s' 1 0 = 0 \<and>
     vfs_file s' 1 1 = 7 \<and> metas s' 6 = None"
proof -
  have h: "valid_procfd example_files 1 0"
    by (simp add: valid_procfd_def procfd_to_fd_eq sv_get_two InvalidFD_def)
  have f: "vfs_file example_files 1 1 = 7" "vfs_file example_files 1 0 = 6"
    by (simp_all add: vfs_file_def sv_get_two InvalidFD_def)
  have c: "closable example_files (vfs_file example_files 1 (unat (0 :: u64)))"
    using f(2) by (simp add: closable_def make_metadata_def)
  show ?thesis using vfs_close_exact [OF example_files_inv _ _ h c] f
    by (auto simp: make_metadata_def)
qed

text \<open>
  \<open>dup2\<close> redirects exactly the replaced descriptor.  It refers to the file of the first
  descriptor afterwards, and every other descriptor of every process refers to what it
  referred to.
\<close>

theorem vfs_dup2_redirects:
  assumes "vfs_inv s" "p \<in> set (ProcessQueue s)" "p \<noteq> 0" "valid_procfd s p fd"
    and "valid_procfd s p replaced" "fd \<noteq> replaced" "closable s (vfs_file s p (unat replaced))"
  shows "\<exists>s'. vfs_dup2 p fd replaced s = Some (True, s') \<and>
           vfs_file s' p (unat replaced) = vfs_file s p (unat fd) \<and>
           (\<forall>q j. q \<in> set (ProcessQueue s) \<and> (q, j) \<noteq> (p, unat replaced) \<longrightarrow>
              vfs_file s' q j = vfs_file s q j)"
proof -
  obtain b s' where run: "vfs_dup2 p fd replaced s = Some (b, s')"
    using vfs_dup2_total [OF assms] by blast
  note D = vfs_dup2_spec [OF assms(1-6) run]
  have "b = True" using D(1) by simp
  then show ?thesis using run D(3,4) by blast
qed

theorem vfs_dup2_redirects_witness:
  "\<exists>s'. vfs_dup2 1 1 0 example_files = Some (True, s') \<and> vfs_file s' 1 0 = 7 \<and> vfs_file s' 1 1 = 7"
proof -
  have h: "valid_procfd example_files 1 0" "valid_procfd example_files 1 1"
    by (simp_all add: valid_procfd_def procfd_to_fd_eq sv_get_two InvalidFD_def)
  have f: "vfs_file example_files 1 1 = 7" "vfs_file example_files 1 0 = 6"
    by (simp_all add: vfs_file_def sv_get_two InvalidFD_def)
  have c: "closable example_files (vfs_file example_files 1 (unat (0 :: u64)))"
    using f(2) by (simp add: closable_def make_metadata_def)
  obtain s' where "vfs_dup2 1 1 0 example_files = Some (True, s')"
    "vfs_file s' 1 0 = vfs_file example_files 1 1"
    "\<forall>q j. q \<in> set (ProcessQueue example_files) \<and> (q, j) \<noteq> (1, 0) \<longrightarrow>
       vfs_file s' q j = vfs_file example_files q j"
    using vfs_dup2_redirects [OF example_files_inv _ _ h(2,1) _ c] by auto
  then show ?thesis using f by simp
qed

end
