(* ===== verification/Events.thy ===== *)
theory Events
  imports Channels
begin

text \<open>
  Events (\<open>kernel/src/event.h\<close>, \<open>event.cpp\<close>): the event queues of a process, each a ring buffer
  of 32 events with one list of filters per event type, and the event manager \<open>gEvents\<close>, which
  hands an event to the queues of a process that listen for it and keeps, per event type, the
  processes that are to be told about events that concern no single process.

  \<open>push\<close> and \<open>pop\<close> have no result where the ring buffer would be accessed outside its array.
\<close>

section \<open>The listeners of the event manager\<close>

definition register_listener :: "u32 \<Rightarrow> pid_t \<Rightarrow> 'd system \<Rightarrow> 'd system" where
  "register_listener event_type new_listener s =
     (if event_type \<ge> EventType_COUNT then s
      else if new_listener \<in> set (Listeners s event_type)
      then s\<lparr>Listeners := (Listeners s)(event_type := Listeners s event_type @ [new_listener])\<rparr>
      else s)"

definition unregister_listener :: "u32 \<Rightarrow> pid_t \<Rightarrow> 'd system \<Rightarrow> bool \<times> 'd system" where
  "unregister_listener event_type listener s =
     (if event_type \<ge> EventType_COUNT then (False, s)
      else (listener \<in> set (Listeners s event_type),
            s\<lparr>Listeners := (Listeners s)(event_type := removeAll listener (Listeners s event_type))\<rparr>))"

section \<open>Event queues\<close>

definition EventQueueSize :: nat where "EventQueueSize = 32"

definition EVENT_MAX_SIZE :: nat where "EVENT_MAX_SIZE = 128"

definition blank_event :: Event where
  "blank_event = \<lparr>event_Type = 0, event_Filter = InvalidFD, event_Data = replicate EVENT_MAX_SIZE 0\<rparr>"

definition new_event_queue :: EventQueue where
  "new_event_queue =
     \<lparr>eq_ID = - 1, eq_PID = - 1,
      eq_Events = \<lparr>rb_data = replicate EventQueueSize blank_event, rb_head = 0, rb_tail = 0\<rparr>,
      eq_Filter = replicate (unat EventType_COUNT) []\<rparr>"

definition register_listening ::
    "u32 \<Rightarrow> FileDescriptor \<Rightarrow> EventQueue \<Rightarrow> 'd system \<Rightarrow> EventQueue \<times> 'd system" where
  "register_listening e efilt q s =
     (if e \<ge> EventType_COUNT then (q, s)
      else (q\<lparr>eq_Filter := (eq_Filter q)[unat e := eq_Filter q ! unat e @ [efilt]]\<rparr>,
            register_listener e (eq_PID q) s))"

definition unregister_listening ::
    "u32 \<Rightarrow> FileDescriptor \<Rightarrow> EventQueue \<Rightarrow> 'd system \<Rightarrow> EventQueue \<times> 'd system" where
  "unregister_listening e efilt q s =
     (if e \<ge> EventType_COUNT then (q, s)
      else let rest = removeAll efilt (eq_Filter q ! unat e);
               q1 = q\<lparr>eq_Filter := (eq_Filter q)[unat e := rest]\<rparr>
           in (q1, if rest = [] then snd (unregister_listener e (eq_PID q1) s) else s))"

definition listens :: "u32 \<Rightarrow> FileDescriptor \<Rightarrow> EventQueue \<Rightarrow> bool" where
  "listens e efilt q \<longleftrightarrow>
     (if e \<ge> EventType_COUNT then False
      else eq_Filter q ! unat e \<noteq> [] \<and> efilt \<in> set (eq_Filter q ! unat e))"

definition push_event :: "Event \<Rightarrow> EventQueue \<Rightarrow> EventQueue option" where
  "push_event e q = do { r \<leftarrow> rb_push_back e (eq_Events q); Some (q\<lparr>eq_Events := r\<rparr>) }"

definition has_events :: "EventQueue \<Rightarrow> bool" where
  "has_events q \<longleftrightarrow> rb_size (eq_Events q) \<noteq> 0"

definition pop_event :: "EventQueue \<Rightarrow> (Event \<times> EventQueue) option" where
  "pop_event q =
     (if rb_size (eq_Events q) \<noteq> 0
      then do { (e, r) \<leftarrow> rb_pop_front (eq_Events q); Some (e, q\<lparr>eq_Events := r\<rparr>) }
      else Some (blank_event, q))"

section \<open>Notification\<close>

text \<open>The loop over the event queues of a process; the flag records whether any listens.\<close>

fun notify_queues :: "Event \<Rightarrow> EventQueue list \<Rightarrow> (bool \<times> EventQueue list) option" where
  "notify_queues event [] = Some (False, [])"
| "notify_queues event (queue # rest) =
     (if \<not> listens (event_Type event) (event_Filter event) queue
      then do { (found, qs) \<leftarrow> notify_queues event rest; Some (found, queue # qs) }
      else do { queue' \<leftarrow> push_event event queue;
                (found, qs) \<leftarrow> notify_queues event rest;
                Some (True, queue' # qs) })"

definition notify_process :: "Event \<Rightarrow> obj \<Rightarrow> 'd system \<Rightarrow> 'd system option" where
  "notify_process event p s =
     (if p = 0 \<or> event_Type event \<ge> EventType_COUNT then Some s
      else do {
        (found, qs) \<leftarrow> notify_queues event (EventQueues (processes s p));
        let s1 = upd_process p (\<lambda>x. x\<lparr>EventQueues := qs\<rparr>) s;
        Some (if found then s1
              else snd (unregister_listener (event_Type event) (ProcessID (processes s1 p)) s1)) })"

definition notify_pid :: "Event \<Rightarrow> pid_t \<Rightarrow> 'd system \<Rightarrow> 'd system option" where
  "notify_pid event pid s = notify_process event (process s pid) s"

text \<open>
  \<open>notify(event)\<close>.  The loop runs over the listeners while \<open>notify\<close> may erase entries of the
  very vector; that is only defined when it erases nothing, so the loop over a vector it changes
  has no result.
\<close>

fun notify_listeners :: "Event \<Rightarrow> pid_t list \<Rightarrow> 'd system \<Rightarrow> 'd system option" where
  "notify_listeners event [] s = Some s"
| "notify_listeners event (pid # rest) s =
     do { s1 \<leftarrow> notify_pid event pid s;
          if Listeners s1 (event_Type event) \<noteq> Listeners s (event_Type event) then None
          else notify_listeners event rest s1 }"

definition notify_all :: "Event \<Rightarrow> 'd system \<Rightarrow> 'd system option" where
  "notify_all event s =
     (if event_Type event \<ge> EventType_COUNT then Some s
      else if event_Type event = READY_TO_READ \<or> event_Type event = READY_TO_WRITE then Some s
      else notify_listeners event (Listeners s (event_Type event)) s)"

section \<open>Facts on event queues\<close>

text \<open>A queue whose ring buffer has its full array and in-range indices.\<close>

definition event_queue_ok :: "EventQueue \<Rightarrow> bool" where
  "event_queue_ok q \<longleftrightarrow>
     rb_inv (eq_Events q) \<and> length (rb_data (eq_Events q)) = EventQueueSize \<and>
     length (eq_Filter q) = unat EventType_COUNT"

abbreviation pending :: "EventQueue \<Rightarrow> Event list" where
  "pending q \<equiv> rb_list (eq_Events q)"

lemma length_rb_list [simp]: "length (rb_list r) = rb_size r"
  by (simp add: rb_list_def)

lemma new_event_queue_ok: "event_queue_ok new_event_queue" "pending new_event_queue = []"
  by (simp_all add: event_queue_ok_def new_event_queue_def rb_inv_def rb_list_def rb_size_def
      EventQueueSize_def)

lemma push_event_ok:
  assumes "event_queue_ok q" "length (pending q) < 31"
  obtains q' where "push_event e q = Some q'" "event_queue_ok q'" "pending q' = pending q @ [e]"
    "eq_ID q' = eq_ID q" "eq_Filter q' = eq_Filter q"
proof -
  have "rb_inv (eq_Events q)" "rb_size (eq_Events q) + 1 < length (rb_data (eq_Events q))"
    using assms by (simp_all add: event_queue_ok_def EventQueueSize_def)
  then obtain r where "rb_push_back e (eq_Events q) = Some r" "rb_inv r"
    "rb_list r = rb_list (eq_Events q) @ [e]" "length (rb_data r) = length (rb_data (eq_Events q))"
    by (rule rb_push_back_spec) (rule that, assumption+)
  then show ?thesis
    using assms(1) that [of "q\<lparr>eq_Events := r\<rparr>"] by (simp add: push_event_def event_queue_ok_def)
qed

lemma pop_event_ok:
  assumes "event_queue_ok q" "pending q = e # es"
  obtains q' where "pop_event q = Some (e, q')" "event_queue_ok q'" "pending q' = es"
    "eq_ID q' = eq_ID q" "eq_Filter q' = eq_Filter q"
proof -
  have ne: "rb_size (eq_Events q) \<noteq> 0" using assms(2) length_rb_list [of "eq_Events q"] by auto
  have "rb_inv (eq_Events q)" using assms(1) by (simp add: event_queue_ok_def)
  then obtain r where "rb_pop_front (eq_Events q) = Some (hd (rb_list (eq_Events q)), r)" "rb_inv r"
    "rb_list r = tl (rb_list (eq_Events q))" "length (rb_data r) = length (rb_data (eq_Events q))"
    using ne by (rule rb_pop_front_spec) (rule that, assumption+)
  then show ?thesis
    using assms ne that [of "q\<lparr>eq_Events := r\<rparr>"] by (simp add: pop_event_def event_queue_ok_def)
qed

lemma has_events_pending: "has_events q \<longleftrightarrow> pending q \<noteq> []"
  by (simp add: has_events_def rb_list_def)

text \<open>Notification appends the event to exactly the queues that listen for it.\<close>

definition delivered :: "Event \<Rightarrow> EventQueue \<Rightarrow> EventQueue \<Rightarrow> bool" where
  "delivered e q q' \<longleftrightarrow>
     event_queue_ok q' \<and> eq_ID q' = eq_ID q \<and> eq_Filter q' = eq_Filter q \<and>
     pending q' = (if listens (event_Type e) (event_Filter e) q then pending q @ [e] else pending q)"

lemma notify_queues_delivers:
  assumes "list_all (\<lambda>q. event_queue_ok q \<and> length (pending q) < 31) qs"
  shows "\<exists>qs'. notify_queues e qs =
           Some (list_ex (listens (event_Type e) (event_Filter e)) qs, qs') \<and>
           list_all2 (delivered e) qs qs'"
  using assms
proof (induction qs)
  case Nil
  then show ?case by simp
next
  case (Cons q qs)
  then obtain qs' where IH: "notify_queues e qs =
      Some (list_ex (listens (event_Type e) (event_Filter e)) qs, qs')" "list_all2 (delivered e) qs qs'"
    by auto
  show ?case
  proof (cases "listens (event_Type e) (event_Filter e) q")
    case True
    have "event_queue_ok q" "length (pending q) < 31" using Cons.prems by simp_all
    then obtain q' where "push_event e q = Some q'" "event_queue_ok q'" "pending q' = pending q @ [e]"
      "eq_ID q' = eq_ID q" "eq_Filter q' = eq_Filter q"
      by (rule push_event_ok) (rule that, assumption+)
    moreover from this have "delivered e q q'" using True by (simp add: delivered_def)
    ultimately show ?thesis using True IH by simp
  next
    case False
    moreover from this have "delivered e q q" using Cons.prems by (simp add: delivered_def)
    ultimately show ?thesis using IH by simp
  qed
qed

section \<open>Properties\<close>


definition example_listener :: "EventQueue" where
  "example_listener = new_event_queue\<lparr>eq_ID := 1, eq_Filter := [[], [5], []]\<rparr>"

definition example_event :: Event where
  "example_event = blank_event\<lparr>event_Type := READY_TO_READ, event_Filter := 5\<rparr>"

lemma example_listener_ok: "event_queue_ok example_listener" "pending example_listener = []"
  using new_event_queue_ok
  by (simp_all add: example_listener_def event_queue_ok_def new_event_queue_def EventType_COUNT_def)

definition example_listening :: "unit system" where
  "example_listening =
     upd_process 1 (\<lambda>x. x\<lparr>EventQueues := [example_listener, new_event_queue]\<rparr>) example_two"

lemma example_listening_queues [simp]:
  "EventQueues (processes example_listening 1) = [example_listener, new_event_queue]"
  by (simp add: example_listening_def upd_process_def)


text \<open>Pushing a list of events.\<close>

fun push_events :: "Event list \<Rightarrow> EventQueue \<Rightarrow> EventQueue option" where
  "push_events [] q = Some q"
| "push_events (e # es) q = do { q' \<leftarrow> push_event e q; push_events es q' }"

lemma push_events_append:
  "push_events (es @ es') q = do { q' \<leftarrow> push_events es q; push_events es' q' }"
  by (induction es arbitrary: q) (auto split: bind_splits)

lemma push_events_fill:
  assumes "length (rb_data (eq_Events q)) = 32" "rb_head (eq_Events q) = 0"
    and "rb_tail (eq_Events q) + length es < 32"
  shows "\<exists>q'. push_events es q = Some q' \<and> length (rb_data (eq_Events q')) = 32 \<and>
           rb_head (eq_Events q') = 0 \<and> rb_tail (eq_Events q') = rb_tail (eq_Events q) + length es"
  using assms
proof (induction es arbitrary: q)
  case Nil
  then show ?case by simp
next
  case (Cons e es)
  define q1 where "q1 = q\<lparr>eq_Events := (eq_Events q)\<lparr>rb_data := (rb_data (eq_Events q))[rb_tail (eq_Events q) := e],
    rb_tail := rb_tail (eq_Events q) + 1\<rparr>\<rparr>"
  have "push_event e q = Some q1"
    using Cons.prems by (simp add: push_event_def rb_push_back_def Let_def q1_def)
  moreover have "length (rb_data (eq_Events q1)) = 32" "rb_head (eq_Events q1) = 0"
    "rb_tail (eq_Events q1) + length es < 32" "rb_tail (eq_Events q1) = Suc (rb_tail (eq_Events q))"
    using Cons.prems by (simp_all add: q1_def)
  ultimately show ?case using Cons.IH [of q1] by simp
qed

text \<open>
  A full event queue loses everything.  The ring buffer has 32 places, but the 32nd event
  that is pushed without one being read in between moves the write index back onto the read
  index: the queue reports that it has no events, and all 32 are lost.
\<close>

theorem event_queue_overflow:
  assumes "length es = 32"
  shows "\<exists>q'. push_events es new_event_queue = Some q' \<and> \<not> has_events q'"
proof -
  obtain es1 e where es: "es = es1 @ [e]" "length es1 = 31"
    using assms by (cases es rule: rev_cases) auto
  obtain q1 where q1: "push_events es1 new_event_queue = Some q1"
    "length (rb_data (eq_Events q1)) = 32" "rb_head (eq_Events q1) = 0" "rb_tail (eq_Events q1) = 31"
    using push_events_fill [of new_event_queue es1] es(2)
    by (auto simp: new_event_queue_def EventQueueSize_def)
  then show ?thesis
    by (simp add: es(1) push_events_append push_event_def rb_push_back_def has_events_def rb_size_def Let_def)
qed

theorem event_queue_overflow_witness:
  "\<exists>q'. push_events (replicate 32 example_event) new_event_queue = Some q' \<and> \<not> has_events q'"
  by (rule event_queue_overflow) simp

end
