(* ===== verification/Scheduler.thy ===== *)
theory Scheduler
  imports Vfs Events PageMapClone
begin

text \<open>
  The scheduler (\<open>kernel/src/scheduler.cpp\<close>): the round-robin process queue, process switches
  with the saved processor state, and the birth and death of processes.

  A queue node is named by the process it carries.  The next pointer of a node that is no
  longer in the queue belongs to a deleted object, so following it has no result; neither has a
  call that ends in \<open>hang()\<close>.  \<open>cpu\<close> is the processor state that the interrupt stub of
  \<open>scheduler.asm\<close> pushed and restores.  The instructions that load the segment registers and
  the installation of the interrupt handler and the task state segment are not modelled.
\<close>

section \<open>The process queue\<close>

fun node_next :: "obj \<Rightarrow> obj list \<Rightarrow> obj option" where
  "node_next p [] = None"
| "node_next p (q # rest) =
     (if p = q then Some (case rest of [] \<Rightarrow> 0 | r # _ \<Rightarrow> r) else node_next p rest)"

definition queue_head :: "'d system \<Rightarrow> obj" where
  "queue_head s = (case ProcessQueue s of [] \<Rightarrow> 0 | p # _ \<Rightarrow> p)"

definition request_pid :: "'d system \<Rightarrow> pid_t \<times> 'd system" where
  "request_pid s = (the_pid s + 1, s\<lparr>the_pid := the_pid s + 1\<rparr>)"

definition last_process :: "'d system \<Rightarrow> obj option" where
  "last_process s = (if ProcessQueue s = [] then None else Some (last (ProcessQueue s)))"

definition add_process :: "obj \<Rightarrow> 'd system \<Rightarrow> pid_t \<times> 'd system" where
  "add_process p s =
     (let (pid, s1) = request_pid s;
          s2 = upd_process p (\<lambda>x. x\<lparr>ProcessID := pid\<rparr>) s1
      in (pid, s2\<lparr>ProcessQueue := ProcessQueue s2 @ [p]\<rparr>))"

section \<open>The end of a process\<close>

definition release_region :: "Region \<Rightarrow> 'd system \<Rightarrow> 'd system" where
  "release_region r s =
     s\<lparr>vm := (vm s)\<lparr>physical := free_pages (region_paddr r) (region_pages r) (physical (vm s))\<rparr>\<rparr>"

fun close_all :: "obj \<Rightarrow> nat list \<Rightarrow> 'd system \<Rightarrow> 'd system option" where
  "close_all p [] s = Some s"
| "close_all p (procfd # rest) s =
     do { (_, s1) \<leftarrow> vfs_close p (of_nat procfd) s; close_all p rest s1 }"

definition add_zombie :: "ZombieState \<Rightarrow> Process \<Rightarrow> Process" where
  "add_zombie z p = p\<lparr>Zombies := Zombies p @ [z]\<rparr>"

definition destroy :: "obj \<Rightarrow> u32 \<Rightarrow> 'd system \<Rightarrow> 'd system option" where
  "destroy p status s =
     (let this = processes s p;
          s1 = (if p = init_process s then s\<lparr>init_process := 0\<rparr> else s);
          parent = process s1 (ParentProcess this);
          s2 = (if parent \<noteq> 0
                then upd_process parent
                       (add_zombie \<lparr>zombie_PID = ProcessID this, zombie_ReturnStatus = status\<rparr>) s1
                else s1);
          s3 = wake_all (scast status) (WaitingList this) s2;
          s4 = fold release_region (Memories this) s3;
          s5 = upd_process p (\<lambda>x. x\<lparr>Memories := []\<rparr>) s4
      in do {
        s6 \<leftarrow> close_all p (map fst (sv_pairs InvalidFD (FileDescriptors this))) s5;
        Some (s6\<lparr>PageMapsToFree := PageMapsToFree s6 @ [process_CR3 this]\<rparr>) })"

definition remove_process :: "pid_t \<Rightarrow> u32 \<Rightarrow> 'd system \<Rightarrow> (bool \<times> 'd system) option" where
  "remove_process pid status s =
     (let p = process s pid in
      if p = 0 then Some (False, s)
      else do {
        let s1 = s\<lparr>ProcessQueue := remove1 p (ProcessQueue s)\<rparr>;
        let s2 = upd_process p (\<lambda>x. x\<lparr>State := SLEEPING\<rparr>) s1;
        s3 \<leftarrow> destroy p status s2;
        Some (True, s3) })"

section \<open>Initialisation\<close>

definition scheduler_initialize :: "obj \<Rightarrow> 'd system \<Rightarrow> bool \<times> 'd system" where
  "scheduler_initialize StartupProcess s =
     (let (active, v) = active_page_map (vm s);
          s1 = upd_process StartupProcess
                 (\<lambda>x. x\<lparr>process_CR3 := active, State := RUNNING, ProcessID := 0\<rparr>) (s\<lparr>vm := v\<rparr>)
      in (True, s1\<lparr>ProcessQueue := [StartupProcess], CurrentProcess := StartupProcess\<rparr>))"

section \<open>Choosing the next process\<close>

fun find_viable :: "(obj \<Rightarrow> Process) \<Rightarrow> obj list \<Rightarrow> obj" where
  "find_viable ps [] = 0"
| "find_viable ps (p # rest) = (if State (ps p) = RUNNING then p else find_viable ps rest)"

text \<open>The walk from a node to the end of the queue, with the node itself or without.\<close>

definition find_next_viable_process_after :: "obj \<Rightarrow> bool \<Rightarrow> 'd system \<Rightarrow> obj option" where
  "find_next_viable_process_after startProcess including s =
     (if startProcess = 0 then Some 0
      else let nodes = dropWhile (\<lambda>q. q \<noteq> startProcess) (ProcessQueue s) in
        if nodes = [] then None
        else Some (find_viable (processes s) (if including then nodes else tl nodes)))"

definition next_viable_process :: "obj \<Rightarrow> bool \<Rightarrow> 'd system \<Rightarrow> obj option" where
  "next_viable_process startProcess including s =
     do { p \<leftarrow> find_next_viable_process_after startProcess including s;
          if p \<noteq> 0 then Some p
          else do { q \<leftarrow> find_next_viable_process_after (queue_head s) True s;
                    if q = 0 then None else Some q } }"

section \<open>Switching\<close>

text \<open>
  \<open>fxsave64\<close> stores 512 bytes at the start of the save area.  \<open>fxrstor64\<close> loads 512 bytes from
  the next address that is a multiple of 512; past the start of the area that reads beyond it.
\<close>

definition fxsave :: "obj \<Rightarrow> 'd system \<Rightarrow> 'd system" where
  "fxsave p s = upd_process p (\<lambda>x. x\<lparr>CPUExtra := fpu s, CPUExtraSet := True\<rparr>) s"

definition fxrstor_index :: "u64 \<Rightarrow> u64" where
  "fxrstor_index address = (512 - (address mod 512)) mod 512"

definition fxrstor :: "obj \<Rightarrow> 'd system \<Rightarrow> 'd system option" where
  "fxrstor p s =
     (if fxrstor_index (CPUExtra_address (processes s p)) = 0
      then Some (s\<lparr>fpu := CPUExtra (processes s p)\<rparr>) else None)"

definition segment_state :: "CPUState \<Rightarrow> CPUState" where
  "segment_state cpu = cpu\<lparr>FS := frame_ss (Frame cpu), GS := frame_ss (Frame cpu)\<rparr>"

definition switch_process_impl :: "CPUState \<Rightarrow> 'd system \<Rightarrow> (CPUState \<times> 'd system) option" where
  "switch_process_impl cpu s =
     do { next \<leftarrow> node_next (CurrentProcess s) (ProcessQueue s);
          if next = 0 \<and> CurrentProcess s = queue_head s then Some (cpu, s)
          else do {
            p \<leftarrow> (if next = 0 then next_viable_process (queue_head s) True s
                  else next_viable_process (CurrentProcess s) False s);
            let s1 = s\<lparr>CurrentProcess := p\<rparr>;
            let cpu1 = CPU (processes s1 p);
            s2 \<leftarrow> (if fxsr_enabled s1 \<and> CPUExtraSet (processes s1 p) then fxrstor p s1 else Some s1);
            let s3 = s2\<lparr>vm := flush_page_map (process_CR3 (processes s2 p)) (vm s2)\<rparr>;
            Some (segment_state cpu1, s3) } }"

definition switch_process :: "CPUState \<Rightarrow> 'd system \<Rightarrow> (CPUState \<times> 'd system) option" where
  "switch_process cpu s =
     (let c = CurrentProcess s;
          s1 = upd_process c (\<lambda>x. x\<lparr>CPU := cpu\<rparr>) s;
          s2 = (if fxsr_enabled s1 then fxsave c s1 else s1)
      in switch_process_impl cpu s2)"

text \<open>\<open>yield\<close>: \<open>newstate\<close> is what the uninitialised local variable happens to hold.\<close>

definition yield :: "CPUState \<Rightarrow> 'd system \<Rightarrow> (CPUState \<times> 'd system) option" where
  "yield newstate s = switch_process_impl newstate s"

section \<open>Copying a process\<close>

definition memcpy_ram :: "u64 \<Rightarrow> u64 \<Rightarrow> u64 \<Rightarrow> (u64 \<Rightarrow> u8) \<Rightarrow> (u64 \<Rightarrow> u8)" where
  "memcpy_ram dst src n m = (\<lambda>a. if a - dst < n then m (src + (a - dst)) else m a)"

definition user_flags :: u64 where
  "user_flags = flag_bit Present OR flag_bit ReadWrite OR flag_bit UserSuper"

fun copy_regions :: "u64 \<Rightarrow> obj \<Rightarrow> Region list \<Rightarrow> 'd system \<Rightarrow> 'd system option" where
  "copy_regions newPageTable newProcess [] s = Some s"
| "copy_regions newPageTable newProcess (memory # rest) s =
     (let (newMemoryPages, m) = request_pages (region_pages memory) (physical (vm s));
          s1 = s\<lparr>vm := (vm s)\<lparr>physical := m\<rparr>\<rparr>
      in if newMemoryPages = 0 then None
         else let s2 = s1\<lparr>ram := memcpy_ram newMemoryPages (region_paddr memory)
                                   (region_length memory) (ram s1)\<rparr>;
                  s3 = s2\<lparr>vm := map_pages newPageTable (region_vaddr memory) newMemoryPages
                                  user_flags (region_pages memory) (vm s2)\<rparr>;
                  s4 = upd_process newProcess
                         (add_memory_region (make_region (region_vaddr memory) newMemoryPages
                            (region_length memory) (region_flags memory))) s3
              in copy_regions newPageTable newProcess rest s4)"

text \<open>The garbage that keeps the positions of unused descriptors while copying.\<close>

lemma sv_push_back_measure:
  assumes "sv_push_back x v t = ((fd, True), t1)" "sv_allocated_size t < n"
  shows "length (sv_idxs t1) + (n - sv_allocated_size t1) < length (sv_idxs t) + (n - sv_allocated_size t)"
  using assms
  by (cases "sv_idxs t")
     (auto simp: sv_push_back_def sv_allocate_def sv_allocated_size_def split: if_splits)

function push_garbage :: "nat \<Rightarrow> FileDescriptor \<Rightarrow> FileDescriptor sparse_vector \<Rightarrow> nat list \<Rightarrow>
    nat list \<times> FileDescriptor sparse_vector" where
  "push_garbage procfd sysfd t garbage =
     (if sv_allocated_size t < procfd
      then case sv_push_back InvalidFD sysfd t of ((fd, success), t1) \<Rightarrow>
             if \<not> success then (garbage, t1)
             else push_garbage procfd sysfd t1 (garbage @ [fd])
      else (garbage, t))"
  by pat_completeness auto
termination
  by (relation "measure (\<lambda>(procfd, sysfd, t, garbage).
        length (sv_idxs t) + (procfd - sv_allocated_size t))")
     (auto dest: sv_push_back_measure [OF sym])

declare push_garbage.simps [simp del]

definition share_file :: "FileDescriptor \<Rightarrow> obj \<Rightarrow> 'd system \<Rightarrow> 'd system option" where
  "share_file sysfd p s =
     (let f = file_of_sysfd s sysfd in
      do { s1 \<leftarrow> (if f = 0 then Some s else acquire_meta f s);
           Some (snd (add_file f p s1)) })"

fun copy_descriptors :: "obj \<Rightarrow> (nat \<times> FileDescriptor) list \<Rightarrow> nat list \<Rightarrow> 'd system \<Rightarrow>
    (nat list \<times> 'd system) option" where
  "copy_descriptors newProcess [] garbage s = Some (garbage, s)"
| "copy_descriptors newProcess ((procfd, sysfd) # rest) garbage s =
     (let (garbage1, t) = push_garbage procfd sysfd (FileDescriptors (processes s newProcess)) garbage;
          s1 = upd_fds newProcess t s
      in do { s2 \<leftarrow> share_file sysfd newProcess s1;
              copy_descriptors newProcess rest garbage1 s2 })"

fun erase_garbage :: "nat list \<Rightarrow> FileDescriptor sparse_vector \<Rightarrow> FileDescriptor sparse_vector option" where
  "erase_garbage [] t = Some t"
| "erase_garbage (fd # rest) t =
     do { (_, t1) \<leftarrow> sv_erase InvalidFD fd t; erase_garbage rest t1 }"

definition new_child :: "u64 \<Rightarrow> obj \<Rightarrow> 'd system \<Rightarrow> obj \<times> pid_t \<times> 'd system" where
  "new_child extra original s =
     (let (newProcess, s1) = new_obj s;
          s2 = s1\<lparr>processes := (processes s1)(newProcess := (new_process extra)\<lparr>State := SLEEPING\<rparr>)\<rparr>;
          (pid, s3) = add_process newProcess s2
      in (newProcess, pid,
          upd_process newProcess (\<lambda>x. x\<lparr>ParentProcess := ProcessID (processes s3 original)\<rparr>) s3))"

definition copy_memory :: "u64 \<Rightarrow> obj \<Rightarrow> obj \<Rightarrow> 'd system \<Rightarrow> 'd system option" where
  "copy_memory newPageTable newProcess original s =
     (let s1 = upd_process newProcess (\<lambda>x. x\<lparr>process_CR3 := newPageTable\<rparr>) s;
          s2 = s1\<lparr>vm := map_vm newPageTable newPageTable newPageTable
                          (flag_bit Present OR flag_bit ReadWrite) (vm s1)\<rparr>
      in copy_regions newPageTable newProcess (Memories (processes s2 original)) s2)"

definition copy_files :: "obj \<Rightarrow> obj \<Rightarrow> 'd system \<Rightarrow> 'd system option" where
  "copy_files newProcess original s =
     do { (garbage, s1) \<leftarrow> copy_descriptors newProcess
            (sv_pairs InvalidFD (FileDescriptors (processes s original))) [] s;
          t \<leftarrow> erase_garbage garbage (FileDescriptors (processes s1 newProcess));
          Some (upd_fds newProcess t s1) }"

definition copy_context :: "Process \<Rightarrow> Process \<Rightarrow> Process" where
  "copy_context original p =
     (set_return_value 0
       (p\<lparr>ExecutablePath := ExecutablePath original, WorkingDirectory := WorkingDirectory original,
          CPU := CPU original, next_region_vaddr := next_region_vaddr original\<rparr>))\<lparr>State := RUNNING\<rparr>"

definition CopyUserspaceProcess :: "u64 \<Rightarrow> obj \<Rightarrow> 'd system \<Rightarrow> (pid_t \<times> 'd system) option" where
  "CopyUserspaceProcess extra original s =
     (let (newProcess, pid, s1) = new_child extra original s;
          (newPageTable, v) = clone_page_map (process_CR3 (processes s1 original)) (vm s1);
          s2 = s1\<lparr>vm := v\<rparr>
      in if newPageTable = 0
         then do { (_, s3) \<leftarrow> remove_process pid (- 1) s2; Some (- 1, s3) }
         else do {
           s3 \<leftarrow> copy_memory newPageTable newProcess original s2;
           s4 \<leftarrow> copy_files newProcess original s3;
           Some (pid, upd_process newProcess (copy_context (processes s4 original)) s4) })"

section \<open>The order of switches\<close>

text \<open>
  The processes in the order in which the queue is searched when \<open>c\<close> runs: those behind it,
  those before it, and \<open>c\<close> itself last.
\<close>

definition turn_order :: "obj \<Rightarrow> obj list \<Rightarrow> obj list" where
  "turn_order c Q = tl (dropWhile (\<lambda>q. q \<noteq> c) Q) @ takeWhile (\<lambda>q. q \<noteq> c) Q @ [c]"

lemma turn_order_split:
  assumes "distinct (a @ c # b)"
  shows "turn_order c (a @ c # b) = b @ a @ [c]"
  using assms by (auto simp: turn_order_def takeWhile_append dropWhile_append dropWhile_eq_Nil_conv
      takeWhile_eq_all_conv)

lemma set_turn_order: "distinct Q \<Longrightarrow> c \<in> set Q \<Longrightarrow> set (turn_order c Q) = set Q"
proof -
  assume "distinct Q" "c \<in> set Q"
  moreover from this obtain a b where "Q = a @ c # b" by (auto dest: split_list)
  ultimately show ?thesis using turn_order_split [of a c b] by auto
qed

text \<open>After a switch to \<open>q\<close> the order is the old one, rotated behind \<open>q\<close>.\<close>

lemma turn_order_rotates:
  assumes "distinct Q" "c \<in> set Q" "turn_order c Q = xs @ q # ys"
  shows "turn_order q Q = ys @ xs @ [q]"
proof -
  obtain a b where Q: "Q = a @ c # b" using assms(2) by (auto dest: split_list)
  have e: "b @ a @ [c] = xs @ q # ys" using assms(1,3) turn_order_split Q by metis
  have d: "distinct (a @ c # b)" using assms(1) Q by simp
  consider (behind) ys' where "b = xs @ q # ys'" "ys = ys' @ a @ [c]"
    | (before) a1 a2 where "a = a1 @ q # a2" "xs = b @ a1" "ys = a2 @ [c]"
    | (same) "q = c" "xs = b @ a" "ys = []"
    using e by (auto simp: append_eq_append_conv2 append_eq_Cons_conv Cons_eq_append_conv)
  then show ?thesis
  proof cases
    case behind
    then show ?thesis using d turn_order_split [of "a @ c # xs" q ys'] by (simp add: Q)
  next
    case before
    then show ?thesis using d turn_order_split [of a1 q "a2 @ c # b"] by (simp add: Q)
  next
    case same
    then show ?thesis using d turn_order_split [of a c b] by (simp add: Q)
  qed
qed

lemma find_viable_append:
  "0 \<notin> set xs \<Longrightarrow> find_viable ps (xs @ ys) = (if find_viable ps xs = 0 then find_viable ps ys else find_viable ps xs)"
  by (induction xs) auto

lemma find_viable_none: "0 \<notin> set xs \<Longrightarrow> find_viable ps xs = 0 \<longleftrightarrow> (\<forall>p\<in>set xs. State (ps p) \<noteq> RUNNING)"
  by (induction xs) auto

text \<open>What \<open>find_viable\<close> returns is the first running process.\<close>

lemma find_viable_first:
  assumes "0 \<notin> set xs" "p \<in> set xs" "State (ps p) = RUNNING"
  obtains as bs where "xs = as @ find_viable ps xs # bs" "\<forall>a\<in>set as. State (ps a) \<noteq> RUNNING"
    "State (ps (find_viable ps xs)) = RUNNING" "find_viable ps xs \<noteq> 0"
  using assms
proof (induction xs arbitrary: thesis)
  case (Cons x xs)
  show ?case
  proof (cases "State (ps x) = RUNNING")
    case True
    then show ?thesis using Cons.prems(1) [of "[]" xs] Cons.prems(2) by auto
  next
    case False
    then have "p \<in> set xs" "0 \<notin> set xs" using Cons.prems by auto
    with Cons.IH Cons.prems(4) obtain as bs where
      "xs = as @ find_viable ps xs # bs" "\<forall>a\<in>set as. State (ps a) \<noteq> RUNNING"
      "State (ps (find_viable ps xs)) = RUNNING" "find_viable ps xs \<noteq> 0" by blast
    then show ?thesis using False Cons.prems(1) [of "x # as" bs] by auto
  qed
qed simp

text \<open>The queue is well-formed: its processes are distinct objects and the current one is in it.\<close>

definition queue_ok :: "'d system \<Rightarrow> bool" where
  "queue_ok s \<longleftrightarrow>
     distinct (ProcessQueue s) \<and> 0 \<notin> set (ProcessQueue s) \<and> CurrentProcess s \<in> set (ProcessQueue s)"

text \<open>The save areas are where \<open>fxrstor64\<close> looks for them.\<close>

definition save_areas_aligned :: "'d system \<Rightarrow> bool" where
  "save_areas_aligned s \<longleftrightarrow> (fxsr_enabled s \<longrightarrow>
     (\<forall>p\<in>set (ProcessQueue s). fxrstor_index (CPUExtra_address (processes s p)) = 0))"

lemma node_next_split:
  assumes "distinct (a @ c # b)"
  shows "node_next c (a @ c # b) = Some (case b of [] \<Rightarrow> 0 | r # _ \<Rightarrow> r)"
  using assms by (induction a) auto

text \<open>Both ways in which the next process is chosen search the queue in turn order.\<close>

lemma choose_turn_order:
  assumes "queue_ok s" "\<exists>p\<in>set (ProcessQueue s). State (processes s p) = RUNNING"
    and "node_next (CurrentProcess s) (ProcessQueue s) = Some nxt"
  shows "(if nxt = 0 then next_viable_process (queue_head s) True s
          else next_viable_process (CurrentProcess s) False s) =
         Some (find_viable (processes s) (turn_order (CurrentProcess s) (ProcessQueue s)))"
proof -
  let ?c = "CurrentProcess s" and ?v = "find_viable (processes s)"
  obtain a b where Q: "ProcessQueue s = a @ ?c # b"
    using assms(1) by (auto simp: queue_ok_def dest: split_list)
  have d: "distinct (a @ ?c # b)" and z: "0 \<notin> set (a @ ?c # b)"
    using assms(1) by (simp_all add: queue_ok_def flip: Q)
  have nxt: "nxt = (case b of [] \<Rightarrow> 0 | r # _ \<Rightarrow> r)" using assms(3) d by (simp add: Q node_next_split)
  obtain p where p: "p \<in> set (a @ ?c # b)" "State (processes s p) = RUNNING"
    using assms(2) unfolding Q by blast
  have v: "?v (a @ ?c # b) \<noteq> 0" using p z find_viable_none [OF z] by blast
  have hd: "dropWhile (\<lambda>q. q \<noteq> queue_head s) (a @ ?c # b) = a @ ?c # b" "queue_head s \<noteq> 0"
    using z by (cases a; simp add: queue_head_def Q)+
  have dw: "dropWhile (\<lambda>q. q \<noteq> ?c) (a @ ?c # b) = ?c # b" using d by (simp add: dropWhile_append)
  have t: "turn_order ?c (a @ ?c # b) = b @ a @ [?c]" by (rule turn_order_split [OF d])
  show ?thesis
  proof (cases b)
    case Nil
    then show ?thesis
      using v hd t by (simp add: nxt next_viable_process_def find_next_viable_process_after_def Q)
  next
    case (Cons r b')
    then have n0: "nxt \<noteq> 0" using nxt z by auto
    have "?v (a @ ?c # b) = (if ?v (a @ [?c]) = 0 then ?v b else ?v (a @ [?c]))"
      using z find_viable_append [of "a @ [?c]" "processes s" b] by simp
    moreover have "?v (b @ a @ [?c]) = (if ?v b = 0 then ?v (a @ [?c]) else ?v b)"
      using z by (intro find_viable_append) auto
    ultimately show ?thesis
      using v hd dw n0 z
      by (auto simp: t next_viable_process_def find_next_viable_process_after_def Q Let_def)
  qed
qed

text \<open>
  A switch, given more than one process: the next process in turn order that can run, its
  saved registers, its saved floating point state and its page map.
\<close>

lemma switch_process_impl_spec:
  assumes "queue_ok s" "save_areas_aligned s"
    and "\<exists>p\<in>set (ProcessQueue s). State (processes s p) = RUNNING" "ProcessQueue s \<noteq> [CurrentProcess s]"
  defines "p \<equiv> find_viable (processes s) (turn_order (CurrentProcess s) (ProcessQueue s))"
  shows "switch_process_impl cpu s =
           Some (segment_state (CPU (processes s p)),
             s\<lparr>CurrentProcess := p,
               fpu := (if fxsr_enabled s \<and> CPUExtraSet (processes s p)
                       then CPUExtra (processes s p) else fpu s),
               vm := flush_page_map (process_CR3 (processes s p)) (vm s)\<rparr>)"
    and "p \<in> set (ProcessQueue s)" "State (processes s p) = RUNNING"
proof -
  let ?c = "CurrentProcess s"
  obtain a b where Q: "ProcessQueue s = a @ ?c # b"
    using assms(1) by (auto simp: queue_ok_def dest: split_list)
  have d: "distinct (a @ ?c # b)" and z: "0 \<notin> set (a @ ?c # b)"
    using assms(1) by (simp_all add: queue_ok_def flip: Q)
  have nxt: "node_next ?c (ProcessQueue s) = Some (case b of [] \<Rightarrow> 0 | r # _ \<Rightarrow> r)"
    using d by (simp add: Q node_next_split)
  have st: "set (turn_order ?c (ProcessQueue s)) = set (ProcessQueue s)"
    using assms(1) by (simp add: queue_ok_def set_turn_order)
  obtain r where r: "r \<in> set (turn_order ?c (ProcessQueue s))" "State (processes s r) = RUNNING"
    using assms(3) unfolding st by blast
  have z0: "0 \<notin> set (turn_order ?c (ProcessQueue s))" unfolding st using z by (simp add: Q)
  from find_viable_first [OF z0 r(1), of "processes s", OF r(2)] show p: "p \<in> set (ProcessQueue s)" "State (processes s p) = RUNNING"
    unfolding p_def st [symmetric] by (metis in_set_conv_decomp)+
  have early: "\<not> ((case b of [] \<Rightarrow> 0 | r # _ \<Rightarrow> r) = 0 \<and> ?c = queue_head s)"
  proof (cases b)
    case Nil
    then have "a \<noteq> []" using assms(4) Q by auto
    then show ?thesis using d by (cases a) (auto simp: queue_head_def Q)
  next
    case (Cons r b')
    then show ?thesis using z by auto
  qed
  have al: "fxsr_enabled s \<longrightarrow> fxrstor_index (CPUExtra_address (processes s p)) = 0"
    using assms(2) p(1) by (simp add: save_areas_aligned_def)
  show "switch_process_impl cpu s =
           Some (segment_state (CPU (processes s p)),
             s\<lparr>CurrentProcess := p,
               fpu := (if fxsr_enabled s \<and> CPUExtraSet (processes s p)
                       then CPUExtra (processes s p) else fpu s),
               vm := flush_page_map (process_CR3 (processes s p)) (vm s)\<rparr>)"
    unfolding switch_process_impl_def nxt bind.bind_lunit if_not_P [OF early]
      choose_turn_order [OF assms(1,3) nxt] p_def [symmetric]
    using al by (auto simp: fxrstor_def Let_def)
qed

section \<open>Timer ticks\<close>

text \<open>A queue with several processes, at least one of which can run.\<close>

definition sched_ready :: "'d system \<Rightarrow> bool" where
  "sched_ready s \<longleftrightarrow> queue_ok s \<and> save_areas_aligned s \<and> 1 < length (ProcessQueue s) \<and>
     (\<exists>p\<in>set (ProcessQueue s). State (processes s p) = RUNNING)"

definition save_context :: "CPUState \<Rightarrow> 'd system \<Rightarrow> 'd system" where
  "save_context cpu s =
     (let s1 = upd_process (CurrentProcess s) (\<lambda>x. x\<lparr>CPU := cpu\<rparr>) s
      in if fxsr_enabled s1 then fxsave (CurrentProcess s) s1 else s1)"

lemma switch_process_save: "switch_process cpu s = switch_process_impl cpu (save_context cpu s)"
  by (simp add: switch_process_def save_context_def Let_def)

lemma save_context_simps [simp]:
  "ProcessQueue (save_context cpu s) = ProcessQueue s"
  "CurrentProcess (save_context cpu s) = CurrentProcess s"
  "fxsr_enabled (save_context cpu s) = fxsr_enabled s"
  "fpu (save_context cpu s) = fpu s"
  "vm (save_context cpu s) = vm s"
  "State (processes (save_context cpu s) p) = State (processes s p)"
  "CPUExtra_address (processes (save_context cpu s) p) = CPUExtra_address (processes s p)"
  "process_CR3 (processes (save_context cpu s) p) = process_CR3 (processes s p)"
  by (simp_all add: save_context_def upd_process_def fxsave_def Let_def)

lemma save_context_other: "p \<noteq> CurrentProcess s \<Longrightarrow> processes (save_context cpu s) p = processes s p"
  by (simp add: save_context_def upd_process_def fxsave_def Let_def)

lemma save_context_current:
  "CPU (processes (save_context cpu s) (CurrentProcess s)) = cpu"
  "fxsr_enabled s \<Longrightarrow> CPUExtra (processes (save_context cpu s) (CurrentProcess s)) = fpu s"
  "fxsr_enabled s \<Longrightarrow> CPUExtraSet (processes (save_context cpu s) (CurrentProcess s))"
  by (simp_all add: save_context_def upd_process_def fxsave_def Let_def)

lemma find_viable_cong:
  "(\<And>p. State (ps p) = State (ps' p)) \<Longrightarrow> find_viable ps xs = find_viable ps' xs"
  by (induction xs) auto

lemma switch_process_spec:
  assumes "sched_ready s"
  defines "p \<equiv> find_viable (processes s) (turn_order (CurrentProcess s) (ProcessQueue s))"
  obtains s' where
    "switch_process cpu s = Some (segment_state (CPU (processes s' p)), s')"
    "CurrentProcess s' = p" "p \<in> set (ProcessQueue s)" "State (processes s p) = RUNNING"
    "ProcessQueue s' = ProcessQueue s" "processes s' = processes (save_context cpu s)"
    "fxsr_enabled s' = fxsr_enabled s" "sched_ready s'"
    "fpu s' = (if fxsr_enabled s \<and> CPUExtraSet (processes s' p) then CPUExtra (processes s' p) else fpu s)"
    "ActivePageMap (vm s') = process_CR3 (processes s p)"
proof -
  let ?t = "save_context cpu s"
  have Q: "queue_ok ?t" "save_areas_aligned ?t"
    "\<exists>p\<in>set (ProcessQueue ?t). State (processes ?t p) = RUNNING" "ProcessQueue ?t \<noteq> [CurrentProcess ?t]"
    using assms(1) by (auto simp: sched_ready_def queue_ok_def save_areas_aligned_def)
  have p: "find_viable (processes ?t) (turn_order (CurrentProcess ?t) (ProcessQueue ?t)) = p"
    by (simp add: p_def) (rule find_viable_cong, simp)
  note spec = switch_process_impl_spec [OF Q, unfolded p]
  define s' where "s' = ?t\<lparr>CurrentProcess := p,
     fpu := (if fxsr_enabled ?t \<and> CPUExtraSet (processes ?t p) then CPUExtra (processes ?t p) else fpu ?t),
     vm := flush_page_map (process_CR3 (processes ?t p)) (vm ?t)\<rparr>"
  have "switch_process cpu s = Some (segment_state (CPU (processes s' p)), s')"
    unfolding switch_process_save spec(1) s'_def by simp
  moreover have "sched_ready s'"
    using assms(1) spec(2) by (auto simp: sched_ready_def queue_ok_def save_areas_aligned_def s'_def)
  ultimately show ?thesis
    using that [of s'] spec(2,3) by (simp add: s'_def flush_page_map_def)
qed

text \<open>
  A run of timer ticks: each interrupt finds the registers the running process has reached and
  leaves with those that are restored.
\<close>

fun ticks :: "CPUState list \<Rightarrow> CPUState \<Rightarrow> 'd system \<Rightarrow> (CPUState \<times> 'd system) option" where
  "ticks [] cur s = Some (cur, s)"
| "ticks (cpu # rest) cur s = do { (cur', s1) \<leftarrow> switch_process cpu s; ticks rest cur' s1 }"

text \<open>A process that can run is reached after as many ticks as there are processes before it.\<close>

lemma ticks_reach:
  assumes "sched_ready s" "State (processes s p) = RUNNING"
    and "turn_order (CurrentProcess s) (ProcessQueue s) = xs @ p # ys" "length xs < length cpus"
  shows "\<exists>k cpu' s'. 0 < k \<and> k \<le> Suc (length xs) \<and> ticks (take k cpus) cur s = Some (cpu', s') \<and>
     CurrentProcess s' = p \<and> cpu' = segment_state (CPU (processes s' p)) \<and>
     (CurrentProcess s \<noteq> p \<longrightarrow> processes s' p = processes s p) \<and>
     (fxsr_enabled s \<and> CPUExtraSet (processes s' p) \<longrightarrow> fpu s' = CPUExtra (processes s' p)) \<and>
     ActivePageMap (vm s') = process_CR3 (processes s' p)"
  using assms
proof (induction "length xs" arbitrary: s xs ys cpus cur rule: less_induct)
  case less
  let ?c = "CurrentProcess s" and ?Q = "ProcessQueue s"
  obtain cpu rest where cpus: "cpus = cpu # rest" using less.prems(4) by (cases cpus) auto
  have dq: "distinct ?Q" "?c \<in> set ?Q" "0 \<notin> set ?Q"
    using less.prems(1) by (simp_all add: sched_ready_def queue_ok_def)
  have st: "set (turn_order ?c ?Q) = set ?Q" by (rule set_turn_order [OF dq(1,2)])
  define q where "q = find_viable (processes s) (turn_order ?c ?Q)"
  obtain s1 where s1:
    "switch_process cpu s = Some (segment_state (CPU (processes s1 q)), s1)" "CurrentProcess s1 = q"
    "ProcessQueue s1 = ?Q" "processes s1 = processes (save_context cpu s)"
    "fxsr_enabled s1 = fxsr_enabled s" "sched_ready s1"
    "fpu s1 = (if fxsr_enabled s \<and> CPUExtraSet (processes s1 q) then CPUExtra (processes s1 q) else fpu s)"
    "ActivePageMap (vm s1) = process_CR3 (processes s q)"
    by (rule switch_process_spec [OF less.prems(1), of cpu, folded q_def]) (rule that, assumption+)
  have z: "0 \<notin> set (turn_order ?c ?Q)" and pin: "p \<in> set (turn_order ?c ?Q)"
    using dq(3) st less.prems(3) by auto
  obtain as bs where first: "turn_order ?c ?Q = as @ q # bs" "\<forall>a\<in>set as. State (processes s a) \<noteq> RUNNING"
    using find_viable_first [OF z pin, of "processes s", OF less.prems(2)] q_def by metis
  have keep: "processes s1 p = processes s p" if "?c \<noteq> p"
    using that s1(4) save_context_other [of p s cpu] by simp
  show ?case
  proof (cases "q = p")
    case True
    then show ?thesis
      using s1 cpus keep by (intro exI [of _ 1]) auto
  next
    case False
    have "p \<notin> set as" using first(2) less.prems(2) by blast
    then obtain zs where zs: "xs = as @ q # zs" "bs = zs @ p # ys"
      using first(1) less.prems(3) False
      by (auto simp: append_eq_append_conv2 Cons_eq_append_conv append_eq_Cons_conv)
    have "turn_order q ?Q = bs @ as @ [q]" by (rule turn_order_rotates [OF dq(1,2) first(1)])
    then have t1: "turn_order (CurrentProcess s1) (ProcessQueue s1) = zs @ p # (ys @ as @ [q])"
      using s1(2,3) zs by simp
    have "State (processes s1 p) = RUNNING" using less.prems(2) s1(4) by simp
    moreover have "length zs < length xs" "length zs < length rest" "CurrentProcess s1 \<noteq> p"
      using zs less.prems(4) cpus s1(2) False by simp_all
    ultimately
    obtain k cpu' s' where k: "0 < k" "k \<le> Suc (length zs)"
      "ticks (take k rest) (segment_state (CPU (processes s1 q))) s1 = Some (cpu', s')"
      "CurrentProcess s' = p" "cpu' = segment_state (CPU (processes s' p))"
      "processes s' p = processes s1 p"
      "fxsr_enabled s1 \<and> CPUExtraSet (processes s' p) \<longrightarrow> fpu s' = CPUExtra (processes s' p)"
      "ActivePageMap (vm s') = process_CR3 (processes s' p)"
      using less.hyps [OF _ s1(6) _ t1, of rest "segment_state (CPU (processes s1 q))"] by blast
    show ?thesis
      using k s1(1,5) zs cpus keep by (intro exI [of _ "Suc k"]) auto
  qed
qed

section \<open>Properties\<close>

lemma example_two_simps:
  "ProcessQueue example_two = [1, 2]" "CurrentProcess example_two = 1"
  "processes example_two p = (new_process 0)\<lparr>ProcessID := of_nat p\<rparr>"
  "fxsr_enabled example_two = False"
  by (simp_all add: example_two_def blank_system_def)

lemma example_two_running: "State (processes example_two p) = RUNNING" "CPU (processes example_two p) = zero_cpu"
  by (simp_all add: example_two_simps new_process_def)

lemma example_two_ready: "sched_ready example_two"
  by (auto simp: sched_ready_def queue_ok_def save_areas_aligned_def example_two_simps(1,2,4)
      example_two_running)

text \<open>
  C27: A timer tick switches round robin.  When some process can run, the tick switches to the
  first process behind the current one, in the cyclic order of the queue, whose state is
  running.  The processor gets the registers saved for that process, with \<open>FS\<close> and \<open>GS\<close> set to
  its stack segment, and its page map becomes the active one; the registers of the interrupted
  process are stored in it, and no other process, state or queue entry changes.
\<close>

theorem switch_round_robin:
  assumes "sched_ready s"
  shows "\<exists>p s' before after.
           switch_process cpu s = Some (segment_state (CPU (processes s' p)), s') \<and>
           CurrentProcess s' = p \<and> State (processes s p) = RUNNING \<and>
           turn_order (CurrentProcess s) (ProcessQueue s) = before @ p # after \<and>
           (\<forall>q\<in>set before. State (processes s q) = SLEEPING) \<and>
           ActivePageMap (vm s') = process_CR3 (processes s p) \<and>
           CPU (processes s' (CurrentProcess s)) = cpu \<and>
           (\<forall>q. q \<noteq> CurrentProcess s \<longrightarrow> processes s' q = processes s q) \<and>
           ProcessQueue s' = ProcessQueue s"
proof -
  let ?c = "CurrentProcess s" and ?Q = "ProcessQueue s"
  define p where "p = find_viable (processes s) (turn_order ?c ?Q)"
  obtain s' where s': "switch_process cpu s = Some (segment_state (CPU (processes s' p)), s')"
    "CurrentProcess s' = p" "State (processes s p) = RUNNING" "ProcessQueue s' = ?Q"
    "processes s' = processes (save_context cpu s)" "ActivePageMap (vm s') = process_CR3 (processes s p)"
    by (rule switch_process_spec [OF assms, of cpu, folded p_def]) (rule that, assumption+)
  have st: "set (turn_order ?c ?Q) = set ?Q"
    using assms by (simp add: sched_ready_def queue_ok_def set_turn_order)
  have z: "0 \<notin> set (turn_order ?c ?Q)" and "\<exists>r\<in>set (turn_order ?c ?Q). State (processes s r) = RUNNING"
    unfolding st using assms by (simp_all add: sched_ready_def queue_ok_def)
  then obtain r where r: "r \<in> set (turn_order ?c ?Q)" "State (processes s r) = RUNNING" by blast
  obtain before after where "turn_order ?c ?Q = before @ p # after"
    "\<forall>q\<in>set before. State (processes s q) \<noteq> RUNNING"
    using find_viable_first [OF z r(1), of "processes s", OF r(2)] p_def by metis
  moreover have "x = SLEEPING" if "x \<noteq> RUNNING" for x using that by (cases x) auto
  ultimately show ?thesis
    using s' save_context_current(1) [where cpu = cpu and s = s] save_context_other [of _ s cpu] by auto
qed

theorem switch_round_robin_witness:
  "\<exists>s'. switch_process zero_cpu example_two = Some (zero_cpu, s') \<and> CurrentProcess s' = 2"
proof -
  obtain p s' before after where "switch_process zero_cpu example_two =
      Some (segment_state (CPU (processes s' p)), s')" "CurrentProcess s' = p"
    "turn_order (CurrentProcess example_two) (ProcessQueue example_two) = before @ p # after"
    "\<forall>q\<in>set before. State (processes example_two q) = SLEEPING"
    "\<forall>q. q \<noteq> CurrentProcess example_two \<longrightarrow> processes s' q = processes example_two q"
    using switch_round_robin [OF example_two_ready, of zero_cpu] by blast
  moreover have "turn_order (CurrentProcess example_two) (ProcessQueue example_two) = [2, 1]"
    by (simp add: turn_order_def example_two_simps(1,2))
  moreover have "segment_state zero_cpu = zero_cpu" by (simp add: segment_state_def zero_cpu_def)
  ultimately show ?thesis
    by (cases before) (auto simp: example_two_running example_two_simps(2))
qed

text \<open>
  C8: No process starves.  As long as only timer ticks occur, a process that can run is switched
  to after at most as many ticks as there are processes in the queue.
\<close>

theorem scheduler_fair:
  assumes "sched_ready s" "p \<in> set (ProcessQueue s)" "State (processes s p) = RUNNING"
    and "length (ProcessQueue s) \<le> length cpus"
  shows "\<exists>k cpu' s'. 0 < k \<and> k \<le> length (ProcessQueue s) \<and>
           ticks (take k cpus) cur s = Some (cpu', s') \<and> CurrentProcess s' = p"
proof -
  let ?c = "CurrentProcess s" and ?Q = "ProcessQueue s"
  have q: "distinct ?Q" "?c \<in> set ?Q" using assms(1) by (simp_all add: sched_ready_def queue_ok_def)
  obtain a b where Q: "?Q = a @ ?c # b" using q(2) by (auto dest: split_list)
  have len: "length (turn_order ?c ?Q) = length ?Q"
    using turn_order_split [of a ?c b] q(1) Q by simp
  obtain xs ys where xs: "turn_order ?c ?Q = xs @ p # ys"
    using assms(2) set_turn_order [OF q] by (metis split_list)
  have lx: "length xs < length ?Q" using len unfolding xs by simp
  then have "length xs < length cpus" using assms(4) by simp
  from ticks_reach [OF assms(1,3) xs this, of cur] obtain k cpu' s' where
    "0 < k" "k \<le> Suc (length xs)" "ticks (take k cpus) cur s = Some (cpu', s')" "CurrentProcess s' = p"
    by blast
  with lx show ?thesis by (intro exI [of _ k]) auto
qed

theorem scheduler_fair_witness:
  "\<exists>k cpu' s'. 0 < k \<and> k \<le> 2 \<and>
     ticks (take k [zero_cpu, zero_cpu]) zero_cpu example_two = Some (cpu', s') \<and> CurrentProcess s' = 2"
  using scheduler_fair [OF example_two_ready, of 2 "[zero_cpu, zero_cpu]" zero_cpu]
  by (simp add: example_two_simps(1) example_two_running numeral_2_eq_2)



text \<open>
  A save area that does not lie on a multiple of 512, which \<open>alignas(16)\<close> allows, is restored
  from another address than it was saved to.
\<close>

lemma fxrstor_misaligned:
  assumes "CPUExtra_address (processes s p) mod 512 \<noteq> 0"
  shows "fxrstor p s = None"
proof -
  let ?m = "CPUExtra_address (processes s p) mod 512"
  have m: "unat ?m < 512" "0 < unat ?m" using assms unat_gt_0 [of ?m] by (simp_all add: unat_mod)
  have "unat (512 - ?m) = 512 - unat ?m" using m by (subst unat_sub) (simp_all add: word_le_nat_alt)
  then have "unat ((512 - ?m) mod 512) \<noteq> 0" using m by (simp add: unat_mod)
  then have "fxrstor_index (CPUExtra_address (processes s p)) \<noteq> 0"
    unfolding fxrstor_index_def by (metis unat_0)
  then show ?thesis by (simp add: fxrstor_def)
qed

text \<open>With the only process asleep, \<open>yield\<close> continues with whatever its local variable held.\<close>

lemma yield_single: "ProcessQueue s = [CurrentProcess s] \<Longrightarrow> yield newstate s = Some (newstate, s)"
  by (simp add: yield_def switch_process_impl_def queue_head_def)

end
