(* ===== verification/Fork.thy ===== *)
theory Fork
  imports Scheduler
begin

text \<open>
  What \<open>CopyUserspaceProcess\<close> (\<open>kernel/src/scheduler.cpp\<close>) does to the descriptor tables: the
  child gets the parent's descriptors at the same numbers, with garbage in the unused positions
  while the table is filled, and every file gets one more owner.
\<close>

section \<open>The kernel's table of open files\<close>

lemma push_file:
  assumes inv: "vfs_inv s" and m: "m \<noteq> 0"
    and md: "metas s m = Some md" "occurrences (slots s) m < use_count md"
    and room: "length (sv_els (Files s)) < 18446744073709551615"
    and push: "sv_push_back 0 m (Files s) = ((i, b), files)"
  shows "vfs_inv (s\<lparr>Files := files\<rparr>)" "sv_get 0 files = (slots s)(i := m)" "slots s i = 0"
    and "of_nat i \<noteq> InvalidFD" "unat (of_nat i :: FileDescriptor) = i"
    and "length (sv_els files) \<le> Suc (length (sv_els (Files s)))"
proof -
  note F = sv_push_back_spec [OF vfs_invD(1) [OF inv] m push]
  have il: "i \<le> length (sv_els (Files s))" by (rule sv_free_index [OF push vfs_invD(1) [OF inv] m])
  show I: "of_nat i \<noteq> InvalidFD" "unat (of_nat i :: FileDescriptor) = i"
    using of_nat_not_invalid [of i] il room by auto
  show S: "sv_get 0 files = (slots s)(i := m)" "slots s i = 0" using F by simp_all
  show "length (sv_els files) \<le> Suc (length (sv_els (Files s)))" using F(6) il by simp
  have occ: "occurrences (sv_get 0 files) w = occurrences (slots s) w + (if m = w then 1 else 0)"
    if "w \<noteq> 0" for w
    using sv.insert_occurrences [OF vfs_invD(1) [OF inv] m that] push by simp
  have alive: "\<exists>md. metas s (sv_get 0 files k) = Some md \<and>
      occurrences (sv_get 0 files) (sv_get 0 files k) \<le> use_count md" if k: "sv_get 0 files k \<noteq> 0" for k
  proof (cases "sv_get 0 files k = m")
    case True
    then show ?thesis using md m occ [of m] by simp
  next
    case False
    then have "slots s k = sv_get 0 files k" by (auto simp: S split: if_splits)
    then show ?thesis using vfs_invD(5) [OF inv, of k] False k occ [OF k] by auto
  qed
  have used: "sv_get 0 files (unat (fds s q k)) \<noteq> 0"
    if "q \<in> set (ProcessQueue s)" "fds s q k \<noteq> InvalidFD" for q k
    using vfs_invD(3) [OF inv that] m by (simp add: S)
  show "vfs_inv (s\<lparr>Files := files\<rparr>)"
    unfolding vfs_inv_def
  proof (intro conjI)
    show "sv_inv 0 (Files (s\<lparr>Files := files\<rparr>))" using F(2) by simp
    show "\<forall>p \<in> set (ProcessQueue (s\<lparr>Files := files\<rparr>)).
        sv_inv InvalidFD (FileDescriptors (processes (s\<lparr>Files := files\<rparr>) p))"
      using vfs_invD(2) [OF inv] by simp
    show "\<forall>p \<in> set (ProcessQueue (s\<lparr>Files := files\<rparr>)). \<forall>i. fds (s\<lparr>Files := files\<rparr>) p i \<noteq> InvalidFD \<longrightarrow>
        slots (s\<lparr>Files := files\<rparr>) (unat (fds (s\<lparr>Files := files\<rparr>) p i)) \<noteq> 0"
      using used by simp
    show "\<forall>p \<in> set (ProcessQueue (s\<lparr>Files := files\<rparr>)). \<forall>q \<in> set (ProcessQueue (s\<lparr>Files := files\<rparr>)). \<forall>i j.
        fds (s\<lparr>Files := files\<rparr>) p i \<noteq> InvalidFD \<and>
        fds (s\<lparr>Files := files\<rparr>) p i = fds (s\<lparr>Files := files\<rparr>) q j \<longrightarrow> p = q \<and> i = j"
      using inv unfolding vfs_inv_def by simp blast
    show "\<forall>i. slots (s\<lparr>Files := files\<rparr>) i \<noteq> 0 \<longrightarrow>
        (\<exists>md. metas (s\<lparr>Files := files\<rparr>) (slots (s\<lparr>Files := files\<rparr>) i) = Some md \<and>
          occurrences (slots (s\<lparr>Files := files\<rparr>)) (slots (s\<lparr>Files := files\<rparr>) i) \<le> use_count md)"
      using alive by simp
  qed
qed

section \<open>Garbage\<close>

lemma push_garbage_spec:
  assumes "sv_idxs t = []" "f \<noteq> InvalidFD"
  shows "push_garbage k f t G =
    (G @ [length (sv_els t)..<k], t\<lparr>sv_els := sv_els t @ replicate (k - length (sv_els t)) f\<rparr>)"
  using assms(1)
proof (induction "k - length (sv_els t)" arbitrary: t G)
  case 0
  then show ?case by (subst push_garbage.simps) (simp add: sv_allocated_size_def)
next
  case (Suc x)
  define t1 where "t1 = t\<lparr>sv_els := sv_els t @ [f]\<rparr>"
  have lt: "length (sv_els t) < k" using Suc.hyps(2) by simp
  have "sv_push_back InvalidFD f t = ((length (sv_els t), True), t1)"
    using Suc.prems assms(2) by (simp add: sv_push_back_def sv_allocate_def t1_def)
  then have "push_garbage k f t G = push_garbage k f t1 (G @ [length (sv_els t)])"
    using lt by (subst push_garbage.simps) (simp add: sv_allocated_size_def)
  also have "\<dots> = (G @ [length (sv_els t)] @ [length (sv_els t1)..<k],
      t1\<lparr>sv_els := sv_els t1 @ replicate (k - length (sv_els t1)) f\<rparr>)"
    using Suc.hyps(1) [of t1] Suc.hyps(2) Suc.prems by (simp add: t1_def)
  also have "[length (sv_els t)] @ [length (sv_els t1)..<k] = [length (sv_els t)..<k]"
    using lt by (simp add: t1_def upt_conv_Cons)
  also have "t1\<lparr>sv_els := sv_els t1 @ replicate (k - length (sv_els t1)) f\<rparr> =
      t\<lparr>sv_els := sv_els t @ replicate (Suc (k - length (sv_els t1))) f\<rparr>"
    by (simp add: t1_def)
  also have "Suc (k - length (sv_els t1)) = k - length (sv_els t)" using lt by (simp add: t1_def)
  finally show ?case .
qed

lemma erase_garbage_spec:
  assumes "sv_inv InvalidFD t" "distinct G" "\<And>i. i \<in> set G \<Longrightarrow> sv_get InvalidFD t i \<noteq> InvalidFD"
  shows "\<exists>t'. erase_garbage G t = Some t' \<and> sv_inv InvalidFD t' \<and>
           (\<forall>i. sv_get InvalidFD t' i = (if i \<in> set G then InvalidFD else sv_get InvalidFD t i))"
  using assms
proof (induction G arbitrary: t)
  case Nil
  then show ?case by simp
next
  case (Cons g G)
  obtain t1 where t1: "sv_erase InvalidFD g t = Some (True, t1)" "sv_inv InvalidFD t1"
    "sv_get InvalidFD t1 = (sv_get InvalidFD t)(g := InvalidFD)"
    using sv_erase_spec [OF Cons.prems(1), of g] Cons.prems(3) by auto
  have "\<exists>t'. erase_garbage G t1 = Some t' \<and> sv_inv InvalidFD t' \<and>
           (\<forall>i. sv_get InvalidFD t' i = (if i \<in> set G then InvalidFD else sv_get InvalidFD t1 i))"
    using Cons.prems t1(2,3) by (intro Cons.IH) auto
  then show ?case using t1 by auto
qed

section \<open>Copying one descriptor\<close>

text \<open>
  While the child \<open>n\<close> is being filled: \<open>D\<close> are the descriptors copied so far from the state
  \<open>s0\<close>, \<open>G\<close> the positions with garbage; the tables of the processes \<open>Q\<close> are consistent, and
  the entries of the child lie in slots that were free before.
\<close>

definition copying :: "obj \<Rightarrow> obj list \<Rightarrow> 'd system \<Rightarrow> (nat \<times> FileDescriptor) list \<Rightarrow> nat list \<Rightarrow>
    'd system \<Rightarrow> bool" where
  "copying n Q s0 D G s \<longleftrightarrow>
     vfs_inv (s\<lparr>ProcessQueue := Q\<rparr>) \<and>
     (\<forall>q. q \<noteq> n \<longrightarrow> processes s q = processes s0 q) \<and> ProcessQueue s = ProcessQueue s0 \<and>
     (let t = FileDescriptors (processes s n) in
        sv_idxs t = [] \<and> sv_inv InvalidFD t \<and> distinct G \<and>
        set G \<union> fst ` set D = {..<length (sv_els t)} \<and> set G \<inter> fst ` set D = {}) \<and>
     (\<forall>i. slots s0 i \<noteq> 0 \<longrightarrow> slots s i = slots s0 i) \<and>
     (\<forall>(k, f) \<in> set D. slots s0 (unat (fds s n k)) = 0 \<and>
        slots s (unat (fds s n k)) = slots s0 (unat f) \<and> slots s0 (unat f) \<noteq> 0) \<and>
     inj_on (fds s n) (fst ` set D) \<and>
     length (sv_els (Files s)) \<le> length (sv_els (Files s0)) + length D"

lemma copyingD:
  assumes "copying n Q s0 D G s"
  shows "vfs_inv (s\<lparr>ProcessQueue := Q\<rparr>)" "q \<noteq> n \<Longrightarrow> processes s q = processes s0 q"
    "ProcessQueue s = ProcessQueue s0"
    "sv_idxs (FileDescriptors (processes s n)) = []" "sv_inv InvalidFD (FileDescriptors (processes s n))"
    "distinct G" "set G \<union> fst ` set D = {..<length (sv_els (FileDescriptors (processes s n)))}"
    "set G \<inter> fst ` set D = {}"
    "slots s0 i \<noteq> 0 \<Longrightarrow> slots s i = slots s0 i"
    "(k, f) \<in> set D \<Longrightarrow> slots s0 (unat (fds s n k)) = 0"
    "(k, f) \<in> set D \<Longrightarrow> slots s (unat (fds s n k)) = slots s0 (unat f)"
    "(k, f) \<in> set D \<Longrightarrow> slots s0 (unat f) \<noteq> 0"
    "inj_on (fds s n) (fst ` set D)"
    "length (sv_els (Files s)) \<le> length (sv_els (Files s0)) + length D"
  using assms unfolding copying_def Let_def by blast+

lemma full_table_get:
  assumes "sv_idxs t = []" "sv_inv x t"
  shows "sv_get x t k \<noteq> x \<longleftrightarrow> k < length (sv_els t)"
  using assms by (auto simp: sv_get_def sv_inv_def)

lemma vfs_inv_cong:
  assumes "vfs_inv s" "Files s' = Files s" "metas s' = metas s" "ProcessQueue s' = ProcessQueue s"
    and "\<And>q. q \<in> set (ProcessQueue s) \<Longrightarrow> FileDescriptors (processes s' q) = FileDescriptors (processes s q)"
  shows "vfs_inv s'"
  using assms(1) unfolding vfs_inv_def assms(2-4) by (simp add: assms(5) cong: ball_cong) blast

lemma copy_one:
  assumes c: "copying n Q s0 D G s" and n: "n \<noteq> 0" "n \<notin> set Q"
    and f: "f \<noteq> InvalidFD" "slots s0 (unat f) \<noteq> 0"
    and k: "length (sv_els (FileDescriptors (processes s n))) \<le> k"
    and room: "length (sv_els (Files s0)) + length D < 18446744073709551615"
  obtains s' where
    "copy_descriptors n ((k, f) # rest) G s =
       copy_descriptors n rest (G @ [length (sv_els (FileDescriptors (processes s n)))..<k]) s'"
    "copying n Q s0 (D @ [(k, f)]) (G @ [length (sv_els (FileDescriptors (processes s n)))..<k]) s'"
    "length (sv_els (FileDescriptors (processes s' n))) = Suc k"
proof -
  note C = copyingD [OF c]
  define t where "t = FileDescriptors (processes s n)"
  define len where "len = length (sv_els t)"
  define t1 where "t1 = t\<lparr>sv_els := sv_els t @ replicate (k - len) f\<rparr>"
  define s1 where "s1 = upd_fds n t1 s"
  have t: "sv_idxs t = []" "sv_inv InvalidFD t" using C(4,5) by (simp_all add: t_def)
  have g: "push_garbage k f t G = (G @ [len..<k], t1)"
    using push_garbage_spec [OF t(1) f(1)] by (simp add: t1_def len_def)
  have t1: "sv_idxs t1 = []" "length (sv_els t1) = k" "sv_inv InvalidFD t1"
    using t f(1) k by (auto simp: t1_def len_def t_def [symmetric] sv_inv_def nth_append)
  define m where "m = slots s0 (unat f)"
  have sm: "slots s (unat f) = m" using C(9) f(2) by (simp add: m_def)
  have F1: "Files s1 = Files s" "metas s1 = metas s" "ProcessQueue s1 = ProcessQueue s"
    "FileDescriptors (processes s1 n) = t1" "\<And>q. q \<noteq> n \<Longrightarrow> processes s1 q = processes s q"
    by (simp_all add: s1_def upd_fds_def upd_process_def)
  obtain md where md: "metas s m = Some md" "occurrences (slots s) m \<le> use_count md"
    using vfs_invD(5) [OF C(1), of "unat f"] sm f(2) by (auto simp: m_def)
  define s2 where "s2 = s1\<lparr>metas := (metas s1)(m \<mapsto> md\<lparr>use_count := use_count md + 1\<rparr>)\<rparr>"
  have acq: "acquire_meta m s1 = Some s2" using md by (simp add: acquire_meta_def s2_def F1)
  have acqQ: "acquire_meta m (s\<lparr>ProcessQueue := Q\<rparr>) =
      Some ((s\<lparr>ProcessQueue := Q\<rparr>)\<lparr>metas := (metas s)(m \<mapsto> md\<lparr>use_count := use_count md + 1\<rparr>)\<rparr>)"
    using md by (simp add: acquire_meta_def)
  note inv2 = acquire_inv [OF C(1) acqQ]
  obtain i b files where push: "sv_push_back 0 m (Files s) = ((i, b), files)" by (metis surj_pair)
  note P = push_file [OF inv2, of m "md\<lparr>use_count := use_count md + 1\<rparr>" i b files]
  have P: "vfs_inv ((s\<lparr>ProcessQueue := Q\<rparr>)\<lparr>metas := (metas s)(m \<mapsto> md\<lparr>use_count := use_count md + 1\<rparr>),
       Files := files\<rparr>)" "sv_get 0 files = (slots s)(i := m)" "slots s i = 0"
    "of_nat i \<noteq> InvalidFD" "unat (of_nat i :: FileDescriptor) = i"
    "length (sv_els files) \<le> Suc (length (sv_els (Files s)))"
    using P md(2) f(2) push C(14) room by (simp_all add: m_def)
  obtain j b2 t2 where push2: "sv_push_back InvalidFD (of_nat i) t1 = ((j, b2), t2)" by (metis surj_pair)
  note T = sv_push_back_spec [OF t1(3) P(4) push2]
  have j: "j = k" "sv_idxs t2 = []" using T(5) t1(1,2) by simp_all
  have get2: "sv_get InvalidFD t2 = (sv_get InvalidFD t1)(k := of_nat i)" using T(4) j(1) by simp
  define s' where "s' = upd_fds n t2 (s2\<lparr>Files := files\<rparr>)"
  have share: "share_file f n s1 = Some s'"
    using n(1) f(2) acq push push2
    by (simp add: share_file_def file_of_sysfd_eq F1 sm m_def [symmetric] add_file_def s2_def s'_def Let_def)
  have run: "copy_descriptors n ((k, f) # rest) G s = copy_descriptors n rest (G @ [len..<k]) s'"
    using g share by (simp add: t_def [symmetric] s1_def [symmetric])
  have fin: "Files s' = files" "ProcessQueue s' = ProcessQueue s" "FileDescriptors (processes s' n) = t2"
    "metas s' = (metas s)(m \<mapsto> md\<lparr>use_count := use_count md + 1\<rparr>)"
    "\<And>q. q \<noteq> n \<Longrightarrow> processes s' q = processes s q"
    by (simp_all add: s'_def s2_def F1 upd_fds_def upd_process_def)
  have get1: "sv_get InvalidFD t1 l = sv_get InvalidFD t l" if "l < len" for l
    using that by (simp add: t1_def len_def sv_get_def nth_append)
  have Dlt: "l < len" if "l \<in> fst ` set D" for l using C(7) that by (auto simp: t_def len_def)
  have kD: "k \<notin> fst ` set D" using Dlt [of k] k by (auto simp: len_def t_def)
  have getD: "sv_get InvalidFD t2 l = fds s n l" if "l \<in> fst ` set D" for l
    using that kD Dlt get1 by (auto simp: get2 t_def)
  have s0i: "slots s0 i = 0"
  proof (rule ccontr)
    assume "slots s0 i \<noteq> 0"
    then show False using C(9) [of i] P(3) by simp
  qed
  have iD: "of_nat i \<noteq> fds s n l" if "l \<in> fst ` set D" for l
  proof
    assume e: "of_nat i = fds s n l"
    obtain g where "(l, g) \<in> set D" using \<open>l \<in> fst ` set D\<close> by auto
    from C(11) [OF this] C(12) [OF this] have "slots s (unat (fds s n l)) \<noteq> 0" by simp
    then show False unfolding e [symmetric] P(5) using P(3) by simp
  qed
  have "copying n Q s0 (D @ [(k, f)]) (G @ [len..<k]) s'"
    unfolding copying_def Let_def
  proof (intro conjI)
    show "vfs_inv (s'\<lparr>ProcessQueue := Q\<rparr>)"
    proof (rule vfs_inv_cong [OF P(1)])
      fix q assume "q \<in> set (ProcessQueue (s\<lparr>ProcessQueue := Q,
        metas := (metas s)(m \<mapsto> md\<lparr>use_count := use_count md + 1\<rparr>), Files := files\<rparr>))"
      then have "q \<noteq> n" using n(2) by auto
      then show "FileDescriptors (processes (s'\<lparr>ProcessQueue := Q\<rparr>) q) =
        FileDescriptors (processes (s\<lparr>ProcessQueue := Q,
          metas := (metas s)(m \<mapsto> md\<lparr>use_count := use_count md + 1\<rparr>), Files := files\<rparr>) q)"
        by (simp add: fin(5))
    qed (simp_all add: fin(1,4))
    show "\<forall>q. q \<noteq> n \<longrightarrow> processes s' q = processes s0 q" using fin(5) C(2) by simp
    show "ProcessQueue s' = ProcessQueue s0" using fin(2) C(3) by simp
    show "sv_idxs (FileDescriptors (processes s' n)) = []" using j(2) fin(3) by simp
    show "sv_inv InvalidFD (FileDescriptors (processes s' n))" using T(2) fin(3) by simp
    have l2: "length (sv_els t2) = Suc k" using T(6) j(1) t1(2) by simp
    have GD: "set G \<union> fst ` set D = {..<len}" using C(7) by (simp add: len_def t_def)
    have lk: "len \<le> k" using k by (simp add: len_def t_def)
    have Glt: "x < len" if "x \<in> set G" for x using GD that by blast
    then show "distinct (G @ [len..<k])" using C(6) by force
    show "set (G @ [len..<k]) \<union> fst ` set (D @ [(k, f)]) = {..<length (sv_els (FileDescriptors (processes s' n)))}"
    proof -
      have "set (G @ [len..<k]) \<union> fst ` set (D @ [(k, f)]) = (set G \<union> fst ` set D) \<union> {len..<k} \<union> {k}"
        by simp blast
      also have "\<dots> = {..<Suc k}" unfolding GD using lk by auto
      finally show ?thesis unfolding fin(3) l2 .
    qed
    show "set (G @ [len..<k]) \<inter> fst ` set (D @ [(k, f)]) = {}"
    proof -
      have "set (G @ [len..<k]) \<inter> {k} = {}" using lk Glt by fastforce
      moreover have "set [len..<k] \<inter> fst ` set D = {}" using Dlt by fastforce
      ultimately show ?thesis using C(8) by auto
    qed
    show "\<forall>i. slots s0 i \<noteq> 0 \<longrightarrow> slots s' i = slots s0 i"
      using C(9) s0i by (auto simp: fin(1) P(2))
    show "\<forall>(l, g) \<in> set (D @ [(k, f)]). slots s0 (unat (fds s' n l)) = 0 \<and>
        slots s' (unat (fds s' n l)) = slots s0 (unat g) \<and> slots s0 (unat g) \<noteq> 0"
    proof (clarify, goal_cases)
      case (1 l g)
      then consider "(l, g) \<in> set D" | "l = k" "g = f" by auto
      then show ?case
      proof cases
        case 1
        then have l: "l \<in> fst ` set D" by force
        have "unat (fds s n l) \<noteq> i" using iD [OF l] P(5) by (metis word_unat_eq_iff)
        then show ?thesis
          using C(10-12) [OF 1] by (simp add: fin(1,3) getD [OF l] P(2))
      next
        case 2
        then show ?thesis using s0i f(2) P(5) by (simp add: fin(1,3) get2 P(2) m_def)
      qed
    qed
    have "inj_on (sv_get InvalidFD t2) (fst ` set D)" using C(13) getD inj_on_cong by metis
    moreover have "sv_get InvalidFD t2 k \<notin> sv_get InvalidFD t2 ` (fst ` set D - {k})"
    proof
      assume "sv_get InvalidFD t2 k \<in> sv_get InvalidFD t2 ` (fst ` set D - {k})"
      then obtain l where "l \<in> fst ` set D" "sv_get InvalidFD t2 k = sv_get InvalidFD t2 l" by auto
      then show False using iD [of l] getD [of l] by (simp add: get2)
    qed
    ultimately show "inj_on (fds s' n) (fst ` set (D @ [(k, f)]))"
      by (simp add: fin(3) inj_on_insert)
    show "length (sv_els (Files s')) \<le> length (sv_els (Files s0)) + length (D @ [(k, f)])"
      using P(6) C(14) by (simp add: fin(1))
  qed
  then show ?thesis using that run j T(6) t1(2) fin(3) by (simp add: len_def t_def)
qed

section \<open>Copying all descriptors\<close>

lemma copy_descriptors_spec:
  assumes "copying n Q s0 D G s" "n \<noteq> 0" "n \<notin> set Q"
    and "\<And>k f. (k, f) \<in> set rest \<Longrightarrow> f \<noteq> InvalidFD \<and> slots s0 (unat f) \<noteq> 0"
    and "sorted_wrt (<) (map fst rest)"
    and "\<And>k. k \<in> fst ` set rest \<Longrightarrow> length (sv_els (FileDescriptors (processes s n))) \<le> k"
    and "length (sv_els (Files s0)) + length D + length rest < 18446744073709551615"
  shows "\<exists>G' s'. copy_descriptors n rest G s = Some (G', s') \<and> copying n Q s0 (D @ rest) G' s'"
  using assms
proof (induction rest arbitrary: D G s)
  case Nil
  then show ?case by simp
next
  case (Cons x rest)
  obtain k f where x: "x = (k, f)" by (cases x)
  let ?G = "G @ [length (sv_els (FileDescriptors (processes s n)))..<k]"
  obtain s' where s': "copy_descriptors n ((k, f) # rest) G s = copy_descriptors n rest ?G s'"
    "copying n Q s0 (D @ [(k, f)]) ?G s'" "length (sv_els (FileDescriptors (processes s' n))) = Suc k"
    by (rule copy_one [OF Cons.prems(1-3), of f k rest])
       (use Cons.prems(4) [of k f] Cons.prems(6) [of k] Cons.prems(7) x in \<open>auto intro: that\<close>)
  have "\<exists>G' s''. copy_descriptors n rest ?G s' = Some (G', s'') \<and>
      copying n Q s0 ((D @ [(k, f)]) @ rest) G' s''"
  proof (rule Cons.IH [OF s'(2) Cons.prems(2,3)])
    show "\<And>k' f'. (k', f') \<in> set rest \<Longrightarrow> f' \<noteq> InvalidFD \<and> slots s0 (unat f') \<noteq> 0"
      using Cons.prems(4) by auto
    show "sorted_wrt (<) (map fst rest)" using Cons.prems(5) by simp
    show "\<And>k'. k' \<in> fst ` set rest \<Longrightarrow> length (sv_els (FileDescriptors (processes s' n))) \<le> k'"
      using Cons.prems(5) s'(3) x by (auto simp: Suc_le_eq)
    show "length (sv_els (Files s0)) + length (D @ [(k, f)]) + length rest < 18446744073709551615"
      using Cons.prems(7) by simp
  qed
  then show ?case using s'(1) x by simp
qed

text \<open>The tables of all processes are consistent again once the garbage is erased.\<close>

lemma copy_files_spec:
  assumes inv: "vfs_inv (s\<lparr>ProcessQueue := Q\<rparr>)" and n: "n \<noteq> 0" "n \<notin> set Q"
    and queue: "set (ProcessQueue s) = insert n (set Q)" and p: "p \<in> set Q"
    and empty: "FileDescriptors (processes s n) = sv_empty"
    and room: "length (sv_els (Files s)) + length (sv_els (FileDescriptors (processes s p)))
                 < 18446744073709551615"
  obtains s' where "copy_files n p s = Some s'" "vfs_inv s'"
    "\<And>k. vfs_file s' n k = vfs_file s p k"
    "\<And>q k. q \<in> set Q \<Longrightarrow> vfs_file s' q k = vfs_file s q k"
    "ProcessQueue s' = ProcessQueue s" "\<And>q. q \<noteq> n \<Longrightarrow> processes s' q = processes s q"
proof -
  let ?D = "sv_pairs InvalidFD (FileDescriptors (processes s p))"
  have start: "copying n Q s [] [] s"
    using inv empty by (simp add: copying_def sv_empty_def sv_inv_def)
  have pairs: "(k, f) \<in> set ?D \<longleftrightarrow> fds s p k = f \<and> f \<noteq> InvalidFD" for k f by (rule sv_pairs_iff)
  have used: "slots s (unat (fds s q k)) \<noteq> 0" if "q \<in> set Q" "fds s q k \<noteq> InvalidFD" for q k
    using vfs_invD(3) [OF inv, of q k] that by simp
  have lenD: "length ?D \<le> length (sv_els (FileDescriptors (processes s p)))"
    unfolding sv_pairs_def by (metis length_enumerate length_filter_le)
  have "\<exists>G' s'. copy_descriptors n ?D [] s = Some (G', s') \<and> copying n Q s ([] @ ?D) G' s'"
    by (rule copy_descriptors_spec [OF start n])
       (use pairs used [OF p] sorted_sv_pairs empty room lenD in \<open>auto simp: sv_empty_def\<close>)
  then obtain G s1 where run: "copy_descriptors n ?D [] s = Some (G, s1)" and c: "copying n Q s ?D G s1"
    by auto
  note C = copyingD [OF c]
  let ?t = "FileDescriptors (processes s1 n)"
  have full: "sv_get InvalidFD ?t k \<noteq> InvalidFD \<longleftrightarrow> k < length (sv_els ?t)" for k
    by (rule full_table_get [OF C(4,5)])
  obtain t where t: "erase_garbage G ?t = Some t" "sv_inv InvalidFD t"
    "\<And>i. sv_get InvalidFD t i = (if i \<in> set G then InvalidFD else sv_get InvalidFD ?t i)"
    using erase_garbage_spec [OF C(5,6)] full C(7) by blast
  define s' where "s' = upd_fds n t s1"
  have run': "copy_files n p s = Some s'" using run t(1) by (simp add: copy_files_def s'_def)
  have S: "Files s' = Files s1" "metas s' = metas s1" "ProcessQueue s' = ProcessQueue s"
    "FileDescriptors (processes s' n) = t" "\<And>q. q \<noteq> n \<Longrightarrow> processes s' q = processes s q"
    using C(2,3) by (simp_all add: s'_def upd_fds_def upd_process_def)
  have fdn: "fds s' n k = (if fds s p k = InvalidFD then InvalidFD else sv_get InvalidFD ?t k)" for k
  proof (cases "fds s p k = InvalidFD")
    case True
    then have "k \<notin> fst ` set ?D" using pairs by auto
    then have "k \<in> set G \<or> \<not> k < length (sv_els ?t)" using C(7) by blast
    then show ?thesis using True full [of k] by (auto simp: S(4) t(3))
  next
    case False
    then have "k \<in> fst ` set ?D" using pairs by force
    then show ?thesis using C(8) False by (auto simp: S(4) t(3))
  qed
  have entry: "fds s' n k \<noteq> InvalidFD" "slots s (unat (fds s' n k)) = 0"
    "slots s' (unat (fds s' n k)) = vfs_file s p k" "k \<in> fst ` set ?D" if "fds s p k \<noteq> InvalidFD" for k
  proof -
    have d: "(k, fds s p k) \<in> set ?D" using pairs that by blast
    then show kd: "k \<in> fst ` set ?D" by force
    then have "sv_get InvalidFD ?t k \<noteq> InvalidFD" using full C(7) by blast
    then show "fds s' n k \<noteq> InvalidFD" using that by (simp add: fdn)
    show "slots s (unat (fds s' n k)) = 0" "slots s' (unat (fds s' n k)) = vfs_file s p k"
      using C(10,11) [OF d] that by (simp_all add: fdn S(1) vfs_file_def)
  qed
  have fdq: "fds s' q k = fds s q k" if "q \<noteq> n" for q k using S(5) [OF that] by simp
  have keep: "slots s' (unat (fds s q k)) = slots s (unat (fds s q k))"
    if "q \<in> set Q" "fds s q k \<noteq> InvalidFD" for q k using C(9) used [OF that] by (simp add: S(1))
  have filen: "vfs_file s' n k = vfs_file s p k" for k
    using entry(1,3) [of k] by (cases "fds s p k = InvalidFD") (simp_all add: vfs_file_def fdn)
  have fileq: "vfs_file s' q k = vfs_file s q k" if "q \<in> set Q" for q k
  proof -
    have "q \<noteq> n" using that n(2) by blast
    then show ?thesis using keep [OF that, of k] by (simp add: vfs_file_def fdq)
  qed
  have apart: "fds s' n k \<noteq> fds s' q l" if "q \<in> set Q" "fds s' n k \<noteq> InvalidFD" for q k l
  proof
    assume e: "fds s' n k = fds s' q l"
    have "q \<noteq> n" using that(1) n(2) by blast
    then have q: "fds s' n k = fds s q l" using e fdq by simp
    have "fds s p k \<noteq> InvalidFD" using that(2) fdn [of k] by auto
    then have "slots s (unat (fds s q l)) = 0" using entry(2) [of k] unfolding q by blast
    then show False using used [OF that(1), of l] that(2) unfolding q by blast
  qed
  have inv1: "vfs_inv (s1\<lparr>ProcessQueue := Q\<rparr>)" by (rule C(1))
  have inv': "vfs_inv s'" unfolding vfs_inv_def
  proof (intro conjI)
    show "sv_inv 0 (Files s')" using vfs_invD(1) [OF inv1] by (simp add: S(1))
    show "\<forall>q \<in> set (ProcessQueue s'). sv_inv InvalidFD (FileDescriptors (processes s' q))"
    proof
      fix q assume "q \<in> set (ProcessQueue s')"
      then consider "q = n" | "q \<in> set Q" "q \<noteq> n" using queue by (auto simp: S(3))
      then show "sv_inv InvalidFD (FileDescriptors (processes s' q))"
        by cases (use vfs_invD(2) [OF inv, of q] t(2) in \<open>simp_all add: S(4,5)\<close>)
    qed
    show "\<forall>q \<in> set (ProcessQueue s'). \<forall>i. fds s' q i \<noteq> InvalidFD \<longrightarrow> slots s' (unat (fds s' q i)) \<noteq> 0"
    proof (intro ballI allI impI)
      fix q i assume q: "q \<in> set (ProcessQueue s')" "fds s' q i \<noteq> InvalidFD"
      show "slots s' (unat (fds s' q i)) \<noteq> 0"
      proof (cases "q = n")
        case True
        then have "fds s p i \<noteq> InvalidFD" using q(2) fdn [of i] by auto
        then show ?thesis using True entry(3) [of i] used [OF p] by (simp add: vfs_file_def)
      next
        case False
        then have "q \<in> set Q" using q(1) queue by (simp add: S(3))
        then show ?thesis using q(2) keep [of q i] used [of q i] False by (simp add: fdq)
      qed
    qed
    show "\<forall>q \<in> set (ProcessQueue s'). \<forall>r \<in> set (ProcessQueue s'). \<forall>i j.
        fds s' q i \<noteq> InvalidFD \<and> fds s' q i = fds s' r j \<longrightarrow> q = r \<and> i = j"
    proof (intro ballI allI impI, goal_cases)
      case (1 q r i j)
      have eq: "fds s' q i = fds s' r j" using 1(3) by blast
      have ij: "fds s' q i \<noteq> InvalidFD" using 1(3) by blast
      have ji: "fds s' r j \<noteq> InvalidFD" using ij unfolding eq .
      consider "q = n" "r = n" | "q = n" "r \<in> set Q" | "q \<in> set Q" "r = n"
        | "q \<in> set Q" "r \<in> set Q" "q \<noteq> n" "r \<noteq> n"
        using 1(1,2) queue by (auto simp: S(3))
      then show ?case
      proof cases
        case 1
        have v: "fds s p i \<noteq> InvalidFD" using ij fdn [of i] unfolding 1 by metis
        have w: "fds s p j \<noteq> InvalidFD" using ji fdn [of j] unfolding 1 by metis
        have "sv_get InvalidFD ?t i = sv_get InvalidFD ?t j"
          using eq v w unfolding 1 fdn by (simp only: if_False)
        then have "i = j" using inj_onD [OF C(13) _ entry(4) [OF v] entry(4) [OF w]] by blast
        then show ?thesis using 1 by simp
      next
        case 2
        then show ?thesis using apart [OF 2(2), of i j] ij eq unfolding 2(1) by blast
      next
        case 3
        then show ?thesis using apart [OF 3(1), of j i] ji eq unfolding 3(2) by metis
      next
        case 4
        have "fds s q i \<noteq> InvalidFD" "fds s q i = fds s r j" using ij eq fdq 4(3,4) by metis+
        then show ?thesis using vfs_invD(4) [OF inv, of q r i j] 4(1,2) by simp
      qed
    qed
    show "\<forall>i. slots s' i \<noteq> 0 \<longrightarrow>
        (\<exists>md. metas s' (slots s' i) = Some md \<and> occurrences (slots s') (slots s' i) \<le> use_count md)"
      using vfs_invD(5) [OF inv1] by (simp add: S(1,2))
  qed
  show ?thesis by (rule that [OF run' inv' filen fileq S(3,5)])
qed

section \<open>The other steps leave the tables alone\<close>

lemma copy_regions_frame:
  assumes "copy_regions pt n ms s = Some s'"
  shows "same_tables s s'" "metas s' = metas s" "q \<noteq> n \<Longrightarrow> processes s' q = processes s q"
    "ParentProcess (processes s' n) = ParentProcess (processes s n)"
    "process_CR3 (processes s' n) = process_CR3 (processes s n)"
proof -
  have "same_tables s s' \<and> metas s' = metas s \<and> (\<forall>q. q \<noteq> n \<longrightarrow> processes s' q = processes s q) \<and>
      ParentProcess (processes s' n) = ParentProcess (processes s n) \<and>
      process_CR3 (processes s' n) = process_CR3 (processes s n)"
    using assms
  proof (induction pt n ms s rule: copy_regions.induct)
    case (1 pt n s)
    then show ?case by simp
  next
    case (2 pt n memory rest s)
    obtain a m where req: "request_pages (region_pages memory) (physical (vm s)) = (a, m)"
      by (metis surj_pair)
    have nz: "a \<noteq> 0" using 2(2) by (auto simp: req Let_def split: if_splits)
    define s1 where "s1 = s\<lparr>vm := (vm s)\<lparr>physical := m\<rparr>\<rparr>"
    define s2 where "s2 = s1\<lparr>ram := memcpy_ram a (region_paddr memory) (region_length memory) (ram s1)\<rparr>"
    define s3 where "s3 = s2\<lparr>vm := map_pages pt (region_vaddr memory) a user_flags (region_pages memory) (vm s2)\<rparr>"
    define s4 where "s4 = upd_process n (add_memory_region (make_region (region_vaddr memory) a
        (region_length memory) (region_flags memory))) s3"
    have run: "copy_regions pt n rest s4 = Some s'"
      using 2(2) nz by (simp add: req s4_def s3_def s2_def s1_def Let_def)
    have "same_tables s s4 \<and> metas s4 = metas s \<and> (\<forall>q. q \<noteq> n \<longrightarrow> processes s4 q = processes s q) \<and>
        ParentProcess (processes s4 n) = ParentProcess (processes s n) \<and>
        process_CR3 (processes s4 n) = process_CR3 (processes s n)"
      by (simp add: s4_def s3_def s2_def s1_def upd_process_def add_memory_region_def same_tables_def)
    moreover have "same_tables s4 s' \<and> metas s' = metas s4 \<and>
        (\<forall>q. q \<noteq> n \<longrightarrow> processes s' q = processes s4 q) \<and>
        ParentProcess (processes s' n) = ParentProcess (processes s4 n) \<and>
        process_CR3 (processes s' n) = process_CR3 (processes s4 n)"
      using 2(1) [OF refl req [symmetric] s1_def nz s2_def s3_def s4_def run] .
    ultimately show ?case using same_tables_trans by metis
  qed
  then show "same_tables s s'" "metas s' = metas s" "q \<noteq> n \<Longrightarrow> processes s' q = processes s q"
    "ParentProcess (processes s' n) = ParentProcess (processes s n)"
    "process_CR3 (processes s' n) = process_CR3 (processes s n)" by blast+
qed

lemma new_child_spec:
  assumes "new_child extra p s = (n, pid, s1)" "p \<noteq> next_obj s"
  shows "n = next_obj s" "pid = the_pid s + 1" "ProcessQueue s1 = ProcessQueue s @ [n]"
    "Files s1 = Files s" "metas s1 = metas s" "q \<noteq> n \<Longrightarrow> processes s1 q = processes s q"
    "processes s1 n = (new_process extra)\<lparr>State := SLEEPING, ProcessID := pid,
       ParentProcess := ProcessID (processes s p)\<rparr>"
  using assms
  by (auto simp: new_child_def new_obj_def add_process_def request_pid_def upd_process_def Let_def)

section \<open>Properties\<close>

text \<open>
  C7: A forked process shares the open files of its parent.  When the page map and the memory
  regions can be copied, the copy gets a new identifier, is appended to the queue and can run;
  it has the registers of the parent except that its system call returns 0; each of its
  descriptors refers to the file that the descriptor with the same number has in the parent, no
  descriptor of another process changes, and the descriptor tables are consistent.
\<close>

theorem fork_shares_descriptors:
  assumes inv: "vfs_inv s" and p: "p \<in> set (ProcessQueue s)"
    and fresh: "next_obj s \<noteq> 0" "next_obj s \<notin> set (ProcessQueue s)"
    and room: "length (sv_els (Files s)) + length (sv_els (FileDescriptors (processes s p)))
                 < 18446744073709551615"
    and child: "new_child extra p s = (n, pid, s1)"
    and clone: "clone_page_map (process_CR3 (processes s1 p)) (vm s1) = (pt, v)" "pt \<noteq> 0"
    and memory: "copy_memory pt n p (s1\<lparr>vm := v\<rparr>) = Some s3"
  shows "\<exists>s'. CopyUserspaceProcess extra p s = Some (pid, s') \<and> vfs_inv s' \<and>
           pid = the_pid s + 1 \<and> ProcessQueue s' = ProcessQueue s @ [n] \<and>
           (\<forall>k. vfs_file s' n k = vfs_file s p k) \<and>
           (\<forall>q k. q \<in> set (ProcessQueue s) \<longrightarrow> vfs_file s' q k = vfs_file s q k) \<and>
           State (processes s' n) = RUNNING \<and> CPU (processes s' n) = (CPU (processes s p))\<lparr>RAX := 0\<rparr>"
proof -
  have pn: "p \<noteq> next_obj s" using p fresh(2) by metis
  note N = new_child_spec [OF child pn]
  have nq: "n \<noteq> 0" "n \<notin> set (ProcessQueue s)" using fresh N(1) by simp_all
  have pn': "p \<noteq> n" using pn N(1) by simp
  define s2 where "s2 = upd_process n (\<lambda>x. x\<lparr>process_CR3 := pt\<rparr>) (s1\<lparr>vm := v\<rparr>)"
  define s2' where "s2' = s2\<lparr>vm := map_vm pt pt pt (flag_bit Present OR flag_bit ReadWrite) (vm s2)\<rparr>"
  have "copy_regions pt n (Memories (processes s2' p)) s2' = Some s3"
    using memory by (simp only: copy_memory_def Let_def s2'_def s2_def)
  note R = copy_regions_frame [OF this]
  have P3: "processes s3 q = processes s q" if "q \<noteq> n" for q
    using that R(3) [OF that] N(6) [OF that] by (simp add: s2'_def s2_def upd_process_def)
  have T3: "Files s3 = Files s" "metas s3 = metas s" "ProcessQueue s3 = ProcessQueue s @ [n]"
    "FileDescriptors (processes s3 n) = sv_empty"
    using R(1,2) N(3-5,7) by (simp_all add: same_tables_def s2'_def s2_def upd_process_def new_process_def)
  have inv3: "vfs_inv (s3\<lparr>ProcessQueue := ProcessQueue s\<rparr>)"
  proof (rule vfs_inv_cong [OF inv])
    show "FileDescriptors (processes (s3\<lparr>ProcessQueue := ProcessQueue s\<rparr>) q) = FileDescriptors (processes s q)"
      if "q \<in> set (ProcessQueue s)" for q
    proof -
      have "q \<noteq> n" using that nq(2) by blast
      then show ?thesis using P3 by simp
    qed
  qed (simp_all add: T3)
  have vf: "vfs_file s3 q k = vfs_file s q k" if "q \<in> set (ProcessQueue s)" for q k
  proof -
    have "q \<noteq> n" using that nq(2) by blast
    then show ?thesis by (simp add: vfs_file_def P3 T3(1))
  qed
  have q3: "set (ProcessQueue s3) = insert n (set (ProcessQueue s))" by (simp add: T3(3))
  have room3: "length (sv_els (Files s3)) + length (sv_els (FileDescriptors (processes s3 p)))
      < 18446744073709551615" using room by (simp add: T3(1) P3 [OF pn'])
  obtain s4 where s4: "copy_files n p s3 = Some s4" "vfs_inv s4"
    "\<And>k. vfs_file s4 n k = vfs_file s3 p k"
    "\<And>q k. q \<in> set (ProcessQueue s) \<Longrightarrow> vfs_file s4 q k = vfs_file s3 q k"
    "ProcessQueue s4 = ProcessQueue s3" "\<And>q. q \<noteq> n \<Longrightarrow> processes s4 q = processes s3 q"
    by (rule copy_files_spec [OF inv3 nq q3 p T3(4) room3]) (rule that, assumption+)
  define s' where "s' = upd_process n (copy_context (processes s4 p)) s4"
  have run: "CopyUserspaceProcess extra p s = Some (pid, s')"
    using child clone memory s4(1) by (simp add: CopyUserspaceProcess_def s'_def)
  have fd: "FileDescriptors (processes s' q) = FileDescriptors (processes s4 q)" for q
    by (simp add: s'_def upd_process_def copy_context_def set_return_value_def)
  have S: "Files s' = Files s4" "metas s' = metas s4" "ProcessQueue s' = ProcessQueue s4"
    by (simp_all add: s'_def upd_process_def)
  have "vfs_inv s'" by (rule vfs_inv_cong [OF s4(2)]) (simp_all add: S fd)
  moreover have "vfs_file s' q k = vfs_file s4 q k" for q k by (simp add: vfs_file_def fd S(1))
  moreover have "State (processes s' n) = RUNNING" "CPU (processes s' n) = (CPU (processes s p))\<lparr>RAX := 0\<rparr>"
    using s4(6) [OF pn'] P3 [OF pn']
    by (simp_all add: s'_def upd_process_def copy_context_def set_return_value_def)
  ultimately show ?thesis using run s4(3-5) vf p N(2) T3(3) S(3) by simp
qed

text \<open>Cloning a page map without present entries takes one page.\<close>

lemma clone_loop_empty:
  "(\<And>i. \<not> pde_flag (tables s old i) Present) \<Longrightarrow> clone_loop sub tr old new is s = (new, s)"
  by (induction "is") simp_all

lemma clone_page_map_empty:
  assumes "\<And>a i. tables s a i = 0" "vm_request_page s = (new, s1)" "tables s1 = tables s" "new \<noteq> 0"
  shows "clone_page_map old s = (new, memset_page new s1)"
proof -
  have "\<not> pde_flag (tables (memset_page new s1) old i) Present" for i
    using assms(1,3) by (simp add: memset_page_def pde_flag_def)
  then show ?thesis
    unfolding clone_page_map_def
    by (subst clone_table.simps) (simp add: assms(2,4) clone_loop_empty numeral_3_eq_3)
qed

lemma request_page_example: "fst (request_page example_pmm) \<noteq> 0"
  by code_simp

theorem fork_shares_descriptors_witness:
  "\<exists>s'. CopyUserspaceProcess 0 1 example_files = Some (3, s') \<and> ProcessQueue s' = [1, 2, 8] \<and>
     vfs_file s' 8 0 = 6 \<and> vfs_file s' 8 1 = 7"
proof -
  obtain n pid s1 where child: "new_child 0 1 example_files = (n, pid, s1)" by (metis prod_cases3)
  have nx: "next_obj example_files = 8" "the_pid example_files = 2"
    by (simp_all add: example_files_def example_pipe_def example_two_def lay_pipe_def new_obj_def
        blank_system_def Let_def)
  note N = new_child_spec [OF child, unfolded nx, simplified]
  have vm1: "vm s1 = \<lparr>physical = example_pmm, tables = \<lambda>_ _. 0, ActivePageMap = 0, CR3 = 0\<rparr>"
    using child
    by (auto simp: new_child_def new_obj_def add_process_def request_pid_def upd_process_def Let_def
        example_files_def example_pipe_def example_two_def lay_pipe_def blank_system_def)
  obtain pt m where req: "request_page example_pmm = (pt, m)" by (metis surj_pair)
  have pt: "pt \<noteq> 0" using request_page_example req by simp
  define v where "v = memset_page pt (vm s1\<lparr>physical := m\<rparr>)"
  have clone: "clone_page_map (process_CR3 (processes s1 1)) (vm s1) = (pt, v)"
    unfolding v_def by (rule clone_page_map_empty) (simp_all add: vm1 vm_request_page_def req pt)
  have "Memories (processes s1 1) = []"
    using N(6) [of 1] N(1) by (simp add: example_files_def new_process_def)
  then obtain s3 where memory: "copy_memory pt n 1 (s1\<lparr>vm := v\<rparr>) = Some s3"
    using N(1) by (simp add: copy_memory_def upd_process_def Let_def)
  have f: "vfs_file example_files 1 1 = 7" "vfs_file example_files 1 0 = 6"
    by (simp_all add: vfs_file_def sv_get_two InvalidFD_def)
  have "\<exists>s'. CopyUserspaceProcess 0 1 example_files = Some (pid, s') \<and> vfs_inv s' \<and>
      pid = the_pid example_files + 1 \<and> ProcessQueue s' = ProcessQueue example_files @ [n] \<and>
      (\<forall>k. vfs_file s' n k = vfs_file example_files 1 k) \<and>
      (\<forall>q k. q \<in> set (ProcessQueue example_files) \<longrightarrow> vfs_file s' q k = vfs_file example_files q k) \<and>
      State (processes s' n) = RUNNING \<and> CPU (processes s' n) = (CPU (processes example_files 1))\<lparr>RAX := 0\<rparr>"
    by (rule fork_shares_descriptors [OF example_files_inv _ _ _ _ child clone pt memory])
       (simp_all add: nx)
  then show ?thesis using f N(1,2) by (auto simp: nx)
qed

end
