(* ===== verification/Elf.thy ===== *)
theory Elf
  imports Scheduler
begin

unbundle bit_operations_syntax

text \<open>
  The loader of ELF executables (\<open>kernel/src/elf_loader.h\<close>, with the structures of \<open>elf.h\<close>):
  verification of the file header, loading of the program headers into fresh pages that are
  mapped into the page map of the process, and the initial stack with the arguments and the
  environment.

  The kernel writes program and stack through the identity mapping, so memory is the byte store
  \<open>ram\<close> at physical addresses.  The bytes that a short read leaves in an uninitialised header
  are the argument \<open>garbage\<close>.  Writing to the null pointer that a failed allocation returns, and
  a program header table larger than the vector that receives it, have no result.
\<close>

section \<open>Bytes and words\<close>

fun le_word :: "u8 list \<Rightarrow> 'a::len word" where
  "le_word [] = 0"
| "le_word (b # bs) = ucast b + 256 * le_word bs"

definition le_field :: "nat \<Rightarrow> nat \<Rightarrow> u8 list \<Rightarrow> 'a::len word" where
  "le_field start n bs = le_word (take n (drop start bs))"

definition le_bytes :: "u64 \<Rightarrow> u8 list" where
  "le_bytes w = map (\<lambda>i. ucast (drop_bit (8 * i) w)) [0..<8]"

definition write_ram :: "u64 \<Rightarrow> u8 list \<Rightarrow> (u64 \<Rightarrow> u8) \<Rightarrow> (u64 \<Rightarrow> u8)" where
  "write_ram a bs m = (\<lambda>x. if unat (x - a) < length bs then bs ! unat (x - a) else m x)"

definition read_ram :: "u64 \<Rightarrow> nat \<Rightarrow> (u64 \<Rightarrow> u8) \<Rightarrow> u8 list" where
  "read_ram a n m = map (\<lambda>i. m (a + of_nat i)) [0..<n]"

definition memset_ram :: "u64 \<Rightarrow> u64 \<Rightarrow> (u64 \<Rightarrow> u8) \<Rightarrow> (u64 \<Rightarrow> u8)" where
  "memset_ram a n m = (\<lambda>x. if x - a < n then 0 else m x)"

section \<open>Headers\<close>

record Elf64_Ehdr =
  e_ident :: "u8 list"
  e_type :: u16
  e_machine :: u16
  e_version :: u32
  e_entry :: u64
  e_phoff :: u64
  e_shoff :: u64
  e_flags :: u32
  e_ehsize :: u16
  e_phentsize :: u16
  e_phnum :: u16
  e_shentsize :: u16
  e_shnum :: u16
  e_shstrndx :: u16

definition parse_ehdr :: "u8 list \<Rightarrow> Elf64_Ehdr" where
  "parse_ehdr bs =
     \<lparr>e_ident = take 16 bs, e_type = le_field 16 2 bs, e_machine = le_field 18 2 bs,
      e_version = le_field 20 4 bs, e_entry = le_field 24 8 bs, e_phoff = le_field 32 8 bs,
      e_shoff = le_field 40 8 bs, e_flags = le_field 48 4 bs, e_ehsize = le_field 52 2 bs,
      e_phentsize = le_field 54 2 bs, e_phnum = le_field 56 2 bs, e_shentsize = le_field 58 2 bs,
      e_shnum = le_field 60 2 bs, e_shstrndx = le_field 62 2 bs\<rparr>"

record Elf64_Phdr =
  p_type :: u32
  p_flags :: u32
  p_offset :: u64
  p_vaddr :: u64
  p_paddr :: u64
  p_filesz :: u64
  p_memsz :: u64
  p_align :: u64

definition parse_phdr :: "u8 list \<Rightarrow> Elf64_Phdr" where
  "parse_phdr bs =
     \<lparr>p_type = le_field 0 4 bs, p_flags = le_field 4 4 bs, p_offset = le_field 8 8 bs,
      p_vaddr = le_field 16 8 bs, p_paddr = le_field 24 8 bs, p_filesz = le_field 32 8 bs,
      p_memsz = le_field 40 8 bs, p_align = le_field 48 8 bs\<rparr>"

definition PT_LOAD :: u32 where "PT_LOAD = 1"
definition PT_GNU_STACK :: u32 where "PT_GNU_STACK = 0x6474e551"
definition PF_X :: u32 where "PF_X = 1"
definition PF_W :: u32 where "PF_W = 2"

definition VerifyElf64Header :: "Elf64_Ehdr \<Rightarrow> bool" where
  "VerifyElf64Header h \<longleftrightarrow>
     \<not> (e_ident h ! 0 \<noteq> 0x7f \<or> e_ident h ! 1 \<noteq> 0x45 \<or> e_ident h ! 2 \<noteq> 0x4c \<or> e_ident h ! 3 \<noteq> 0x46 \<or>
        e_ident h ! 4 \<noteq> 2 \<or> e_ident h ! 5 \<noteq> 1 \<or>
        e_type h \<noteq> 2 \<or> e_machine h \<noteq> 62 \<or> e_version h \<noteq> 1)"

section \<open>Program headers\<close>

definition segment_flags :: "u32 \<Rightarrow> u64" where
  "segment_flags f =
     (flag_bit Present OR flag_bit UserSuper)
       OR (if f AND PF_W \<noteq> 0 then flag_bit ReadWrite else 0)
       OR (if f AND PF_X = 0 then flag_bit NX else 0)"

definition load_segment ::
    "'d fs_ops \<Rightarrow> obj \<Rightarrow> u64 \<Rightarrow> FileDescriptor \<Rightarrow> Elf64_Phdr \<Rightarrow> 'd system \<Rightarrow> (bool \<times> 'd system) option" where
  "load_segment ops proc pageTable fd phdr s =
     (let size_to_load = p_memsz phdr + p_vaddr phdr mod PAGE_SIZE;
          pages = (size_to_load + PAGE_SIZE - 1) div PAGE_SIZE;
          (loadedProgram, m) = request_pages pages (physical (vm s));
          s1 = s\<lparr>vm := (vm s)\<lparr>physical := m\<rparr>\<rparr>
      in if loadedProgram = 0 then None
         else do {
           let s2 = s1\<lparr>ram := memset_ram loadedProgram size_to_load (ram s1)\<rparr>;
           let off = p_vaddr phdr mod PAGE_SIZE;
           (n_read, bytes, s3) \<leftarrow> vfs_read ops fd (p_filesz phdr) (p_offset phdr) s2;
           let s4 = s3\<lparr>ram := write_ram (loadedProgram + off) bytes (ram s3)\<rparr>;
           if n_read < 0 \<or> n_read \<noteq> int (unat (p_filesz phdr)) then Some (False, s4)
           else do {
             let flags = segment_flags (p_flags phdr);
             let s5 = s4\<lparr>vm := page_loop (\<lambda>t. map_vm pageTable (p_vaddr phdr + t) (loadedProgram + t) flags)
                                0 (pages * PAGE_SIZE) (vm s4)\<rparr>;
             Some (True, upd_process proc
               (add_memory_region (make_region (p_vaddr phdr) loadedProgram (pages * PAGE_SIZE) flags)) s5)
           } })"

fun load_headers ::
    "'d fs_ops \<Rightarrow> obj \<Rightarrow> u64 \<Rightarrow> FileDescriptor \<Rightarrow> Elf64_Phdr list \<Rightarrow> u64 \<Rightarrow> 'd system \<Rightarrow>
      (bool \<times> u64 \<times> 'd system) option" where
  "load_headers ops proc pageTable fd [] stack_flags s = Some (True, stack_flags, s)"
| "load_headers ops proc pageTable fd (phdr # rest) stack_flags s =
     (if p_type phdr = PT_LOAD
      then do {
        (ok, s1) \<leftarrow> load_segment ops proc pageTable fd phdr s;
        if \<not> ok then Some (False, stack_flags, s1)
        else load_headers ops proc pageTable fd rest stack_flags s1 }
      else if p_type phdr = PT_GNU_STACK
      then load_headers ops proc pageTable fd rest
             (if p_flags phdr AND PF_X = 0 then stack_flags OR flag_bit NX else stack_flags) s
      else load_headers ops proc pageTable fd rest stack_flags s)"

section \<open>The initial stack\<close>

text \<open>A string takes its bytes and the terminator, rounded up to a larger multiple of 16.\<close>

definition string_room :: "string \<Rightarrow> u64" where
  "string_room str = (let n = of_nat (length str) + 1 in n + (16 - (n AND 15)))"

fun push_strings :: "string list \<Rightarrow> u64 \<Rightarrow> (u64 \<Rightarrow> u8) \<Rightarrow> u64 list \<times> u64 \<times> (u64 \<Rightarrow> u8)" where
  "push_strings [] stack_top m = ([], stack_top, m)"
| "push_strings (str # rest) stack_top m =
     (let top1 = stack_top - string_room str;
          m1 = write_ram top1 (map of_char str) m;
          m2 = write_ram (top1 + of_nat (length str)) [0] m1;
          (addresses, top2, m3) = push_strings rest top1 m2
      in (top1 # addresses, top2, m3))"

definition push_word :: "u64 \<Rightarrow> u64 \<times> (u64 \<Rightarrow> u8) \<Rightarrow> u64 \<times> (u64 \<Rightarrow> u8)" where
  "push_word w tm = (case tm of (stack_top, m) \<Rightarrow>
     (stack_top - 8, write_ram (stack_top - 8) (le_bytes w) m))"

definition setup_stack :: "string list \<Rightarrow> string list \<Rightarrow> u64 \<Rightarrow> (u64 \<Rightarrow> u8) \<Rightarrow> u64 \<times> (u64 \<Rightarrow> u8)" where
  "setup_stack args env stack_top m =
     (let (envp_addresses, top1, m1) = push_strings env stack_top m;
          (argv_addresses, top2, m2) = push_strings args top1 m1;
          tm3 = (if (length envp_addresses + 1 + length argv_addresses + 1 + 1) mod 2 \<noteq> 0
                 then push_word 0 (top2, m2) else (top2, m2));
          tm4 = push_word 0 tm3;
          tm5 = fold push_word (rev envp_addresses) tm4;
          tm6 = push_word 0 tm5;
          tm7 = fold push_word (rev argv_addresses) tm6
      in push_word (of_nat (length args)) tm7)"

definition UserProcessStackSizePages :: u64 where "UserProcessStackSizePages = 4"

definition initial_cpu :: "u64 \<Rightarrow> u64 \<Rightarrow> CPUState \<Rightarrow> CPUState" where
  "initial_cpu stack_top entry cpu =
     cpu\<lparr>RBP := stack_top, RSP := stack_top,
         Frame := (Frame cpu)\<lparr>frame_sp := stack_top, frame_ip := entry, frame_cs := 0x18 OR 3,
                              frame_ss := 0x20 OR 3, frame_flags := 0b1010000010\<rparr>\<rparr>"

section \<open>Loading a process\<close>

text \<open>The program header table, read into a vector of \<open>e_phnum\<close> zeroed entries of 56 bytes.\<close>

definition read_headers ::
    "'d fs_ops \<Rightarrow> FileDescriptor \<Rightarrow> Elf64_Ehdr \<Rightarrow> 'd system \<Rightarrow> (Elf64_Phdr list \<times> 'd system) option" where
  "read_headers ops fd h s =
     (let programHeadersTableSize = unat (e_phnum h) * unat (e_phentsize h);
          vector_size = unat (e_phnum h) * 56
      in do {
        (_, bytes, s1) \<leftarrow> vfs_read ops fd (of_nat programHeadersTableSize) (e_phoff h) s;
        if vector_size < programHeadersTableSize then None
        else let table = bytes @ replicate (vector_size - length bytes) 0
             in Some (map (\<lambda>i. parse_phdr (take 56 (drop (56 * i) table)))
                        [0..<(programHeadersTableSize + 55) div 56], s1) })"

definition LoadUserspaceElf64Process ::
    "'d fs_ops \<Rightarrow> obj \<Rightarrow> u64 \<Rightarrow> FileDescriptor \<Rightarrow> Elf64_Ehdr \<Rightarrow> string list \<Rightarrow> string list \<Rightarrow> 'd system \<Rightarrow>
      (bool \<times> 'd system) option" where
  "LoadUserspaceElf64Process ops proc pageTable fd elfHeader args env s =
     do {
       (phdrs, s1) \<leftarrow> read_headers ops fd elfHeader s;
       (ok, stack_flags, s2) \<leftarrow> load_headers ops proc pageTable fd phdrs user_flags s1;
       if \<not> ok then Some (False, s2)
       else if proc = 0 then Some (False, s2)
       else do {
         let (newStackBottom, m) = request_pages UserProcessStackSizePages (physical (vm s2));
         let s3 = s2\<lparr>vm := (vm s2)\<lparr>physical := m\<rparr>\<rparr>;
         if newStackBottom = 0 then Some (False, s3)
         else do {
           let stack_size = UserProcessStackSizePages * PAGE_SIZE;
           let s4 = s3\<lparr>vm := map_pages pageTable newStackBottom newStackBottom stack_flags
                               UserProcessStackSizePages (vm s3)\<rparr>;
           let s5 = upd_process proc
                      (add_memory_region (make_region newStackBottom newStackBottom stack_size stack_flags)) s4;
           let (stack_top, m') = setup_stack args env (newStackBottom + stack_size) (ram s5);
           let s6 = s5\<lparr>ram := m'\<rparr>;
           Some (True, upd_process proc
             (\<lambda>x. x\<lparr>CPU := initial_cpu stack_top (e_entry elfHeader) (CPU x)\<rparr>) s6) } } }"

text \<open>
  The result of \<open>read\<close> is converted to \<open>bool\<close>, so that only a read of no bytes is seen as a
  failure, not the value -1.
\<close>

definition read_header ::
    "'d fs_ops \<Rightarrow> FileDescriptor \<Rightarrow> u8 list \<Rightarrow> 'd system \<Rightarrow> (Elf64_Ehdr option \<times> 'd system) option" where
  "read_header ops fd garbage s =
     do {
       (rc, bytes, s1) \<leftarrow> vfs_read ops fd 64 0 s;
       let elfHeader = parse_ehdr (bytes @ drop (length bytes) garbage);
       Some (if rc = 0 \<or> \<not> VerifyElf64Header elfHeader then None else Some elfHeader, s1) }"

definition release_old_region :: "u64 \<Rightarrow> Region \<Rightarrow> 'd system \<Rightarrow> 'd system" where
  "release_old_region cr3 r s =
     release_region r (s\<lparr>vm := unmap_pages cr3 (region_vaddr r) (region_pages r) (vm s)\<rparr>)"

definition ReplaceUserspaceElf64Process ::
    "'d fs_ops \<Rightarrow> u8 list \<Rightarrow> obj \<Rightarrow> FileDescriptor \<Rightarrow> string list \<Rightarrow> 'd system \<Rightarrow> (bool \<times> 'd system) option" where
  "ReplaceUserspaceElf64Process ops garbage proc fd args s =
     do {
       (hdr, s1) \<leftarrow> read_header ops fd garbage s;
       case hdr of
         None \<Rightarrow> Some (False, s1)
       | Some elfHeader \<Rightarrow>
           let cr3 = process_CR3 (processes s1 proc);
               s2 = fold (release_old_region cr3) (Memories (processes s1 proc)) s1;
               s3 = upd_process proc (\<lambda>x. x\<lparr>Memories := []\<rparr>) s2
           in LoadUserspaceElf64Process ops proc cr3 fd elfHeader args [] s3 }"

definition directory_of :: "string \<Rightarrow> string" where
  "directory_of path =
     (if CHR ''/'' \<in> set path then rev (tl (dropWhile (\<lambda>c. c \<noteq> CHR ''/'') (rev path))) else path)"

definition CreateUserspaceElf64Process ::
    "'d fs_ops \<Rightarrow> u8 list \<Rightarrow> u64 \<Rightarrow> FileDescriptor \<Rightarrow> string list \<Rightarrow> 'd system \<Rightarrow> (bool \<times> 'd system) option" where
  "CreateUserspaceElf64Process ops garbage extra fd args s =
     (if args = [] then Some (False, s)
      else do {
        (hdr, s1) \<leftarrow> read_header ops fd garbage s;
        case hdr of
          None \<Rightarrow> Some (False, s1)
        | Some elfHeader \<Rightarrow> do {
            let (proc, s2) = new_obj s1;
            let s3 = s2\<lparr>processes := (processes s2)(proc := (new_process extra)\<lparr>State := SLEEPING\<rparr>)\<rparr>;
            let (pid, s4) = add_process proc s3;
            let (newPageTable, v) = clone_active_page_map (vm s4);
            let s5 = s4\<lparr>vm := v\<rparr>;
            if newPageTable = 0
            then do { (_, s6) \<leftarrow> remove_process pid (- 1) s5; Some (False, s6) }
            else do {
              let s6 = upd_process proc (\<lambda>x. x\<lparr>process_CR3 := newPageTable\<rparr>) s5;
              let s7 = s6\<lparr>vm := map_vm newPageTable newPageTable newPageTable
                                  (flag_bit Present OR flag_bit ReadWrite) (vm s6)\<rparr>;
              (ok, s8) \<leftarrow> LoadUserspaceElf64Process ops proc newPageTable fd elfHeader args [] s7;
              if \<not> ok
              then do { (_, s9) \<leftarrow> remove_process pid (- 1) s8; Some (False, s9) }
              else do {
                let (stdin_meta, s9) = input_open ''stdin'' s8;
                let s10 = snd (add_file stdin_meta proc s9);
                let (outmeta, s11) = new_obj s10;
                let s12 = s11\<lparr>metas := (metas s11)
                  (outmeta \<mapsto> (make_metadata Regular ''stdout'' StdoutDriver 0 0)\<lparr>use_count := 2\<rparr>)\<rparr>;
                let s13 = snd (add_file outmeta proc s12);
                let s14 = snd (add_file outmeta proc s13);
                Some (True, upd_process proc
                  (\<lambda>x. x\<lparr>process_CR3 := newPageTable, ExecutablePath := hd args,
                         WorkingDirectory := directory_of (hd args), State := RUNNING\<rparr>) s14) } } } })"

end
