(* ===== verification/ElfStack.thy ===== *)
theory ElfStack
  imports Elf
begin

unbundle bit_operations_syntax

text \<open>
  The initial stack of a program: what \<open>setup_stack\<close> leaves in memory is what the start-up code
  of a program expects at its stack pointer.
\<close>

section \<open>Memory\<close>

lemma ucast_byte: "ucast (ucast w :: u8) = take_bit 8 (w :: u64)"
  by (rule bit_word_eqI) (auto simp: bit_take_bit_iff bit_unsigned_iff)

lemma le_word_bytes: "le_word (map (\<lambda>i. ucast (drop_bit (8 * i) w)) [0..<n]) = take_bit (8 * n) (w :: u64)"
proof (induction n arbitrary: w)
  case (Suc n)
  have "le_word (map (\<lambda>i. ucast (drop_bit (8 * i) w)) [0..<Suc n]) =
      ucast (ucast w :: u8) + 256 * le_word (map (\<lambda>i. ucast (drop_bit (8 * i) (drop_bit 8 w))) [0..<n])"
    by (simp add: upt_conv_Cons map_Suc_upt [symmetric] comp_def drop_bit_drop_bit ac_simps del: upt_Suc map_Suc_upt)
  also have "\<dots> = take_bit 8 w + push_bit 8 (take_bit (8 * n) (drop_bit 8 w))"
    by (simp only: Suc.IH) (simp add: push_bit_eq_mult ac_simps ucast_byte)
  also have "\<dots> = take_bit (8 * Suc n) w"
    using bits_ident [of 8 "take_bit (8 * Suc n) w"]
    by (simp add: drop_bit_take_bit ac_simps)
  finally show ?case .
qed simp

lemma le_word_le_bytes [simp]: "le_word (le_bytes w) = w"
  using le_word_bytes [of w 8] by (simp add: le_bytes_def take_bit_word_eq_self)

lemma length_le_bytes [simp]: "length (le_bytes w) = 8"
  by (simp add: le_bytes_def)

definition word_at :: "(u64 \<Rightarrow> u8) \<Rightarrow> u64 \<Rightarrow> u64" where
  "word_at m a = le_word (read_ram a 8 m)"

definition cstring_at :: "(u64 \<Rightarrow> u8) \<Rightarrow> u64 \<Rightarrow> string \<Rightarrow> bool" where
  "cstring_at m a str \<longleftrightarrow> read_ram a (Suc (length str)) m = map of_char str @ [0]"

text \<open>Memory that differs only at addresses from \<open>lo\<close> up to, but not including, \<open>hi\<close>.\<close>

definition differs_within :: "nat \<Rightarrow> nat \<Rightarrow> (u64 \<Rightarrow> u8) \<Rightarrow> (u64 \<Rightarrow> u8) \<Rightarrow> bool" where
  "differs_within lo hi m m' \<longleftrightarrow> (\<forall>x. unat x < lo \<or> hi \<le> unat x \<longrightarrow> m' x = m x)"

lemma differs_within_refl [simp]: "differs_within lo hi m m"
  by (simp add: differs_within_def)

lemma differs_within_trans:
  assumes "differs_within a b m1 m2" "differs_within c d m2 m3" "lo \<le> a" "lo \<le> c" "b \<le> hi" "d \<le> hi"
  shows "differs_within lo hi m1 m3"
  using assms unfolding differs_within_def by (metis order.strict_trans2 order.trans)

lemma offset_in_block:
  fixes x a :: u64
  assumes "unat a + n \<le> 18446744073709551616"
  shows "unat (x - a) < n \<longleftrightarrow> unat a \<le> unat x \<and> unat x < unat a + n"
    and "unat a \<le> unat x \<Longrightarrow> unat (x - a) = unat x - unat a"
proof -
  show *: "unat (x - a) = unat x - unat a" if "unat a \<le> unat x"
    using that by (simp add: unat_u64_minus word_le_nat_alt)
  have wrap: "unat (x - a) = 18446744073709551616 + unat x - unat a" if "\<not> unat a \<le> unat x"
    using that by (simp add: unat_sub_if')
  show "unat (x - a) < n \<longleftrightarrow> unat a \<le> unat x \<and> unat x < unat a + n"
  proof (cases "unat a \<le> unat x")
    case True
    then show ?thesis using * by (simp add: less_diff_conv2 add.commute)
  next
    case False
    then show ?thesis using wrap assms by simp
  qed
qed

lemma write_ram_differs:
  "unat a + length bs \<le> 18446744073709551616 \<Longrightarrow> differs_within (unat a) (unat a + length bs) m (write_ram a bs m)"
  using offset_in_block(1) [of a "length bs"] by (auto simp: differs_within_def write_ram_def)

lemma unat_plus_of_nat:
  "unat (a :: u64) + i < 18446744073709551616 \<Longrightarrow> unat (a + of_nat i) = unat a + i"
  by (simp add: unat_u64_plus_small unat_of_nat_u64)

lemma read_written:
  assumes "unat a + length bs \<le> 18446744073709551616"
  shows "read_ram a (length bs) (write_ram a bs m) = bs"
proof (rule nth_equalityI)
  fix i assume "i < length (read_ram a (length bs) (write_ram a bs m))"
  then have i: "i < length bs" by (simp add: read_ram_def)
  then have "unat (of_nat i :: u64) = i" using assms by (simp add: unat_of_nat_u64)
  then show "read_ram a (length bs) (write_ram a bs m) ! i = bs ! i"
    using i by (simp add: read_ram_def write_ram_def)
qed (simp add: read_ram_def)

lemma read_ram_same:
  assumes "differs_within lo hi m m'" "hi \<le> unat a \<or> unat a + n \<le> lo" "unat a + n \<le> 18446744073709551616"
  shows "read_ram a n m' = read_ram a n m"
proof -
  have "m' (a + of_nat i) = m (a + of_nat i)" if "i < n" for i
    using assms that unat_plus_of_nat [of a i] by (auto simp: differs_within_def)
  then show ?thesis by (simp add: read_ram_def)
qed

section \<open>Pushing words\<close>

lemma push_word_spec:
  assumes "push_word w (t, m) = (t', m')" "8 \<le> unat t"
  shows "unat t' = unat t - 8" "word_at m' t' = w" "differs_within (unat t') (unat t) m m'"
proof -
  have t': "t' = t - 8" "m' = write_ram t' (le_bytes w) m" using assms(1) by (auto simp: push_word_def)
  show u: "unat t' = unat t - 8" using assms(2) by (simp add: t' unat_u64_minus word_le_nat_alt)
  have "unat t' + 8 \<le> 18446744073709551616" using u assms(2) unat_less_2_64 [of t] by linarith
  then show "word_at m' t' = w" "differs_within (unat t') (unat t) m m'"
    using read_written [of t' "le_bytes w" m] write_ram_differs [of t' "le_bytes w" m] u assms(2)
    by (simp_all add: word_at_def t'(2))
qed

lemma push_words_spec:
  assumes "fold push_word (rev ws) (t, m) = (t', m')" "8 * length ws \<le> unat t"
  shows "unat t' = unat t - 8 * length ws" "differs_within (unat t') (unat t) m m'"
    "\<And>i. i < length ws \<Longrightarrow> word_at m' (t' + of_nat (8 * i)) = ws ! i"
proof -
  have "unat t' = unat t - 8 * length ws \<and> differs_within (unat t') (unat t) m m' \<and>
      (\<forall>i<length ws. word_at m' (t' + of_nat (8 * i)) = ws ! i)"
    using assms
  proof (induction ws arbitrary: t' m')
    case (Cons w ws)
    obtain t1 m1 where f: "fold push_word (rev ws) (t, m) = (t1, m1)" by fastforce
    have p: "push_word w (t1, m1) = (t', m')" using Cons.prems(1) f by simp
    have IH: "unat t1 = unat t - 8 * length ws" "differs_within (unat t1) (unat t) m m1"
      "\<forall>i<length ws. word_at m1 (t1 + of_nat (8 * i)) = ws ! i"
      using Cons.IH [OF f] Cons.prems(2) by auto
    have room: "8 \<le> unat t1" using IH(1) Cons.prems(2) by simp
    note P = push_word_spec [OF p room]
    have d: "differs_within (unat t') (unat t) m m'"
      by (rule differs_within_trans [OF IH(2) P(3)]) (use P(1) IH(1) in simp_all)
    have t1: "t1 = t' + 8" using p by (auto simp: push_word_def)
    have "word_at m' (t' + of_nat (8 * i)) = (w # ws) ! i" if i: "i < length (w # ws)" for i
    proof (cases i)
      case 0
      then show ?thesis using P(2) by simp
    next
      case (Suc j)
      then have j: "j < length ws" using i by simp
      have "unat t1 + 8 * j + 8 \<le> unat t" using j IH(1) Cons.prems(2) by simp
      moreover from this have u: "unat (t1 + of_nat (8 * j)) = unat t1 + 8 * j"
        using unat_less_2_64 [of t] by (intro unat_plus_of_nat) linarith
      moreover have "unat t < 18446744073709551616" by (rule unat_less_2_64)
      ultimately have "unat t1 \<le> unat (t1 + of_nat (8 * j))"
        "unat (t1 + of_nat (8 * j)) + 8 \<le> 18446744073709551616" by linarith+
      then have "word_at m' (t1 + of_nat (8 * j)) = word_at m1 (t1 + of_nat (8 * j))"
        unfolding word_at_def by (intro arg_cong [where f = le_word] read_ram_same [OF P(3)] disjI1)
      then have "word_at m' (t1 + of_nat (8 * j)) = ws ! j" using IH(3) j by simp
      moreover have "t' + of_nat (8 * i) = t1 + of_nat (8 * j)" by (simp add: Suc t1)
      ultimately show ?thesis by (simp only: Suc nth_Cons_Suc)
    qed
    then show ?case using d P(1) IH(1) by simp
  qed simp
  then show "unat t' = unat t - 8 * length ws" "differs_within (unat t') (unat t) m m'"
    "\<And>i. i < length ws \<Longrightarrow> word_at m' (t' + of_nat (8 * i)) = ws ! i"
    by blast+
qed

section \<open>Pushing strings\<close>

definition room :: "string \<Rightarrow> nat" where
  "room str = Suc (length str) + (16 - Suc (length str) mod 16)"

lemma room_bounds: "length str < room str" "room str \<le> length str + 17" "room str mod 16 = 0"
proof -
  show "length str < room str" "room str \<le> length str + 17" by (simp_all add: room_def)
  have "Suc n + (16 - Suc n mod 16) = (Suc n div 16 + 1) * 16" for n
    by presburger
  then show "room str mod 16 = 0" by (simp only: room_def mod_mult_self2_is_0)
qed

lemma unat_string_room:
  assumes "room str < 18446744073709551616"
  shows "unat (string_room str) = room str"
proof -
  define n :: u64 where "n = of_nat (length str) + 1"
  have un: "unat n = Suc (length str)"
    using assms room_bounds(1) [of str] unat_of_nat_u64 [of "Suc (length str)"] by (simp add: n_def add.commute)
  have "n AND 15 = take_bit 4 n" by (simp add: take_bit_eq_mask mask_eq_exp_minus_1)
  also have "\<dots> = n mod 16" by (simp add: take_bit_eq_mod)
  finally have m: "unat (n AND 15) = Suc (length str) mod 16" by (simp add: unat_mod un)
  have "unat (16 - (n AND 15)) = 16 - Suc (length str) mod 16"
    using m by (subst unat_u64_minus) (simp_all add: word_le_nat_alt)
  then have "unat n + unat (16 - (n AND 15)) = room str" using un by (simp add: room_def)
  then have "unat (n + (16 - (n AND 15))) = room str" using assms by (simp add: unat_u64_plus_small)
  then show ?thesis by (simp add: string_room_def n_def Let_def)
qed

lemma push_strings_spec:
  assumes "push_strings strs t m = (addrs, t', m')" "sum_list (map room strs) \<le> unat t"
  shows "unat t' = unat t - sum_list (map room strs) \<and> unat t' mod 16 = unat t mod 16 \<and>
    length addrs = length strs \<and> differs_within (unat t') (unat t) m m' \<and>
    (\<forall>i<length strs. unat t' \<le> unat (addrs ! i) \<and> unat (addrs ! i) + Suc (length (strs ! i)) \<le> unat t \<and>
       cstring_at m' (addrs ! i) (strs ! i))"
  using assms
proof (induction strs arbitrary: t m addrs)
  case (Cons str strs)
  define t1 m1 m2 where "t1 = t - string_room str" and "m1 = write_ram t1 (map of_char str) m"
    and "m2 = write_ram (t1 + of_nat (length str)) [0] m1"
  obtain as where f: "push_strings strs t1 m2 = (as, t', m')" and addrs: "addrs = t1 # as"
    using Cons.prems(1) by (auto simp: t1_def m1_def m2_def Let_def split: prod.splits)
  have r: "room str \<le> unat t" "sum_list (map room strs) \<le> unat t - room str" using Cons.prems(2) by simp_all
  have rb: "room str < 18446744073709551616" using r(1) unat_less_2_64 [of t] by (rule le_less_trans)
  have ut1: "unat t1 = unat t - room str"
    using r(1) unat_string_room [OF rb] by (simp add: t1_def unat_u64_minus word_le_nat_alt)
  have fits: "unat t1 + Suc (length str) \<le> unat t" using ut1 r(1) room_bounds(1) [of str] by simp
  have fits64: "unat t1 + Suc (length str) \<le> 18446744073709551616" using fits unat_less_2_64 [of t] by linarith
  have un: "unat (t1 + of_nat (length str)) = unat t1 + length str"
    using fits64 by (intro unat_plus_of_nat) simp
  have d1: "differs_within (unat t1) (unat t1 + length str) m m1"
    using write_ram_differs [of t1 "map of_char str" m] fits64 by (simp add: m1_def)
  have d2: "differs_within (unat t1 + length str) (unat t1 + Suc (length str)) m1 m2"
    using write_ram_differs [of "t1 + of_nat (length str)" "[0]" m1] fits64 un by (simp add: m2_def)
  have d12: "differs_within (unat t1) (unat t) m m2"
    by (rule differs_within_trans [OF d1 d2]) (use fits in simp_all)
  have c2: "cstring_at m2 t1 str"
  proof -
    have "read_ram t1 (length str) m2 = read_ram t1 (length str) m1"
      using fits64 by (intro read_ram_same [OF d2]) simp_all
    also have "\<dots> = map of_char str"
      using read_written [of t1 "map of_char str" m] fits64 by (simp add: m1_def)
    finally have "read_ram t1 (length str) m2 = map of_char str" .
    moreover have "m2 (t1 + of_nat (length str)) = 0" by (simp add: m2_def write_ram_def)
    ultimately show ?thesis by (simp add: cstring_at_def read_ram_def)
  qed
  have "sum_list (map room strs) \<le> unat t1" using r(2) ut1 by simp
  from Cons.IH [OF f this] have IH: "unat t' = unat t1 - sum_list (map room strs)"
    "unat t' mod 16 = unat t1 mod 16" "length as = length strs" "differs_within (unat t') (unat t1) m2 m'"
    "\<forall>i<length strs. unat t' \<le> unat (as ! i) \<and> unat (as ! i) + Suc (length (strs ! i)) \<le> unat t1 \<and>
       cstring_at m' (as ! i) (strs ! i)"
    by blast+
  have d: "differs_within (unat t') (unat t) m m'"
    by (rule differs_within_trans [OF d12 IH(4)]) (use IH(1) ut1 in simp_all)
  have c: "cstring_at m' t1 str"
  proof -
    have "read_ram t1 (Suc (length str)) m' = read_ram t1 (Suc (length str)) m2"
      using fits64 by (intro read_ram_same [OF IH(4)]) simp_all
    then show ?thesis using c2 by (simp add: cstring_at_def)
  qed
  have al: "unat t1 mod 16 = unat t mod 16"
  proof -
    have "unat t = unat t1 + room str" using ut1 r(1) by simp
    then have "unat t mod 16 = (unat t1 mod 16 + room str mod 16) mod 16" by (simp only: mod_add_eq)
    then show ?thesis by (simp only: room_bounds(3)) simp
  qed
  have le: "unat t' \<le> unat t1" "unat t1 \<le> unat t" using IH(1) ut1 by linarith+
  have "unat t' \<le> unat (addrs ! i) \<and> unat (addrs ! i) + Suc (length ((str # strs) ! i)) \<le> unat t \<and>
      cstring_at m' (addrs ! i) ((str # strs) ! i)" if "i < length (str # strs)" for i
  proof (cases i)
    case 0
    then show ?thesis using le(1) fits c by (simp add: addrs)
  next
    case (Suc j)
    then have "j < length strs" using that by simp
    then have "unat t' \<le> unat (as ! j)" "unat (as ! j) + Suc (length (strs ! j)) \<le> unat t1"
      "cstring_at m' (as ! j) (strs ! j)" using IH(5) by blast+
    then show ?thesis using le(2) by (simp add: Suc addrs)
  qed
  moreover have "unat t' = unat t - sum_list (map room (str # strs))" using IH(1) ut1 by simp
  moreover have "unat t' mod 16 = unat t mod 16" using IH(2) al by (rule trans)
  moreover have "length addrs = length (str # strs)" using IH(3) by (simp add: addrs)
  ultimately show ?case using d by blast
qed simp

section \<open>The whole stack\<close>

definition stack_bytes :: "string list \<Rightarrow> string list \<Rightarrow> nat" where
  "stack_bytes args env =
     sum_list (map room env) + sum_list (map room args) +
     8 * (length args + length env + 3 + (length args + length env + 3) mod 2)"

lemma cstring_at_same:
  assumes "cstring_at m a str" "differs_within lo hi m m'" "hi \<le> unat a"
    "unat a + Suc (length str) \<le> 18446744073709551616"
  shows "cstring_at m' a str"
  using assms read_ram_same [OF assms(2), of a "Suc (length str)"] by (simp add: cstring_at_def)

text \<open>
  C10: A program finds its arguments on the stack.  When the arguments and the environment fit
  below the 16-aligned address the stack starts at, the stack pointer a program starts with is
  16-aligned and points to the argument count; the words behind it are the addresses of
  null-terminated copies of the arguments, a null pointer, the addresses of the environment
  strings and another null pointer; no byte outside the stack is written.
\<close>

theorem initial_stack_layout:
  assumes "setup_stack args env stack_top m = (sp, m')"
    and "unat stack_top mod 16 = 0" "stack_bytes args env \<le> unat stack_top"
  shows "unat sp = unat stack_top - stack_bytes args env \<and> unat sp mod 16 = 0 \<and>
    word_at m' sp = of_nat (length args) \<and>
    (\<forall>i<length args. cstring_at m' (word_at m' (sp + of_nat (8 * (1 + i)))) (args ! i)) \<and>
    word_at m' (sp + of_nat (8 * (1 + length args))) = 0 \<and>
    (\<forall>i<length env. cstring_at m' (word_at m' (sp + of_nat (8 * (2 + length args + i)))) (env ! i)) \<and>
    word_at m' (sp + of_nat (8 * (2 + length args + length env))) = 0 \<and>
    differs_within (unat sp) (unat stack_top) m m'"
proof -
  obtain ea t1 m1 where e: "push_strings env stack_top m = (ea, t1, m1)" by (metis prod_cases3)
  obtain aa t2 m2 where a: "push_strings args t1 m1 = (aa, t2, m2)" by (metis prod_cases3)
  define ws where "ws = of_nat (length args) # aa @ 0 # ea @ [0]"
  define tm3 where "tm3 = (if (length ea + 1 + length aa + 1 + 1) mod 2 \<noteq> 0
    then push_word 0 (t2, m2) else (t2, m2))"
  obtain t3 m3 where tm3: "tm3 = (t3, m3)" by (cases tm3)
  have f: "fold push_word (rev ws) (t3, m3) = (sp, m')"
    using assms(1) by (simp add: setup_stack_def e a Let_def ws_def tm3 [symmetric] tm3_def)
  let ?E = "sum_list (map room env)" and ?A = "sum_list (map room args)"
    and ?pad = "8 * ((length args + length env + 3) mod 2)"
  have total: "?E + ?A + ?pad + 8 * (length args + length env + 3) \<le> unat stack_top"
    using assms(3) by (simp add: stack_bytes_def)
  have "?E \<le> unat stack_top" using total by linarith
  from push_strings_spec [OF e this] have E: "unat t1 = unat stack_top - ?E"
    "unat t1 mod 16 = unat stack_top mod 16" "length ea = length env"
    "differs_within (unat t1) (unat stack_top) m m1"
    "\<forall>i<length env. unat t1 \<le> unat (ea ! i) \<and> unat (ea ! i) + Suc (length (env ! i)) \<le> unat stack_top \<and>
       cstring_at m1 (ea ! i) (env ! i)" by blast+
  note t1 = E(1) and le = E(3)
  have "?A \<le> unat t1" using total t1 by linarith
  from push_strings_spec [OF a this] have A: "unat t2 = unat t1 - ?A"
    "unat t2 mod 16 = unat t1 mod 16" "length aa = length args"
    "differs_within (unat t2) (unat t1) m1 m2"
    "\<forall>i<length args. unat t2 \<le> unat (aa ! i) \<and> unat (aa ! i) + Suc (length (args ! i)) \<le> unat t1 \<and>
       cstring_at m2 (aa ! i) (args ! i)" by blast+
  note t2 = A(1) and la = A(3)
  have lw: "length ws = length args + length env + 3" by (simp add: ws_def la le)
  have t3: "unat t3 = unat t2 - ?pad" "differs_within (unat t3) (unat t2) m2 m3"
  proof -
    have par: "length ea + 1 + length aa + 1 + 1 = length args + length env + 3" by (simp add: la le)
    have "unat t3 = unat t2 - ?pad \<and> differs_within (unat t3) (unat t2) m2 m3"
    proof (cases "(length args + length env + 3) mod 2 = 0")
      case True
      then have "t3 = t2" "m3 = m2" using tm3 unfolding tm3_def par by simp_all
      then show ?thesis using True by simp
    next
      case False
      then have "push_word 0 (t2, m2) = (t3, m3)" using tm3 unfolding tm3_def par by simp
      moreover have "8 \<le> unat t2" using total t1 t2 False by simp
      ultimately have "unat t3 = unat t2 - 8 \<and> differs_within (unat t3) (unat t2) m2 m3"
        using push_word_spec by blast
      moreover have pad: "?pad = 8" using False by simp
      ultimately show ?thesis unfolding pad by blast
    qed
    then show "unat t3 = unat t2 - ?pad" "differs_within (unat t3) (unat t2) m2 m3" by blast+
  qed
  have "8 * length ws \<le> unat t3" using total t1 t2 t3(1) lw by simp
  note W = push_words_spec [OF f this]
  have sp: "unat sp = unat stack_top - stack_bytes args env"
    using W(1) t3(1) t2 t1 lw by (simp add: stack_bytes_def algebra_simps)
  have ord: "unat t1 \<le> unat stack_top" "unat t2 \<le> unat t1" "unat t3 \<le> unat t2" "unat sp \<le> unat t3"
    by (simp_all only: t1 t2 t3(1) W(1) diff_le_self)
  have d: "differs_within (unat sp) (unat stack_top) m m'"
  proof -
    have "differs_within (unat t2) (unat stack_top) m m2"
      by (rule differs_within_trans [OF E(4) A(4)]) (use ord in linarith)+
    then have "differs_within (unat t3) (unat stack_top) m m3"
      by (rule differs_within_trans [OF _ t3(2)]) (use ord in linarith)+
    then show ?thesis
      by (rule differs_within_trans [OF _ W(2)]) (use ord in linarith)+
  qed
  have strings: "cstring_at m' x str"
    if "cstring_at m2 x str" "unat t2 \<le> unat x" "unat x + Suc (length str) \<le> unat stack_top" for x str
  proof -
    have d2: "differs_within (unat sp) (unat t2) m2 m'"
      by (rule differs_within_trans [OF t3(2) W(2)]) (use ord in linarith)+
    have "unat x + Suc (length str) \<le> 18446744073709551616"
      using that(3) unat_less_2_64 [of stack_top] by linarith
    then show ?thesis by (rule cstring_at_same [OF that(1) d2 that(2)])
  qed
  have args: "cstring_at m' (aa ! i) (args ! i)" if "i < length args" for i
  proof (rule strings)
    have b: "unat t2 \<le> unat (aa ! i)" "unat (aa ! i) + Suc (length (args ! i)) \<le> unat t1"
      "cstring_at m2 (aa ! i) (args ! i)" using A(5) that by blast+
    show "cstring_at m2 (aa ! i) (args ! i)" "unat t2 \<le> unat (aa ! i)" by (rule b)+
    show "unat (aa ! i) + Suc (length (args ! i)) \<le> unat stack_top" using b(2) ord(1) by linarith
  qed
  have envs: "cstring_at m' (ea ! i) (env ! i)" if i: "i < length env" for i
  proof (rule strings)
    have b: "unat t1 \<le> unat (ea ! i)" "unat (ea ! i) + Suc (length (env ! i)) \<le> unat stack_top"
      "cstring_at m1 (ea ! i) (env ! i)" using E(5) i by blast+
    show "unat (ea ! i) + Suc (length (env ! i)) \<le> unat stack_top" by (rule b(2))
    show "unat t2 \<le> unat (ea ! i)" using b(1) ord(2) by linarith
    have "unat (ea ! i) + Suc (length (env ! i)) \<le> 18446744073709551616"
      using b(2) unat_less_2_64 [of stack_top] by linarith
    then show "cstring_at m2 (ea ! i) (env ! i)" by (rule cstring_at_same [OF b(3) A(4) b(1)])
  qed
  have w: "word_at m' (sp + of_nat (8 * j)) = ws ! j" if "j < length args + length env + 3" for j
    using W(3) [of j] that lw by simp
  have sp16: "unat sp mod 16 = 0"
  proof -
    have "unat sp + 8 * (length args + length env + 3 + (length args + length env + 3) mod 2) = unat t2"
      using W(1) t3(1) total t1 t2 by (simp add: lw algebra_simps)
    moreover have "8 * (k + k mod 2) mod 16 = 0" for k :: nat by presburger
    moreover have "unat t2 mod 16 = 0" using A(2) E(2) assms(2) by simp
    ultimately show ?thesis by (metis add.right_neutral mod_add_right_eq)
  qed
  show ?thesis
  proof (intro conjI allI impI)
    show "word_at m' sp = of_nat (length args)" using w [of 0] by (simp add: ws_def)
    show "cstring_at m' (word_at m' (sp + of_nat (8 * (1 + i)))) (args ! i)" if "i < length args" for i
      using w [of "1 + i"] args [OF that] that by (simp only:) (simp add: ws_def nth_append la)
    show "word_at m' (sp + of_nat (8 * (1 + length args))) = 0"
      using w [of "1 + length args"] by (simp only:) (simp add: ws_def nth_append la)
    show "cstring_at m' (word_at m' (sp + of_nat (8 * (2 + length args + i)))) (env ! i)" if "i < length env" for i
      using w [of "2 + length args + i"] envs [OF that] that by (simp only:) (simp add: ws_def nth_append la le)
    show "word_at m' (sp + of_nat (8 * (2 + length args + length env))) = 0"
      using w [of "2 + length args + length env"] by (simp only:) (simp add: ws_def nth_append la le)
  qed (rule sp sp16 d)+
qed

theorem initial_stack_layout_witness:
  "\<exists>sp m'. setup_stack [''ls'', ''-l''] [''A=1''] 256 (\<lambda>_. 0) = (sp, m') \<and> unat sp = 160 \<and>
     word_at m' sp = 2 \<and> cstring_at m' (word_at m' (sp + 16)) ''-l''"
proof -
  obtain sp m' where r: "setup_stack [''ls'', ''-l''] [''A=1''] 256 (\<lambda>_. 0) = (sp, m')" by fastforce
  have "stack_bytes [''ls'', ''-l''] [''A=1''] = 96" by (simp add: stack_bytes_def room_def)
  with initial_stack_layout [OF r] have
    "unat sp = 160" "word_at m' sp = 2"
    "\<forall>i<2. cstring_at m' (word_at m' (sp + of_nat (8 * (1 + i)))) ([''ls'', ''-l''] ! i)"
    by simp_all
  then show ?thesis using r by (intro exI conjI) (auto dest!: spec [of _ 1])
qed

end
