(* ===== verification/Clock.thy ===== *)
theory Clock
  imports LensorPrelude
begin

unbundle bit_operations_syntax

text \<open>
  The real time clock (\<open>kernel/src/rtc.cpp\<close>, \<open>rtc.h\<close>) and the calendar time that a program is
  given (\<open>time.h\<close>).  The registers of the clock chip are hardware: what \<open>get_rtc_data\<close> reads,
  once the chip reports that it is not updating, is a list of samples, one per call.  A run that
  uses up the list is still waiting for two equal samples and has no result.  The century
  register is configured to 0, so that the century is never read.
\<close>

record RTCData =
  rtc_second :: u8
  rtc_minute :: u8
  rtc_hour :: u8
  rtc_weekday :: u8
  rtc_date :: u8
  rtc_month :: u8
  rtc_year :: u32

section \<open>Reading the clock\<close>

text \<open>The loop that reads the registers twice until both readings agree.\<close>

fun settle :: "RTCData list \<Rightarrow> RTCData option" where
  "settle (newTime # time # samples) = (if newTime = time then Some time else settle samples)"
| "settle samples = None"

text \<open>Binary coded decimal to binary; the top bit of the hour is kept for the afternoon.\<close>

definition from_bcd :: "u8 \<Rightarrow> u8" where
  "from_bcd v = (v AND 0x0f) + (v div 16) * 10"

definition hour_from_bcd :: "u8 \<Rightarrow> u8" where
  "hour_from_bcd v = ((v AND 0x0f) + ((v AND 0x70) div 16) * 10) OR (v AND 0x80)"

definition year_from_bcd :: "u32 \<Rightarrow> u32" where
  "year_from_bcd v = (v AND 0x0f) + (v div 16) * 10"

definition to_binary :: "u8 \<Rightarrow> RTCData \<Rightarrow> RTCData" where
  "to_binary statusB t =
     (if statusB AND 0b00000100 = 0
      then \<lparr>rtc_second = from_bcd (rtc_second t), rtc_minute = from_bcd (rtc_minute t),
            rtc_hour = hour_from_bcd (rtc_hour t), rtc_weekday = from_bcd (rtc_weekday t),
            rtc_date = from_bcd (rtc_date t), rtc_month = from_bcd (rtc_month t),
            rtc_year = year_from_bcd (rtc_year t)\<rparr>
      else t)"

definition to_24_hours :: "u8 \<Rightarrow> RTCData \<Rightarrow> RTCData" where
  "to_24_hours statusB t =
     (if statusB AND 0b00000010 \<noteq> 0 \<and> rtc_hour t AND 0x80 \<noteq> 0
      then t\<lparr>rtc_hour := ((rtc_hour t AND 0x7f) + 12) mod 24\<rparr> else t)"

definition CURRENT_YEAR :: u32 where "CURRENT_YEAR = 2022"

definition full_year :: "RTCData \<Rightarrow> RTCData" where
  "full_year t =
     (let year = rtc_year t + (CURRENT_YEAR div 100) * 100
      in t\<lparr>rtc_year := if year < CURRENT_YEAR then year + 100 else year\<rparr>)"

definition update_data :: "u8 \<Rightarrow> RTCData list \<Rightarrow> RTCData option" where
  "update_data statusB samples =
     map_option (full_year \<circ> to_24_hours statusB \<circ> to_binary statusB) (settle (tl samples))"

definition RTC_PERIODIC_HERTZ :: u64 where "RTC_PERIODIC_HERTZ = drop_bit 5 32768"

definition seconds_since_boot :: "u64 \<Rightarrow> u64" where
  "seconds_since_boot Ticks = Ticks div RTC_PERIODIC_HERTZ"

definition milliseconds_since_boot :: "u64 \<Rightarrow> u64" where
  "milliseconds_since_boot Ticks = Ticks * 1000 div RTC_PERIODIC_HERTZ"

section \<open>Calendar time\<close>

record tm =
  tm_seconds :: int
  tm_minutes :: int
  tm_hours :: int
  tm_day_of_month :: int
  tm_month :: int
  tm_years_since_1900 :: int
  tm_day_of_week :: int
  tm_day_of_year :: int
  tm_is_daylight_savings_time :: int

definition month_lengths :: "nat list" where
  "month_lengths = [31, 28, 31, 30, 31, 30, 31, 31, 30, 31, 30, 31]"

definition days_into_year_by_month :: "nat list" where
  "days_into_year_by_month = map (\<lambda>m. sum_list (take m month_lengths)) [0..<12]"

text \<open>The month indexes a table of 12 entries; past its end there is no value.\<close>

definition fill_tm :: "RTCData \<Rightarrow> tm option" where
  "fill_tm t =
     (if unat (rtc_month t) < length days_into_year_by_month
      then Some \<lparr>tm_seconds = uint (rtc_second t), tm_minutes = uint (rtc_minute t),
                 tm_hours = uint (rtc_hour t), tm_day_of_month = uint (rtc_date t),
                 tm_month = uint (rtc_month t),
                 tm_years_since_1900 = sint (100 + rtc_year t),
                 tm_day_of_week = uint (rtc_weekday t),
                 tm_day_of_year =
                   int (days_into_year_by_month ! unat (rtc_month t)) + uint (rtc_date t),
                 tm_is_daylight_savings_time = - 1\<rparr>
      else None)"

section \<open>Correctness of the conversion\<close>

text \<open>The chip's coding of a number below 100, and of a time.\<close>

definition bcd :: "nat \<Rightarrow> u8" where
  "bcd n = of_nat (16 * (n div 10) + n mod 10)"

definition chip_time :: "nat \<Rightarrow> nat \<Rightarrow> nat \<Rightarrow> nat \<Rightarrow> nat \<Rightarrow> nat \<Rightarrow> nat \<Rightarrow> RTCData" where
  "chip_time y mo d wd h mi sec =
     \<lparr>rtc_second = bcd sec, rtc_minute = bcd mi, rtc_hour = bcd h, rtc_weekday = bcd wd,
      rtc_date = bcd d, rtc_month = bcd mo, rtc_year = ucast (bcd y)\<rparr>"

lemma digits_of_byte: "(v AND 15) + v div 16 * 10 = of_nat (unat v mod 16 + unat v div 16 * 10)"
  if "LENGTH('a) \<ge> 8" for v :: "'a::len word"
proof -
  have "v AND 15 = take_bit 4 v" by (simp add: take_bit_eq_mask mask_eq_exp_minus_1)
  also have "\<dots> = v mod 16" by (simp add: take_bit_eq_mod)
  finally have "v AND 15 = v mod 16" .
  moreover have "unat (16 :: 'a word) = 16"
  proof -
    have "(16 :: nat) < 2 ^ 8" by simp
    also have "\<dots> \<le> 2 ^ LENGTH('a)" using that by (rule power_increasing) simp
    finally have "take_bit LENGTH('a) (16 :: nat) = 16" by (rule take_bit_nat_eq_self)
    then show ?thesis by (metis of_nat_numeral unsigned_of_nat)
  qed
  ultimately show ?thesis by (simp add: word_arith_nat_mod word_arith_nat_div)
qed

lemma unat_bcd:
  assumes "n < 100"
  shows "unat (bcd n) = 16 * (n div 10) + n mod 10"
proof -
  have "n div 10 < 10" "n mod 10 < 10" using assms by simp_all
  then have "16 * (n div 10) + n mod 10 < 2 ^ 8" by simp
  then show ?thesis unfolding bcd_def unsigned_of_nat by (simp add: take_bit_nat_eq_self)
qed

lemma digits_of_bcd: "(16 * (n div 10) + n mod 10) mod 16 + (16 * (n div 10) + n mod 10) div 16 * 10 = n"
  for n :: nat
proof -
  have "n mod 10 < 16" by (rule less_trans [of _ 10]) simp_all
  then show ?thesis by simp
qed

lemma from_bcd_bcd: "n < 100 \<Longrightarrow> from_bcd (bcd n) = of_nat n"
  using digits_of_byte [of "bcd n"] by (simp add: from_bcd_def unat_bcd digits_of_bcd)

lemma unat_ucast_byte: "unat (ucast b :: u32) = unat b" for b :: u8
  using unsigned_less [of b, where ?'a = nat] by (simp add: unsigned_ucast_eq take_bit_nat_eq_self)

lemma year_from_bcd_bcd: "n < 100 \<Longrightarrow> year_from_bcd (ucast (bcd n)) = of_nat n"
  using digits_of_byte [of "ucast (bcd n) :: u32"]
  by (simp add: year_from_bcd_def unat_ucast_byte unat_bcd digits_of_bcd)

lemma hour_from_bcd_bcd:
  assumes "n < 24"
  shows "hour_from_bcd (bcd n) = of_nat n" "of_nat n AND (0x80 :: u8) = 0"
proof -
  have "list_all (\<lambda>n. hour_from_bcd (bcd n) = of_nat n \<and> of_nat n AND (0x80 :: u8) = 0) [0..<24]"
    by code_simp
  then show "hour_from_bcd (bcd n) = of_nat n" "of_nat n AND (0x80 :: u8) = 0"
    using assms by (simp_all add: list_all_iff)
qed

text \<open>Waiting ends at the first pair of equal samples.\<close>

lemma settle_stable: "settle (noise @ [t, t] @ rest) = Some t" if "even (length noise)"
    "\<And>i. 2 * i + 1 < length noise \<Longrightarrow> noise ! (2 * i) \<noteq> noise ! (2 * i + 1)"
  using that
proof (induction noise rule: settle.induct)
  case (1 a b samples)
  have "a \<noteq> b" using "1.prems"(2) [of 0] by simp
  moreover have "samples ! (2 * i) \<noteq> samples ! (2 * i + 1)" if "2 * i + 1 < length samples" for i
    using that "1.prems"(2) [of "Suc i"] by simp
  ultimately show ?case using "1.IH" "1.prems"(1) by simp
qed simp_all

text \<open>
  A reading of the 24-hour clock in binary coded decimal is converted to the time it stands for;
  two-digit years are placed in the hundred years from 2022 to 2121.
\<close>

lemma update_data_decodes:
  assumes "y < 100" "mo \<le> 12" "d \<le> 31" "wd \<le> 7" "h < 24" "mi < 60" "sec < 60"
    and "statusB AND 0b00000100 = 0"
  shows "update_data statusB (t0 # chip_time y mo d wd h mi sec # chip_time y mo d wd h mi sec # rest) =
    Some \<lparr>rtc_second = of_nat sec, rtc_minute = of_nat mi, rtc_hour = of_nat h,
          rtc_weekday = of_nat wd, rtc_date = of_nat d, rtc_month = of_nat mo,
          rtc_year = of_nat (if y < 22 then 2100 + y else 2000 + y)\<rparr>"
proof -
  have "unat (of_nat y + 2000 :: u32) = y + 2000"
  proof -
    have "of_nat y + 2000 = (of_nat (y + 2000) :: u32)" by simp
    then show ?thesis using assms(1) by (simp only: unsigned_of_nat) (simp add: take_bit_nat_eq_self)
  qed
  then have year: "(of_nat y + 2000 :: u32) < 2022 \<longleftrightarrow> y < 22" by (simp add: word_less_nat_alt)
  show ?thesis
    using assms year
    by (simp add: update_data_def to_binary_def to_24_hours_def full_year_def chip_time_def Let_def CURRENT_YEAR_def
        from_bcd_bcd year_from_bcd_bcd hour_from_bcd_bcd)
qed

text \<open>In December the table of days is read past its end.\<close>

lemma fill_tm_december: "rtc_month t = 12 \<Longrightarrow> fill_tm t = None"
  by (simp add: fill_tm_def days_into_year_by_month_def)

text \<open>
  The clock counts months from 1 and \<open>tm\<close> from 0: the month is one too large and the day of the
  year is that of the month after; the year is 2000 too large.
\<close>

lemma fill_tm_shifted:
  assumes "1 \<le> m" "m < 12" "2022 \<le> y" "y < 2122" "rtc_month t = of_nat m" "rtc_year t = of_nat y"
  shows "\<exists>r. fill_tm t = Some r \<and> tm_month r = int m \<and> tm_years_since_1900 r = int (y + 100) \<and>
           tm_day_of_year r = int (sum_list (take m month_lengths)) + uint (rtc_date t)"
proof -
  have m: "unat (rtc_month t) = m" using assms by (simp add: unsigned_of_nat take_bit_nat_eq_self)
  have "100 + rtc_year t = of_nat (y + 100)" using assms(6) by simp
  then have "sint (100 + rtc_year t) = signed_take_bit 31 (int (y + 100))"
    by (simp only: signed_of_nat) simp
  also have "\<dots> = int (y + 100)" using assms(4) by (simp add: signed_take_bit_int_eq_self)
  finally have y: "sint (100 + rtc_year t) = int (y + 100)" .
  have "uint (rtc_month t) = int m" using m by (metis uint_nat)
  then show ?thesis using assms(2) y by (simp add: fill_tm_def m days_into_year_by_month_def)
qed

end
