(* ===== verification/Syscalls.thy ===== *)
theory Syscalls
  imports Elf Clock
begin

unbundle bit_operations_syntax

text \<open>
  The system calls (\<open>kernel/src/interrupts/syscalls.cpp\<close>), one definition per entry of the table
  and in its order.  A call either returns a value to the process, or ends in
  \<open>Scheduler::yield\<close>, which never returns: the processor continues with the state of the process
  that runs next.  \<open>cpu\<close> is the saved state that register R11 points to, \<open>newstate\<close> what the
  uninitialised variable of \<open>yield\<close> holds.

  A buffer in user memory is its address, which the calls validate, together with the bytes that
  the call reads from it, or the bytes that the call writes to it as part of the result.  C's
  \<open>int\<close> is a 32 bit word.  A \<open>shared_ptr\<close> that lives until the call returns takes and gives back
  one owner, which is only written out where the call can end in between.
\<close>

datatype 'a sysret = Returned 'a | Yielded CPUState

definition block :: "CPUState \<Rightarrow> 'd system \<Rightarrow> ('a sysret \<times> 'd system) option" where
  "block newstate s = do { (next_cpu, s1) \<leftarrow> yield newstate s; Some (Yielded next_cpu, s1) }"

definition sleep_current :: "CPUState \<Rightarrow> 'd system \<Rightarrow> 'd system" where
  "sleep_current cpu s = upd_process (CurrentProcess s) (\<lambda>x. x\<lparr>CPU := cpu, State := SLEEPING\<rparr>) s"

definition advance :: "obj \<Rightarrow> u64 \<Rightarrow> 'd system \<Rightarrow> 'd system option" where
  "advance m n s = do { f \<leftarrow> metas s m; Some (s\<lparr>metas := (metas s)(m \<mapsto> f\<lparr>offset := offset f + n\<rparr>)\<rparr>) }"

section \<open>Files\<close>

definition sys_open :: "'d fs_ops \<Rightarrow> u64 \<Rightarrow> string \<Rightarrow> 'd system \<Rightarrow> (FileDescriptor \<times> 'd system) option" where
  "sys_open ops path path_string s =
     (if \<not> valid_address path (current s) then Some (InvalidFD, s)
      else do { (opened, s1) \<leftarrow> vfs_open ops path_string s; Some (fst opened, s1) })"

definition sys_close :: "FileDescriptor \<Rightarrow> 'd system \<Rightarrow> 'd system option" where
  "sys_close fd s = do { (_, s1) \<leftarrow> vfs_close (CurrentProcess s) fd s; Some s1 }"

definition sys_read ::
    "'d fs_ops \<Rightarrow> CPUState \<Rightarrow> CPUState \<Rightarrow> FileDescriptor \<Rightarrow> u64 \<Rightarrow> u64 \<Rightarrow> 'd system \<Rightarrow>
      ((u32 \<times> u8 list) sysret \<times> 'd system) option" where
  "sys_read ops cpu newstate fd buffer byteCount s =
     (if \<not> valid_address buffer (current s) then Some (Returned (0, []), s)
      else let meta = file_of_procfd s fd in
        if meta = 0 then None
        else do {
          s1 \<leftarrow> acquire_meta meta s;
          f \<leftarrow> metas s1 meta;
          if FileSize f \<le> offset f then do {
            s2 \<leftarrow> release_meta meta s1;
            Some (Returned (0, []), s2) }
          else do {
            let n = (if FileSize f < offset f + byteCount then FileSize f - offset f else byteCount);
            (rc, bytes, s2) \<leftarrow> vfs_read ops fd n 0 s1;
            if rc = - 2 then block newstate (sleep_current cpu s2)
            else do {
              s3 \<leftarrow> (if 0 < rc then advance meta (word_of_int rc) s2 else Some s2);
              s4 \<leftarrow> release_meta meta s3;
              Some (Returned (word_of_int rc, bytes), s4) } } })"

definition sys_write ::
    "'d fs_ops \<Rightarrow> CPUState \<Rightarrow> CPUState \<Rightarrow> FileDescriptor \<Rightarrow> u64 \<Rightarrow> (nat \<Rightarrow> u8) \<Rightarrow> u64 \<Rightarrow> 'd system \<Rightarrow>
      (u32 sysret \<times> 'd system) option" where
  "sys_write ops cpu newstate fd buffer contents byteCount s =
     (if \<not> valid_address buffer (current s) then Some (Returned 0, s)
      else do {
        let s1 = upd_process (CurrentProcess s) (\<lambda>x. x\<lparr>CPU := cpu\<rparr>) s;
        (rc, s2) \<leftarrow> vfs_write ops fd byteCount contents 0 s1;
        if rc = - 2
        then block newstate (upd_process (CurrentProcess s2) (\<lambda>x. x\<lparr>State := SLEEPING\<rparr>) s2)
        else if 0 < rc
        then do {
          let meta = file_of_procfd s2 fd;
          s3 \<leftarrow> (if meta = 0 then None else advance meta (word_of_int rc) s2);
          Some (Returned (word_of_int rc), s3) }
        else Some (Returned (word_of_int rc), s2) })"

section \<open>Processes and memory\<close>

text \<open>
  \<open>exit\<close> removes the process whose queue node \<open>CurrentProcess\<close> is, and then yields from that
  node.
\<close>

definition exit_remove :: "u32 \<Rightarrow> 'd system \<Rightarrow> (bool \<times> 'd system) option" where
  "exit_remove status s = remove_process (ProcessID (current s)) status s"

definition sys_exit :: "CPUState \<Rightarrow> u32 \<Rightarrow> 'd system \<Rightarrow> (unit sysret \<times> 'd system) option" where
  "sys_exit newstate status s = do { (_, s1) \<leftarrow> exit_remove status s; block newstate s1 }"

definition sys_map :: "u64 \<Rightarrow> u64 \<Rightarrow> u64 \<Rightarrow> 'd system \<Rightarrow> u64 \<times> 'd system" where
  "sys_map address n flags s =
     (let p = CurrentProcess s;
          pages = pages_for n;
          (paddr, m) = request_pages pages (physical (vm s));
          s1 = s\<lparr>vm := (vm s)\<lparr>physical := m\<rparr>\<rparr>;
          (vaddr, s2) = (if address = 0
            then (next_region_vaddr (processes s1 p),
                  upd_process p (\<lambda>x. x\<lparr>next_region_vaddr := next_region_vaddr x + pages * PAGE_SIZE\<rparr>) s1)
            else (address, s1));
          s3 = upd_process p (add_memory_region (make_region vaddr paddr n user_flags)) s2;
          s4 = s3\<lparr>vm := map_pages (process_CR3 (processes s3 p)) vaddr paddr user_flags pages (vm s3)\<rparr>
      in (vaddr, s4))"

fun find_region :: "u64 \<Rightarrow> Region list \<Rightarrow> Region option" where
  "find_region address [] = None"
| "find_region address (r # rs) = (if region_vaddr r = address then Some r else find_region address rs)"

definition sys_unmap :: "u64 \<Rightarrow> 'd system \<Rightarrow> 'd system" where
  "sys_unmap address s =
     (let p = CurrentProcess s in
      case find_region address (Memories (processes s p)) of
        None \<Rightarrow> s
      | Some region \<Rightarrow>
          let s1 = s\<lparr>vm := unmap_pages (process_CR3 (processes s p)) address (region_pages region) (vm s)\<rparr>;
              s2 = release_region region s1
          in upd_process p (remove_memory_region address) s2)"

text \<open>\<open>time\<close>, given the time that the clock was last updated to.\<close>

definition sys_time :: "RTCData \<Rightarrow> u64 \<Rightarrow> 'd system \<Rightarrow> tm option option" where
  "sys_time gRTC_Time time s =
     (if time = 0 then Some None
      else if \<not> valid_address time (current s) then Some None
      else map_option Some (fill_tm gRTC_Time))"

fun find_zombie :: "pid_t \<Rightarrow> ZombieState list \<Rightarrow> ZombieState option" where
  "find_zombie pid [] = None"
| "find_zombie pid (z # zs) = (if zombie_PID z = pid then Some z else find_zombie pid zs)"

fun erase_zombie :: "pid_t \<Rightarrow> ZombieState list \<Rightarrow> ZombieState list" where
  "erase_zombie pid [] = []"
| "erase_zombie pid (z # zs) = (if zombie_PID z = pid then zs else z # erase_zombie pid zs)"

definition sys_waitpid :: "CPUState \<Rightarrow> CPUState \<Rightarrow> pid_t \<Rightarrow> 'd system \<Rightarrow> (u32 sysret \<times> 'd system) option" where
  "sys_waitpid cpu newstate pid s =
     (let this = CurrentProcess s; thisProcess = processes s this in
      case find_zombie pid (Zombies thisProcess) of
        Some zombie \<Rightarrow>
          Some (Returned (zombie_ReturnStatus zombie),
                upd_process this (\<lambda>x. x\<lparr>Zombies := erase_zombie pid (Zombies x)\<rparr>) s)
      | None \<Rightarrow>
          let p = process s pid in
          if p = 0 then Some (Returned (- 1), s)
          else let s1 = upd_process p (\<lambda>x. x\<lparr>WaitingList := WaitingList x @ [ProcessID thisProcess]\<rparr>) s
               in block newstate (sleep_current cpu s1))"

definition sys_fork :: "u64 \<Rightarrow> CPUState \<Rightarrow> 'd system \<Rightarrow> (pid_t \<times> 'd system) option" where
  "sys_fork extra cpu s =
     (let cpu1 = cpu\<lparr>RSP := frame_sp (Frame cpu)\<rparr>;
          s1 = upd_process (CurrentProcess s) (\<lambda>x. x\<lparr>CPU := cpu1\<rparr>) s
      in CopyUserspaceProcess extra (CurrentProcess s) s1)"

text \<open>
  \<open>exec\<close> with the string at \<open>path\<close> and those of the null-terminated array \<open>args\<close>.  A failure to
  open the file returns; any later failure puts the process to sleep for good.
\<close>

definition sys_exec ::
    "'d fs_ops \<Rightarrow> u8 list \<Rightarrow> CPUState \<Rightarrow> u64 \<Rightarrow> string \<Rightarrow> string list \<Rightarrow> 'd system \<Rightarrow>
      (unit sysret \<times> 'd system) option" where
  "sys_exec ops garbage newstate path path_string args s =
     (if path = 0 then Some (Returned (), s)
      else do {
        let p = CurrentProcess s;
        ((procfd, sysfd), s1) \<leftarrow> vfs_open ops path_string s;
        if procfd = InvalidFD \<or> sysfd = InvalidFD then Some (Returned (), s1)
        else do {
          let s2 = upd_process p (\<lambda>x. x\<lparr>ExecutablePath := path_string\<rparr>) s1;
          (success, s3) \<leftarrow> ReplaceUserspaceElf64Process ops garbage p procfd (path_string # args) s2;
          if \<not> success
          then block newstate (upd_process p (\<lambda>x. x\<lparr>State := SLEEPING\<rparr>) s3)
          else do {
            (_, s4) \<leftarrow> vfs_close (CurrentProcess s3) procfd s3;
            block newstate s4 } } })"

section \<open>Descriptors\<close>

definition sys_repfd :: "FileDescriptor \<Rightarrow> FileDescriptor \<Rightarrow> 'd system \<Rightarrow> 'd system option" where
  "sys_repfd fd replaced s = do { (_, s1) \<leftarrow> vfs_dup2 (CurrentProcess s) fd replaced s; Some s1 }"

text \<open>The two descriptors are what the call writes to the user's array.\<close>

definition sys_pipe ::
    "u64 \<Rightarrow> 'd system \<Rightarrow> (u32 \<times> (FileDescriptor \<times> FileDescriptor) option) \<times> 'd system" where
  "sys_pipe array s =
     (let p = CurrentProcess s in
      if \<not> valid_address array (processes s p) then ((- 1, None), s)
      else let ((r, w), s1) = lay_pipe s;
               (readFDs, s2) = add_file r p s1;
               (writeFDs, s3) = add_file w p s2
           in ((0, Some (fst readFDs, fst writeFDs)), s3))"

definition SEEK_CUR :: u32 where "SEEK_CUR = 0"
definition SEEK_END :: u32 where "SEEK_END = 1"
definition SEEK_SET :: u32 where "SEEK_SET = 2"

text \<open>The new offset of a file of size \<open>file_size\<close> at offset \<open>cur\<close>, if the seek is accepted.\<close>

definition seek_offset :: "u64 \<Rightarrow> u64 \<Rightarrow> u64 \<Rightarrow> u32 \<Rightarrow> u64 option" where
  "seek_offset cur file_size off whence =
     (if whence = SEEK_CUR then
        if off = 0 then Some cur
        else if off <s 0 \<and> cur < - off then None
        else if file_size < cur + off then None
        else Some (cur + off)
      else if whence = SEEK_END then
        if 0 <s off then None else Some (file_size + off)
      else if whence = SEEK_SET then
        if off <s 0 then None
        else if file_size \<le> off then None
        else Some off
      else None)"

definition sys_seek :: "FileDescriptor \<Rightarrow> u64 \<Rightarrow> u32 \<Rightarrow> 'd system \<Rightarrow> (u32 \<times> 'd system) option" where
  "sys_seek fd off whence s =
     (let file = file_of_procfd s fd in
      if file = 0 then Some (1, s)
      else do {
        f \<leftarrow> metas s file;
        Some (case seek_offset (offset f) (FileSize f) off whence of
                None \<Rightarrow> (1, s)
              | Some off' \<Rightarrow> (0, s\<lparr>metas := (metas s)(file \<mapsto> f\<lparr>offset := off'\<rparr>)\<rparr>)) })"

text \<open>The bytes written to the user's buffer; nothing but null is checked of its address.\<close>

definition sys_pwd :: "u64 \<Rightarrow> u64 \<Rightarrow> 'd system \<Rightarrow> bool \<times> u8 list" where
  "sys_pwd buffer numBytes s =
     (if buffer = 0 \<or> numBytes = 0 then (False, [])
      else let wd = map of_char (WorkingDirectory (current s));
               entire = of_nat (length wd) < numBytes;
               byteCount = (if entire then length wd + 1 else unat numBytes)
           in (entire, (take byteCount (wd @ [0]))[byteCount - 1 := 0]))"

definition sys_dup :: "FileDescriptor \<Rightarrow> 'd system \<Rightarrow> (FileDescriptor \<times> 'd system) option" where
  "sys_dup fd s = do { (opened, s1) \<leftarrow> vfs_dup (CurrentProcess s) fd s; Some (fst opened, s1) }"

definition sys_uart :: "u64 \<Rightarrow> (nat \<Rightarrow> u8) \<Rightarrow> u64 \<Rightarrow> 'd system \<Rightarrow> 'd system" where
  "sys_uart buffer contents n s =
     (if valid_address buffer (current s)
      then s\<lparr>dbgout := dbgout s @ user_bytes contents n\<rparr> else s)"

section \<open>Sockets\<close>

text \<open>The socket that \<open>driver_data\<close> of a file is taken to be; no check that it is one is made.\<close>

definition socket_of :: "obj \<Rightarrow> 'd system \<Rightarrow> (obj \<times> SocketData) option" where
  "socket_of file s =
     do { f \<leftarrow> metas s file; data \<leftarrow> sockets s (DriverData f); Some (DriverData f, data) }"

definition sys_socket :: "u32 \<Rightarrow> 'd system \<Rightarrow> (FileDescriptor \<times> 'd system) option" where
  "sys_socket domain s =
     do {
       (sock, s1) \<leftarrow> socket_socket domain s;
       if sock = 0 then Some (InvalidFD, s1)
       else do {
         let (opened, s2) = add_file sock (CurrentProcess s1) s1;
         (d, data) \<leftarrow> socket_of sock s2;
         Some (fst opened, s2\<lparr>sockets := (sockets s2)(d \<mapsto> data\<lparr>socket_FD := fst opened\<rparr>)\<rparr>) } }"

definition sys_bind :: "FileDescriptor \<Rightarrow> u64 \<Rightarrow> SocketAddress \<Rightarrow> 'd system \<Rightarrow> (u32 \<times> 'd system) option" where
  "sys_bind socketFD address given s =
     (if \<not> valid_address address (current s) then Some (- 1, s)
      else let file = file_of_procfd s socketFD in
        if file = 0 then Some (- 1, s)
        else do {
          (d, _) \<leftarrow> socket_of file s;
          (ok, s1) \<leftarrow> socket_bind d given s;
          Some (if ok then 0 else - 1, s1) })"

definition sys_listen :: "FileDescriptor \<Rightarrow> 'd system \<Rightarrow> (u32 \<times> 'd system) option" where
  "sys_listen socketFD s =
     (let file = file_of_procfd s socketFD in
      if file = 0 then Some (- 1, s)
      else do {
        (d, data) \<leftarrow> socket_of file s;
        Some (if address_Type (socket_Address data) = UNBOUND then (- 1, s)
              else (0, s\<lparr>sockets := (sockets s)(d \<mapsto> data\<lparr>ClientServer := SERVER\<rparr>)\<rparr>)) })"

text \<open>
  The first \<open>n\<close> bytes of an address, copied over an address that is still unbound and whose data
  bytes are uninitialised.  The type takes the first four bytes, the data the other sixteen;
  more bytes overrun the variable.
\<close>

definition copy_address :: "SocketAddress \<Rightarrow> u64 \<Rightarrow> u8 list \<Rightarrow> SocketAddress option" where
  "copy_address given n uninitialised =
     (if 20 < n then None
      else Some \<lparr>address_Type = if n = 0 then UNBOUND else address_Type given,
                 address_Data = take (unat n - 4) (address_Data given) @ drop (unat n - 4) uninitialised\<rparr>)"

definition sys_connect ::
    "u8 list \<Rightarrow> FileDescriptor \<Rightarrow> u64 \<Rightarrow> SocketAddress \<Rightarrow> u64 \<Rightarrow> 'd system \<Rightarrow> (u32 \<times> 'd system) option" where
  "sys_connect uninitialised socketFD givenAddress given addressLength s =
     (let p = CurrentProcess s in
      if \<not> valid_address givenAddress (processes s p) then Some (- 1, s)
      else do {
        address \<leftarrow> copy_address given addressLength uninitialised;
        let file = file_of_procfd s socketFD;
        if file = 0 then Some (- 1, s)
        else do {
          (d, data) \<leftarrow> socket_of file s;
          if ClientServer data \<noteq> CLIENT then Some (- 1, s)
          else let server = get_bound_socket address s in
            if server = 0 then Some (- 1, s)
            else do {
              serverData \<leftarrow> sockets s server;
              let serverProcess = process s (socket_PID serverData);
              if serverProcess = 0 then Some (- 1, s)
              else do {
                let connexion = \<lparr>connection_Address = socket_Address data, connection_Socket = d,
                                 connection_PID = ProcessID (processes s p)\<rparr>;
                let s1 = s\<lparr>sockets := (sockets s)(server \<mapsto>
                  serverData\<lparr>ConnectionQueue := deq_push_back connexion (ConnectionQueue serverData)\<rparr>)\<rparr>;
                let e = blank_event\<lparr>event_Type := READY_TO_READ, event_Filter := socket_FD serverData\<rparr>;
                s2 \<leftarrow> notify_process e serverProcess s1;
                Some (0, if WaitingOnConnection serverData
                         then upd_process serverProcess (unblock True (- 2)) s2 else s2) } } } })"

text \<open>The server's end: a copy of the client's socket data that shares its buffers.\<close>

definition accept_connection :: "SocketConnection \<Rightarrow> 'd system \<Rightarrow> (FileDescriptor \<times> 'd system) option" where
  "accept_connection connexion s =
     do {
       client \<leftarrow> sockets s (connection_Socket connexion);
       if process s (socket_PID client) = 0 then Some (InvalidFD, s)
       else do {
         bufs \<leftarrow> socket_buffers s (socket_Buffers client);
         let (data, s1) = new_obj s;
         let s2 = s1\<lparr>socket_buffers := (socket_buffers s1)
                       (socket_Buffers client \<mapsto> bufs\<lparr>RefCount := RefCount bufs + 1\<rparr>),
                     sockets := (sockets s1)(data \<mapsto> client\<lparr>ClientServer := SERVER\<rparr>)\<rparr>;
         let (f, s3) = new_obj s2;
         let s4 = s3\<lparr>metas := (metas s3)(f \<mapsto> make_metadata Regular ''client_socket'' SocketsDriver
                       (of_nat SOCKET_RX_BUFFER_SIZE) data)\<rparr>;
         let ((procfd, sysfd), s5) = add_file f (CurrentProcess s4) s4;
         Some (if procfd = InvalidFD \<or> sysfd = InvalidFD then InvalidFD else procfd, s5) } }"

definition sys_accept ::
    "CPUState \<Rightarrow> CPUState \<Rightarrow> FileDescriptor \<Rightarrow> u64 \<Rightarrow> u64 \<Rightarrow> 'd system \<Rightarrow>
      (FileDescriptor sysret \<times> 'd system) option" where
  "sys_accept cpu newstate socketFD address addressLength s =
     (let p = CurrentProcess s in
      if \<not> valid_address address (processes s p) \<or> \<not> valid_address addressLength (processes s p)
      then Some (Returned InvalidFD, s)
      else let file = file_of_procfd s socketFD in
        if file = 0 then Some (Returned InvalidFD, s)
        else do {
          f \<leftarrow> metas s file;
          if DriverData f = 0 then Some (Returned InvalidFD, s)
          else do {
            (d, data) \<leftarrow> socket_of file s;
            if deq_size (ConnectionQueue data) \<noteq> 0
            then do {
              connexion \<leftarrow> deq_front (ConnectionQueue data);
              let q = deq_pop_front (ConnectionQueue data);
              (fd, s1) \<leftarrow> accept_connection connexion
                (s\<lparr>sockets := (sockets s)(d \<mapsto> data\<lparr>ConnectionQueue := q\<rparr>)\<rparr>);
              Some (Returned fd, s1) }
            else do {
              let s1 = s\<lparr>sockets := (sockets s)(d \<mapsto> data\<lparr>WaitingOnConnection := True\<rparr>)\<rparr>;
              let s2 = upd_process p (set_return_value InvalidFD) (sleep_current cpu s1);
              block newstate s2 } } })"

section \<open>Event queues\<close>

definition sys_kqueue :: "'d system \<Rightarrow> u32 \<times> 'd system" where
  "sys_kqueue s =
     (let p = CurrentProcess s;
          queues = EventQueues (processes s p);
          handle = (if queues = [] then 1 else eq_ID (last queues) + 1)
      in if handle = - 1 then (handle, s)
         else (handle, upd_process p
                 (\<lambda>x. x\<lparr>EventQueues := EventQueues x @ [new_event_queue\<lparr>eq_ID := handle\<rparr>]\<rparr>) s))"

fun find_queue :: "u32 \<Rightarrow> EventQueue list \<Rightarrow> nat option" where
  "find_queue handle [] = None"
| "find_queue handle (q # qs) = (if eq_ID q = handle then Some 0 else map_option Suc (find_queue handle qs))"

fun apply_changes :: "Event list \<Rightarrow> EventQueue \<Rightarrow> 'd system \<Rightarrow> EventQueue \<times> 'd system" where
  "apply_changes [] q s = (q, s)"
| "apply_changes (c # cs) q s =
     (let (q1, s1) = register_listening (event_Type c) (event_Filter c) q s in apply_changes cs q1 s1)"

fun take_events :: "nat \<Rightarrow> EventQueue \<Rightarrow> (Event list \<times> EventQueue) option" where
  "take_events 0 q = Some ([], q)"
| "take_events (Suc n) q =
     (if has_events q
      then do { (e, q1) \<leftarrow> pop_event q; (es, q2) \<leftarrow> take_events n q1; Some (e # es, q2) }
      else Some ([], q))"

text \<open>
  \<open>kevent\<close>.  When the handle is unknown, \<open>find_if\<close> returns the end of the vector, which is only
  the null pointer that is tested for when the process never had a queue.
\<close>

definition sys_kevent ::
    "u32 \<Rightarrow> u64 \<Rightarrow> (nat \<Rightarrow> Event) \<Rightarrow> u32 \<Rightarrow> u64 \<Rightarrow> u32 \<Rightarrow> 'd system \<Rightarrow> ((u32 \<times> Event list) \<times> 'd system) option" where
  "sys_kevent handle changelist changes numChanges eventlist maxEvents s =
     (let p = CurrentProcess s; this = processes s p in
      if handle = - 1 then Some ((- 1, []), s)
      else if numChanges \<noteq> 0 \<and> \<not> valid_address changelist this then Some ((- 1, []), s)
      else if maxEvents \<noteq> 0 \<and> \<not> valid_address eventlist this then Some ((- 1, []), s)
      else if EventQueues this = [] then Some ((- 1, []), s)
      else do {
        i \<leftarrow> find_queue handle (EventQueues this);
        let (q, s1) = apply_changes (map changes [0..<nat (sint numChanges)]) (EventQueues this ! i) s;
        if \<not> has_events q
        then Some ((- 1, []), upd_process p (\<lambda>x. x\<lparr>EventQueues := (EventQueues x)[i := q]\<rparr>) s1)
        else do {
          (es, q1) \<leftarrow> take_events (nat (sint maxEvents)) q;
          Some ((0, es), upd_process p (\<lambda>x. x\<lparr>EventQueues := (EventQueues x)[i := q1]\<rparr>) s1) } })"

definition sys_directory_data ::
    "'d fs_ops \<Rightarrow> u64 \<Rightarrow> string \<Rightarrow> u64 \<Rightarrow> u64 \<Rightarrow> 'd system \<Rightarrow> (u32 \<times> (FileType \<times> string) list) option" where
  "sys_directory_data ops path path_string dirp count s =
     (if count = 0 then Some (0, [])
      else if \<not> valid_address path (current s) then Some (- 1, [])
      else if \<not> valid_address dirp (current s) then Some (- 1, [])
      else do { (rc, entries) \<leftarrow> vfs_directory_data ops path_string count s; Some (word_of_int rc, entries) })"

section \<open>What the end of a process leaves alone\<close>

text \<open>
  The links between processes: closing files on behalf of a process only changes descriptors and
  wakes processes up.
\<close>

definition same_family :: "'d system \<Rightarrow> 'd system \<Rightarrow> bool" where
  "same_family s s' \<longleftrightarrow>
     ProcessQueue s' = ProcessQueue s \<and> CurrentProcess s' = CurrentProcess s \<and>
     (\<forall>p. Zombies (processes s' p) = Zombies (processes s p) \<and>
          ProcessID (processes s' p) = ProcessID (processes s p) \<and>
          (State (processes s p) = RUNNING \<longrightarrow> State (processes s' p) = RUNNING))"

lemma same_family_refl [simp]: "same_family s s"
  by (simp add: same_family_def)

lemma same_family_trans: "same_family a b \<Longrightarrow> same_family b c \<Longrightarrow> same_family a c"
  by (simp add: same_family_def)

lemma same_family_wake_all [simp]: "same_family s (wake_all v pids s)"
  by (simp add: same_family_def wake_all_processes)

lemma same_family_upd_pipe [simp]: "same_family s (upd_pipe b f s)"
  by (simp add: same_family_def upd_pipe_def)

lemma same_family_upd_fds [simp]: "same_family s (upd_fds p t s)"
  by (simp add: same_family_def upd_fds_def upd_process_def)

lemma same_family_fields:
  "same_family s (s\<lparr>Files := fs\<rparr>)" "same_family s (s\<lparr>metas := ms\<rparr>)"
  "same_family s (s\<lparr>vm := v\<rparr>)" "same_family s (s\<lparr>PageMapsToFree := ms'\<rparr>)"
  by (simp_all add: same_family_def)

lemma pipe_close_family: "pipe_close m s = Some s' \<Longrightarrow> same_family s s'"
  by (auto simp: pipe_close_def Let_def same_family_def upd_pipe_def wake_all_processes
      split: if_splits bind_splits EndType.splits)

lemma socket_close_family: "socket_close m s = Some s' \<Longrightarrow> same_family s s'"
  by (auto simp: socket_close_def socket_unbind_def Let_def same_family_def split: if_splits bind_splits)

lemma input_close_family: "input_close m s = Some s' \<Longrightarrow> same_family s s'"
  by (auto simp: input_close_def same_family_def split: if_splits bind_splits)

lemma driver_close_family: "driver_close m s = Some s' \<Longrightarrow> same_family s s'"
  by (auto simp: driver_close_def split: bind_splits FilesystemDriver.splits
      dest: pipe_close_family socket_close_family input_close_family)

lemma release_meta_family: "release_meta m s = Some s' \<Longrightarrow> same_family s s'"
  by (auto simp: release_meta_def split: bind_splits if_splits dest!: driver_close_family
      intro: same_family_trans same_family_fields)

lemma same_family_tables: "same_family s ((upd_fds p t s)\<lparr>Files := fs\<rparr>)"
  by (rule same_family_trans [OF same_family_upd_fds same_family_fields(1)])

lemma free_fd_family: "free_fd p fd procfd s = Some s' \<Longrightarrow> same_family s s'"
  by (auto simp: free_fd_def Let_def same_family_tables split: bind_splits if_splits
      dest!: release_meta_family elim!: same_family_trans [OF same_family_tables])

lemma vfs_close_family: "vfs_close p procfd s = Some (ok, s') \<Longrightarrow> same_family s s'"
  by (auto simp: vfs_close_def Let_def split: bind_splits if_splits dest!: free_fd_family)

lemma close_all_family: "close_all p procfds s = Some s' \<Longrightarrow> same_family s s'"
  by (induction procfds arbitrary: s)
     (auto split: bind_splits dest!: vfs_close_family intro: same_family_trans)

lemma release_region_family [simp]: "same_family s (release_region r s)"
  by (simp add: same_family_def release_region_def)

lemma fold_release_family: "same_family s (fold release_region rs s)"
  by (induction rs arbitrary: s) (auto intro: same_family_trans release_region_family)

section \<open>Exit and wait\<close>

text \<open>The queue of processes: no null pointer, no process twice, and distinct identifiers.\<close>

definition pids_ok :: "'d system \<Rightarrow> bool" where
  "pids_ok s \<longleftrightarrow> distinct (ProcessQueue s) \<and> 0 \<notin> set (ProcessQueue s) \<and>
     inj_on (\<lambda>p. ProcessID (processes s p)) (set (ProcessQueue s))"

lemma process_of_queued: "pids_ok s \<Longrightarrow> p \<in> set (ProcessQueue s) \<Longrightarrow> process s (ProcessID (processes s p)) = p"
  by (simp add: pids_ok_def process_def find_process_unique)

lemma find_zombie_append: "find_zombie pid (zs @ [z]) =
    (case find_zombie pid zs of None \<Rightarrow> if zombie_PID z = pid then Some z else None | Some y \<Rightarrow> Some y)"
  by (induction zs) auto

lemma erase_zombie_append:
  "find_zombie pid zs = None \<Longrightarrow> erase_zombie pid (zs @ [z]) = (if zombie_PID z = pid then zs else zs @ [z])"
  by (induction zs) (auto split: if_splits)

lemma exit_remove_spec:
  assumes "exit_remove status s = Some (True, s1)" "pids_ok s" "CurrentProcess s \<in> set (ProcessQueue s)"
    and "parent \<in> set (ProcessQueue s)" "parent \<noteq> CurrentProcess s"
    and "ParentProcess (current s) = ProcessID (processes s parent)"
  shows "ProcessQueue s1 = remove1 (CurrentProcess s) (ProcessQueue s)"
    "Zombies (processes s1 parent) = Zombies (processes s parent) @
       [\<lparr>zombie_PID = ProcessID (current s), zombie_ReturnStatus = status\<rparr>]"
    "w \<in> set (WaitingList (current s)) \<Longrightarrow> process s w \<noteq> 0 \<Longrightarrow> process s w \<noteq> CurrentProcess s \<Longrightarrow>
       State (processes s1 (process s w)) = RUNNING"
    "CurrentProcess s1 = CurrentProcess s"
proof -
  let ?c = "CurrentProcess s" and ?Q = "ProcessQueue s"
  let ?zombie = "\<lparr>zombie_PID = ProcessID (current s), zombie_ReturnStatus = status\<rparr>"
  have c0: "?c \<noteq> 0" using assms(2,3) by (metis pids_ok_def)
  have p0: "parent \<noteq> 0" using assms(2,4) by (metis pids_ok_def)
  have pc: "process s (ProcessID (current s)) = ?c" using assms(2,3) by (rule process_of_queued)
  define sb where "sb = upd_process ?c (\<lambda>x. x\<lparr>State := SLEEPING\<rparr>) (s\<lparr>ProcessQueue := remove1 ?c ?Q\<rparr>)"
  define si where "si = (if ?c = init_process sb then sb\<lparr>init_process := 0\<rparr> else sb)"
  define sz where "sz = upd_process parent (add_zombie ?zombie) si"
  define sw where "sw = wake_all (scast status) (WaitingList (current s)) sz"
  define sr where "sr = fold release_region (Memories (current s)) sw"
  define sm where "sm = upd_process ?c (\<lambda>x. x\<lparr>Memories := []\<rparr>) sr"
  have d: "destroy ?c status sb = Some s1"
    using assms(1) pc c0 by (auto simp: exit_remove_def remove_process_def sb_def Let_def split: bind_splits)
  have Qi: "ProcessQueue si = remove1 ?c ?Q" by (simp add: si_def sb_def upd_process_def)
  have Pi: "processes si = (processes s)(?c := (current s)\<lparr>State := SLEEPING\<rparr>)"
    by (simp add: si_def sb_def)
  have proc: "process si (ProcessID (processes s q)) = q" if "q \<in> set ?Q" "q \<noteq> ?c" for q
  proof -
    have "q \<in> set (remove1 ?c ?Q)" using that by simp
    moreover have "inj_on (\<lambda>p. ProcessID (processes si p)) (set (remove1 ?c ?Q))"
    proof (rule inj_on_subset)
      have "(\<lambda>p. ProcessID (processes si p)) = (\<lambda>p. ProcessID (processes s p))" by (simp add: Pi fun_eq_iff)
      then show "inj_on (\<lambda>p. ProcessID (processes si p)) (set ?Q)" using assms(2) by (simp add: pids_ok_def)
    qed (rule set_remove1_subset)
    ultimately have "find_process (processes si) (ProcessID (processes si q)) (remove1 ?c ?Q) = q"
      by (rule find_process_unique)
    then show ?thesis using that(2) by (simp add: process_def Qi Pi)
  qed
  have par: "process si (ParentProcess (current s)) = parent" using proc assms(4-6) by simp
  have fields: "ParentProcess (processes sb ?c) = ParentProcess (current s)"
    "ProcessID (processes sb ?c) = ProcessID (current s)" "WaitingList (processes sb ?c) = WaitingList (current s)"
    "Memories (processes sb ?c) = Memories (current s)" "process_CR3 (processes sb ?c) = process_CR3 (current s)"
    "FileDescriptors (processes sb ?c) = FileDescriptors (current s)"
    by (simp_all add: sb_def)
  obtain s6 where close: "close_all ?c (map fst (sv_pairs InvalidFD (FileDescriptors (current s)))) sm = Some s6"
    and s1: "s1 = s6\<lparr>PageMapsToFree := PageMapsToFree s6 @ [process_CR3 (current s)]\<rparr>"
    using d p0
    by (auto simp: destroy_def Let_def fields si_def [symmetric] par sz_def [symmetric] sw_def [symmetric]
        sr_def [symmetric] sm_def [symmetric] split: bind_splits)
  have fam: "same_family sw s1"
  proof -
    have "same_family sr sm" unfolding sm_def by (simp add: same_family_def upd_process_def)
    moreover have "same_family s6 s1" unfolding s1 by (rule same_family_fields)
    ultimately show ?thesis
      using fold_release_family [of sw "Memories (current s)", folded sr_def] close_all_family [OF close]
        same_family_trans by metis
  qed
  show "ProcessQueue s1 = remove1 ?c ?Q"
    using fam Qi by (simp add: same_family_def sw_def sz_def upd_process_def)
  show "CurrentProcess s1 = ?c"
    using fam by (simp add: same_family_def sw_def sz_def si_def sb_def upd_process_def)
  have "Zombies (processes sw parent) = Zombies (processes s parent) @ [?zombie]"
    using assms(5) by (simp add: sw_def wake_all_processes sz_def Pi add_zombie_def)
  then show "Zombies (processes s1 parent) = Zombies (processes s parent) @ [?zombie]"
    using fam by (simp add: same_family_def)
  show "State (processes s1 (process s w)) = RUNNING"
    if w: "w \<in> set (WaitingList (current s))" "process s w \<noteq> 0" "process s w \<noteq> ?c"
  proof -
    have "ProcessID (processes s (process s w)) = w" using w(2) by (rule process_ProcessID)
    then have "process si w = process s w"
      using proc [OF process_in_queue [OF w(2)] w(3)] by simp
    moreover have "process sz = process si"
      by (rule process_cong) (simp_all add: sz_def upd_process_def add_zombie_def)
    ultimately have "process s w \<in> process sz ` set (WaitingList (current s))"
      using w(1) by (metis image_eqI)
    then have "State (processes sw (process s w)) = RUNNING"
      using w(2) by (simp add: sw_def wake_all_processes)
    then show ?thesis using fam by (simp add: same_family_def)
  qed
qed

text \<open>
  C11: The exit status of a process reaches its parent.  When a process has been removed by exit,
  it is gone from the queue, every process that waited for it can run again, and the next time
  its parent calls waitpid with its identifier, the call returns the exit status and forgets the
  child; unless the parent already had an unreaped child of that identifier.
\<close>

theorem exit_status_reaches_parent:
  assumes "exit_remove status s = Some (True, s1)" "pids_ok s" "CurrentProcess s \<in> set (ProcessQueue s)"
    and "parent \<in> set (ProcessQueue s)" "parent \<noteq> CurrentProcess s"
    and "ParentProcess (current s) = ProcessID (processes s parent)"
    and "find_zombie (ProcessID (current s)) (Zombies (processes s parent)) = None"
  shows "ProcessQueue s1 = remove1 (CurrentProcess s) (ProcessQueue s) \<and>
    (\<forall>w. w \<in> set (WaitingList (current s)) \<and> process s w \<noteq> 0 \<and> process s w \<noteq> CurrentProcess s \<longrightarrow>
       State (processes s1 (process s w)) = RUNNING) \<and>
    (\<exists>s2. sys_waitpid cpu newstate (ProcessID (current s)) (s1\<lparr>CurrentProcess := parent\<rparr>) =
             Some (Returned status, s2) \<and>
           Zombies (processes s2 parent) = Zombies (processes s parent))"
proof -
  note X = exit_remove_spec [OF assms(1-6)]
  have "find_zombie (ProcessID (current s)) (Zombies (processes s1 parent)) =
      Some \<lparr>zombie_PID = ProcessID (current s), zombie_ReturnStatus = status\<rparr>"
    using assms(7) by (simp add: X(2) find_zombie_append)
  moreover have "erase_zombie (ProcessID (current s)) (Zombies (processes s1 parent)) = Zombies (processes s parent)"
    using assms(7) by (simp add: X(2) erase_zombie_append)
  ultimately show ?thesis
    using X(1,3) by (simp add: sys_waitpid_def Let_def)
qed

definition example_child :: "unit system" where
  "example_child = example_two
     \<lparr>CurrentProcess := 2,
      processes := (processes example_two)(2 := (processes example_two 2)\<lparr>ParentProcess := 1\<rparr>)\<rparr>"

lemma example_child_simps:
  "ProcessQueue example_child = [1, 2]" "CurrentProcess example_child = 2"
  "processes example_child p =
     (if p = 2 then (new_process 0)\<lparr>ProcessID := 2, ParentProcess := 1\<rparr> else (new_process 0)\<lparr>ProcessID := of_nat p\<rparr>)"
  by (simp_all add: example_child_def example_two_simps)

lemma example_child_pids: "pids_ok example_child"
  by (simp add: pids_ok_def example_child_simps inj_on_def new_process_def)

lemma example_child_exit: "\<exists>s1. exit_remove status example_child = Some (True, s1)"
  by (simp add: exit_remove_def remove_process_def process_def example_child_simps new_process_def
      destroy_def Let_def sv_pairs_def sv_empty_def enumerate_eq_zip)

theorem exit_status_reaches_parent_witness:
  "\<exists>s1 s2. exit_remove 7 example_child = Some (True, s1) \<and> ProcessQueue s1 = [1] \<and>
     sys_waitpid zero_cpu zero_cpu 2 (s1\<lparr>CurrentProcess := 1\<rparr>) = Some (Returned 7, s2) \<and>
     Zombies (processes s2 1) = []"
proof -
  obtain s1 where s1: "exit_remove 7 example_child = Some (True, s1)" using example_child_exit by blast
  show ?thesis
    using exit_status_reaches_parent [OF s1 example_child_pids, of 1 zero_cpu zero_cpu] s1
    by (auto simp: example_child_simps new_process_def)
qed

text \<open>
  \<open>exit\<close> then yields from the queue node it has just deleted: the call has no defined result.
\<close>

lemma node_next_absent: "p \<notin> set Q \<Longrightarrow> node_next p Q = None"
  by (induction Q) auto

lemma sys_exit_dangling:
  assumes "pids_ok s" "CurrentProcess s \<in> set (ProcessQueue s)"
    and "parent \<in> set (ProcessQueue s)" "parent \<noteq> CurrentProcess s"
    and "ParentProcess (current s) = ProcessID (processes s parent)"
  shows "sys_exit newstate status s = None"
proof (cases "exit_remove status s")
  case (Some r)
  obtain ok s1 where r: "r = (ok, s1)" by (cases r)
  have "process s (ProcessID (current s)) \<noteq> 0"
    using process_of_queued [OF assms(1,2)] assms(1,2) by (metis pids_ok_def)
  then have "ok" using Some r by (auto simp: exit_remove_def remove_process_def Let_def split: bind_splits)
  then have ex: "exit_remove status s = Some (True, s1)" using Some r by simp
  note X = exit_remove_spec [OF ex assms]
  have "node_next (CurrentProcess s1) (ProcessQueue s1) = None"
    unfolding X(1,4) using assms(1) by (intro node_next_absent) (simp add: pids_ok_def)
  then show ?thesis by (simp add: sys_exit_def ex block_def yield_def switch_process_impl_def)
qed (simp add: sys_exit_def)

section \<open>A read that has to wait\<close>

text \<open>
  C37: A read from an empty pipe puts the process to sleep and runs another one, with the registers
  of the call saved and the process on the waiting list of the pipe.  The owner of the file that
  the call holds is never given back: the file has one owner more than it has descriptors, so
  that closing all of them will not close it.
\<close>

theorem blocked_read_keeps_owner:
  assumes "valid_address buffer (current s)" "file_of_procfd s fd = m" "m \<noteq> 0" "metas s m = Some f"
    and "FileDriver f = PipesDriver" "offset f < FileSize f" "DriverData f \<noteq> 0"
    and "pipe_ends s (DriverData f) = Some pe" "pipe_Offset (pipe_buffers s (end_Buffer pe)) = 0"
    and "\<not> WriteClosed (pipe_buffers s (end_Buffer pe))"
    and "queue_ok s" "save_areas_aligned s"
    and "q \<in> set (ProcessQueue s)" "q \<noteq> CurrentProcess s" "State (processes s q) = RUNNING"
  shows "\<exists>next_cpu s'. sys_read ops cpu newstate fd buffer n s = Some (Yielded next_cpu, s') \<and>
    CurrentProcess s' \<noteq> CurrentProcess s \<and>
    State (processes s' (CurrentProcess s)) = SLEEPING \<and> CPU (processes s' (CurrentProcess s)) = cpu \<and>
    ProcessID (current s) \<in> set (PIDsWaitingOnWriteToRead (pipe_buffers s' (end_Buffer pe))) \<and>
    metas s' m = Some (f\<lparr>use_count := use_count f + 1\<rparr>)"
proof -
  let ?b = "end_Buffer pe"
  define s1 where "s1 = s\<lparr>metas := (metas s)(m \<mapsto> f\<lparr>use_count := use_count f + 1\<rparr>)\<rparr>"
  define s2 where "s2 = upd_pipe ?b (\<lambda>pb. pb\<lparr>PIDsWaitingOnWriteToRead :=
    PIDsWaitingOnWriteToRead pb @ [ProcessID (current s)]\<rparr>) s1"
  define s3 where "s3 = sleep_current cpu s2"
  have acq: "acquire_meta m s = Some s1" using assms(4) by (simp add: acquire_meta_def s1_def)
  have "file_of_procfd s1 fd = m" using assms(2)
    by (simp add: file_of_procfd_def file_of_sysfd_def s1_def split: option.splits)
  then have rd: "vfs_read ops fd k 0 s1 = Some (- 2, [], s2)" for k
    using assms(3-10) by (simp add: vfs_read_def driver_read_def pipe_read_def s1_def s2_def Let_def)
  have Q3: "queue_ok s3" "save_areas_aligned s3"
    using assms(11,12)
    by (auto simp: queue_ok_def save_areas_aligned_def s3_def sleep_current_def s2_def s1_def upd_pipe_def upd_process_def)
  have P3: "processes s3 p = (if p = CurrentProcess s then (current s)\<lparr>CPU := cpu, State := SLEEPING\<rparr> else processes s p)"
      "CurrentProcess s3 = CurrentProcess s" "ProcessQueue s3 = ProcessQueue s"
      "metas s3 = metas s1" "pipe_buffers s3 = pipe_buffers s2" for p
    by (simp_all add: s3_def sleep_current_def s2_def s1_def upd_pipe_def upd_process_def)
  have R: "\<exists>p\<in>set (ProcessQueue s3). State (processes s3 p) = RUNNING" "ProcessQueue s3 \<noteq> [CurrentProcess s3]"
    using assms(13-15) by (auto simp: P3)
  define p where "p = find_viable (processes s3) (turn_order (CurrentProcess s3) (ProcessQueue s3))"
  note Y = switch_process_impl_spec [OF Q3 R, folded p_def]
  have "p \<noteq> CurrentProcess s" using Y(3) by (auto simp: P3(1))
  moreover have "sys_read ops cpu newstate fd buffer n s = block newstate s3"
  proof -
    have "metas s1 m = Some (f\<lparr>use_count := use_count f + 1\<rparr>)" by (simp add: s1_def)
    moreover have "\<not> FileSize f \<le> offset f" using assms(6) by simp
    ultimately show ?thesis using assms(1-3) by (simp add: sys_read_def acq rd s3_def)
  qed
  ultimately show ?thesis
    using Y(1) [of newstate] by (simp add: block_def yield_def P3 s1_def s2_def upd_pipe_def)
qed

definition example_reader :: "unit system" where
  "example_reader = upd_process 1 (add_memory_region (make_region 4096 4096 4096 0)) example_files"

lemma example_reader_simps:
  "ProcessQueue example_reader = [1, 2]" "CurrentProcess example_reader = 1"
  "metas example_reader = metas example_pipe" "pipe_ends example_reader = pipe_ends example_pipe"
  "pipe_buffers example_reader = pipe_buffers example_pipe" "fxsr_enabled example_reader = False"
  "Files example_reader = \<lparr>sv_els = [6, 7], sv_idxs = []\<rparr>"
  "FileDescriptors (processes example_reader 1) = \<lparr>sv_els = [0, 1], sv_idxs = []\<rparr>"
  "State (processes example_reader p) = RUNNING" "ProcessID (processes example_reader 1) = 1"
  by (simp_all add: example_reader_def upd_process_def add_memory_region_def)
     (simp_all add: example_files_def example_pipe_def example_two_def lay_pipe_def new_obj_def
        blank_system_def new_process_def Let_def)

lemma example_reader_ready:
  "valid_address 4096 (current example_reader)" "file_of_procfd example_reader 0 = 6"
  "queue_ok example_reader" "save_areas_aligned example_reader"
proof -
  show "valid_address 4096 (current example_reader)"
    by (simp add: valid_address_def example_reader_simps(2))
       (simp add: example_reader_def add_memory_region_def in_region_def make_region_def)
  show "file_of_procfd example_reader 0 = 6"
    by (simp add: file_of_procfd_def file_of_sysfd_def sv_at_def sv_get_def example_reader_simps
        del: One_nat_def)
  show "queue_ok example_reader" "save_areas_aligned example_reader"
    by (simp_all add: queue_ok_def save_areas_aligned_def example_reader_simps)
qed

theorem blocked_read_keeps_owner_witness:
  "\<forall>ops. \<exists>next_cpu s'. sys_read ops zero_cpu zero_cpu 0 4096 10 example_reader = Some (Yielded next_cpu, s') \<and>
     State (processes s' 1) = SLEEPING \<and> use_count (the (metas s' 6)) = 2"
proof
  fix ops
  define f where "f = make_metadata Regular (''panon'' @ decimal 1) PipesDriver 512 4"
  have f: "metas example_reader 6 = Some f" "FileDriver f = PipesDriver" "offset f < FileSize f"
    "DriverData f \<noteq> 0" "use_count f = 1"
    by (simp_all add: f_def example_reader_simps make_metadata_def)
  have p: "pipe_ends example_reader (DriverData f) = Some \<lparr>end_Buffer = 3, end_End = READ_END\<rparr>"
    by (simp add: f_def example_reader_simps make_metadata_def)
  show "\<exists>next_cpu s'. sys_read ops zero_cpu zero_cpu 0 4096 10 example_reader = Some (Yielded next_cpu, s') \<and>
     State (processes s' 1) = SLEEPING \<and> use_count (the (metas s' 6)) = 2"
    using blocked_read_keeps_owner [OF example_reader_ready(1,2) _ f(1-4) p _ _ example_reader_ready(3,4),
        of 2 ops zero_cpu zero_cpu 10] f(5)
    by (fastforce simp: example_reader_simps new_pipe_buffer_def)
qed

section \<open>Seeking\<close>

lemma uint_plus_signed: "uint (a + b) = (uint a + sint b) mod 18446744073709551616" for a b :: u64
  by (simp add: uint_word_ariths uint_sint [of b] take_bit_eq_mod mod_simps)

lemma sint_bounds: "- 9223372036854775808 \<le> sint b" "sint b < 9223372036854775808" for b :: u64
  using sint_ge [of b] sint_lt [of b] by simp_all

lemma uint_minus_signed:
  fixes b :: u64
  assumes "sint b < 0"
  shows "uint (- b) = - sint b"
proof -
  have "uint (- b) = (- sint b) mod 18446744073709551616"
    by (simp add: uint_word_ariths uint_sint [of b] take_bit_eq_mod mod_simps)
  then show ?thesis using assms sint_bounds [of b] by simp
qed

lemma uint_nonneg_signed: "0 \<le> sint b \<Longrightarrow> uint b = sint b" for b :: u64
  using sint_bounds [of b] by (simp add: uint_sint [of b] take_bit_eq_mod)

text \<open>The offset a seek means, as an integer.\<close>

definition seek_target :: "FileMetadata \<Rightarrow> u64 \<Rightarrow> u32 \<Rightarrow> int" where
  "seek_target f off whence =
     (if whence = SEEK_CUR then uint (offset f) + sint off
      else if whence = SEEK_END then uint (FileSize f) + sint off
      else sint off)"

definition seek_accepted :: "FileMetadata \<Rightarrow> u64 \<Rightarrow> u32 \<Rightarrow> bool" where
  "seek_accepted f off whence \<longleftrightarrow>
     (let t = seek_target f off whence in
      whence = SEEK_CUR \<and> 0 \<le> t \<and> t \<le> uint (FileSize f) \<or>
      whence = SEEK_SET \<and> 0 \<le> t \<and> t < uint (FileSize f) \<or>
      whence = SEEK_END \<and> sint off \<le> 0)"

lemma seek_offset_spec:
  assumes "offset f \<le> FileSize f" "uint (FileSize f) < 9223372036854775808"
  shows "seek_offset (offset f) (FileSize f) off whence =
    (if seek_accepted f off whence then Some (word_of_int (seek_target f off whence)) else None)"
proof -
  have cur: "uint (offset f) \<le> uint (FileSize f)" using assms(1) by (simp add: word_le_def)
  consider "whence = SEEK_CUR" | "whence = SEEK_END" | "whence = SEEK_SET"
    | "whence \<noteq> SEEK_CUR" "whence \<noteq> SEEK_END" "whence \<noteq> SEEK_SET" by blast
  then show ?thesis
  proof cases
    case 1
    define t where "t = uint (offset f) + sint off"
    have neg: "off <s 0 \<and> offset f < - off \<longleftrightarrow> t < 0"
    proof (cases "sint off < 0")
      case True
      have "uint (offset f) < - sint off \<longleftrightarrow> t < 0" unfolding t_def by linarith
      then show ?thesis using True uint_minus_signed [OF True] by (simp add: word_sless_alt word_less_def)
    next
      case False
      then have "0 \<le> t" unfolding t_def by (intro add_nonneg_nonneg) simp_all
      then show ?thesis using False by (simp add: word_sless_alt)
    qed
    have past: "FileSize f < offset f + off \<longleftrightarrow> uint (FileSize f) < t" if "0 \<le> t"
    proof -
      have "t < 18446744073709551616" using cur assms(2) sint_bounds(2) [of off] by (simp add: t_def)
      then have "uint (offset f + off) = t" using that uint_plus_signed [of "offset f" off] by (simp add: t_def)
      then show ?thesis by (simp add: word_less_def)
    qed
    have "seek_target f off whence = t" using 1 by (simp add: seek_target_def t_def)
    moreover have "word_of_int t = offset f + off" by (simp add: t_def)
    moreover have "0 \<le> t \<and> t \<le> uint (FileSize f)" if "off = 0" using that cur by (simp add: t_def)
    ultimately show ?thesis
      using 1 neg past by (auto simp: seek_offset_def seek_accepted_def SEEK_CUR_def SEEK_SET_def SEEK_END_def)
  next
    case 2
    then show ?thesis
      by (simp add: seek_offset_def seek_accepted_def seek_target_def SEEK_CUR_def SEEK_SET_def SEEK_END_def
          word_sless_alt not_less)
  next
    case 3
    then show ?thesis
      using uint_nonneg_signed [of off]
      by (auto simp: seek_offset_def seek_accepted_def seek_target_def SEEK_CUR_def SEEK_SET_def SEEK_END_def
          word_sless_alt word_le_def)
  next
    case 4
    then show ?thesis by (simp add: seek_offset_def seek_accepted_def)
  qed
qed

text \<open>
  A seek sets the offset exactly or changes nothing.  For a file whose offset is inside it and
  whose size a signed integer can hold, a seek from the current offset succeeds just when the
  target is inside the file or at its end, a seek from the beginning when the target is inside
  it, and a seek from the end whenever the displacement is not positive: then also when the
  target is before the beginning, and the offset wraps around to one far past the end.  Success
  changes only the offset of the file, failure returns 1 and changes nothing.
\<close>

theorem seek_moves_offset:
  assumes "file_of_procfd s fd = m" "m \<noteq> 0" "metas s m = Some f"
    and "offset f \<le> FileSize f" "uint (FileSize f) < 9223372036854775808"
  shows "sys_seek fd off whence s =
    Some (if seek_accepted f off whence
          then (0, s\<lparr>metas := (metas s)(m \<mapsto> f\<lparr>offset := word_of_int (seek_target f off whence)\<rparr>)\<rparr>)
          else (1, s))"
  using assms(1-3) seek_offset_spec [OF assms(4,5), of off whence] by (simp add: sys_seek_def)

theorem seek_moves_offset_witness:
  "sys_seek 0 100 SEEK_SET example_reader =
     Some (0, example_reader\<lparr>metas := (metas example_reader)(6 \<mapsto> (the (metas example_reader 6))\<lparr>offset := 100\<rparr>)\<rparr>)"
proof -
  define f where "f = make_metadata Regular (''panon'' @ decimal 1) PipesDriver 512 4"
  have f: "metas example_reader 6 = Some f" "offset f \<le> FileSize f" "uint (FileSize f) < 9223372036854775808"
    "seek_accepted f 100 SEEK_SET" "seek_target f 100 SEEK_SET = 100"
    by (simp_all add: f_def example_reader_simps make_metadata_def seek_accepted_def seek_target_def
        SEEK_CUR_def SEEK_SET_def SEEK_END_def)
  show ?thesis using seek_moves_offset [OF example_reader_ready(2) _ f(1-3), of 100 SEEK_SET] f by simp
qed

end
