(* ===== verification/ChannelTypes.thy ===== *)
theory ChannelTypes
  imports Channels
begin

text \<open>
  The shapes of the buffers behind pipes, sockets and keyboard input.  Every buffer is an array
  of a fixed size with a count of the bytes in it; \<open>channels_typed\<close> says that all arrays of a
  system have the size of their class and that no count exceeds it.  Whatever the drivers do, a
  call that completes keeps it, so that no completed call can have written outside an array.
\<close>

section \<open>One buffer\<close>

definition holds :: "nat \<Rightarrow> u8 list \<Rightarrow> u64 \<Rightarrow> bool" where
  "holds N data off \<longleftrightarrow> length data = N \<and> unat off \<le> N"

lemma holds_put:
  assumes "holds N data off" "array_put (unat off) bytes data = Some data'" "length bytes = unat n"
    "N < 18446744073709551616"
  shows "holds N data' (off + n)"
proof -
  have "unat off + unat n \<le> N"
    using assms(1-3) by (auto simp: holds_def array_put_def split: if_splits)
  moreover from this have "unat (off + n) = unat off + unat n"
    using assms(4) by (intro unat_u64_plus_small) simp
  ultimately show ?thesis using assms(1-3) by (auto simp: holds_def array_put_def split: if_splits)
qed

lemma holds_pop:
  assumes "holds N data off" "array_pop (unat n) data = Some (bytes, data')" "n \<le> off"
  shows "holds N data' (off - n)"
  using assms by (auto simp: holds_def array_pop_def unat_u64_minus split: if_splits)

lemma truncate_count_le: "truncate_count limit n \<le> limit"
  by (simp add: truncate_count_def not_less)

section \<open>All buffers\<close>

definition pipe_typed :: "PipeBuffer \<Rightarrow> bool" where
  "pipe_typed pb \<longleftrightarrow> holds PIPE_BUFSZ (pipe_Data pb) (pipe_Offset pb)"

definition fifo_typed :: "nat \<Rightarrow> FIFOBuffer \<Rightarrow> bool" where
  "fifo_typed N f \<longleftrightarrow> holds N (fifo_Data f) (fifo_Offset f)"

definition sockets_typed :: "SocketBuffers \<Rightarrow> bool" where
  "sockets_typed sb \<longleftrightarrow>
     fifo_typed SOCKET_TX_BUFFER_SIZE (TXBuffer sb) \<and> fifo_typed SOCKET_RX_BUFFER_SIZE (RXBuffer sb)"

definition input_typed :: "InputBuffer \<Rightarrow> bool" where
  "input_typed ib \<longleftrightarrow> holds INPUT_BUFSZ (input_Data ib) (input_Offset ib)"

definition channels_typed :: "'d system \<Rightarrow> bool" where
  "channels_typed s \<longleftrightarrow>
     (\<forall>b. pipe_typed (pipe_buffers s b)) \<and> (\<forall>b. input_typed (input_buffers s b)) \<and>
     (\<forall>b sb. socket_buffers s b = Some sb \<longrightarrow> sockets_typed sb)"

lemma channels_typed_cong:
  "pipe_buffers s' = pipe_buffers s \<Longrightarrow> input_buffers s' = input_buffers s \<Longrightarrow>
   socket_buffers s' = socket_buffers s \<Longrightarrow> channels_typed s' = channels_typed s"
  by (simp add: channels_typed_def)

lemma channels_typed_wake_all [simp]: "channels_typed (wake_all v pids s) = channels_typed s"
  by (rule channels_typed_cong) simp_all

lemma channels_typed_upd_pipe:
  "channels_typed s \<Longrightarrow> pipe_typed (f (pipe_buffers s b)) \<Longrightarrow> channels_typed (upd_pipe b f s)"
  by (simp add: channels_typed_def upd_pipe_def)

lemma channels_typed_upd_input:
  "channels_typed s \<Longrightarrow> input_typed (f (input_buffers s b)) \<Longrightarrow> channels_typed (upd_input b f s)"
  by (simp add: channels_typed_def upd_input_def)

lemma channels_typed_upd_sockets:
  "channels_typed s \<Longrightarrow> sockets_typed sb \<Longrightarrow>
     channels_typed (s\<lparr>socket_buffers := (socket_buffers s)(b \<mapsto> sb)\<rparr>)"
  by (simp add: channels_typed_def)

lemma buffer_typed:
  assumes "channels_typed s"
  shows "pipe_typed (pipe_buffers s b)" "input_typed (input_buffers s b)"
    "socket_buffers s b = Some sb \<Longrightarrow> sockets_typed sb"
  using assms by (simp_all add: channels_typed_def)

section \<open>Pipes\<close>

text \<open>Updates that keep the array and the count keep the type.\<close>

lemma pipe_typed_lists [simp]:
  "pipe_typed (pb\<lparr>PIDsWaitingOnReadToWrite := ps\<rparr>) = pipe_typed pb"
  "pipe_typed (pb\<lparr>PIDsWaitingOnWriteToRead := ps\<rparr>) = pipe_typed pb"
  "pipe_typed (pb\<lparr>ReadClosed := c\<rparr>) = pipe_typed pb" "pipe_typed (pb\<lparr>WriteClosed := c\<rparr>) = pipe_typed pb"
  by (simp_all add: pipe_typed_def)

lemma pipe_typed_clear: "pipe_typed pb \<Longrightarrow> pipe_typed (pipe_clear pb)"
  by (simp add: pipe_typed_def pipe_clear_def holds_def)

lemma pipe_typed_new: "pipe_typed new_pipe_buffer"
  by (simp add: pipe_typed_def new_pipe_buffer_def holds_def)

lemma pipe_typed_upd [simp]: "channels_typed s \<Longrightarrow> pipe_typed (pipe_buffers (upd_pipe b f s) b) = pipe_typed (f (pipe_buffers s b))"
  by (simp add: upd_pipe_def)

lemma pipe_typed_put:
  "pipe_typed pb \<Longrightarrow> array_put (unat (pipe_Offset pb)) (user_bytes buffer n) (pipe_Data pb) = Some data \<Longrightarrow>
     pipe_typed (pb\<lparr>pipe_Data := data, pipe_Offset := pipe_Offset pb + n\<rparr>)"
  by (auto simp: pipe_typed_def PIPE_BUFSZ_def intro: holds_put)

lemma pipe_typed_pop:
  "pipe_typed pb \<Longrightarrow> array_pop (unat n) (pipe_Data pb) = Some (bytes, data) \<Longrightarrow> n \<le> pipe_Offset pb \<Longrightarrow>
     pipe_typed (pb\<lparr>pipe_Data := data, pipe_Offset := pipe_Offset pb - n\<rparr>)"
  by (auto simp: pipe_typed_def intro: holds_pop)

lemma pipe_read_typed:
  assumes "pipe_read m n s = Some (rc, bytes, s')" "channels_typed s"
  shows "channels_typed s'"
  using assms
  by (auto simp: pipe_read_def Let_def buffer_typed truncate_count_le split: if_splits bind_splits
      intro!: channels_typed_upd_pipe pipe_typed_pop)

lemma pipe_write_typed:
  assumes "pipe_write m n buffer s = Some (rc, s')" "channels_typed s"
  shows "channels_typed s'"
  using assms
  by (auto simp: pipe_write_def Let_def buffer_typed split: if_splits bind_splits
      intro!: channels_typed_upd_pipe pipe_typed_put)

lemma channels_typed_fields [simp]:
  "channels_typed (s\<lparr>pipe_ends := pe\<rparr>) = channels_typed s"
  "channels_typed (s\<lparr>FreePipeBuffers := bs\<rparr>) = channels_typed s"
  "channels_typed (s\<lparr>pipe_counter := k\<rparr>) = channels_typed s"
  "channels_typed (s\<lparr>metas := ms\<rparr>) = channels_typed s"
  "channels_typed (s\<lparr>next_obj := k\<rparr>) = channels_typed s"
  "channels_typed (s\<lparr>sockets := ss\<rparr>) = channels_typed s"
  "channels_typed (s\<lparr>Bindings := bd\<rparr>) = channels_typed s"
  "channels_typed (s\<lparr>InputBuffers := ib\<rparr>) = channels_typed s"
  "channels_typed (s\<lparr>FreeInputBuffers := bs\<rparr>) = channels_typed s"
  by (rule channels_typed_cong; simp)+

lemma pipe_close_typed:
  assumes "pipe_close m s = Some s'" "channels_typed s"
  shows "channels_typed s'"
  using assms
  by (auto simp: pipe_close_def Let_def buffer_typed split: if_splits bind_splits EndType.splits
      intro!: channels_typed_upd_pipe pipe_typed_clear)

lemma lay_pipe_typed: "channels_typed s \<Longrightarrow> channels_typed (snd (lay_pipe s))"
  by (simp add: lay_pipe_def new_obj_def Let_def)
     (simp add: channels_typed_def pipe_typed_new)

section \<open>Sockets\<close>

lemma fifo_read_typed:
  "fifo_read pid n f = Some (rc, bytes, pids, f') \<Longrightarrow> fifo_typed N f \<Longrightarrow> fifo_typed N f'"
  by (auto simp: fifo_read_def fifo_typed_def Let_def split: if_splits bind_splits
      intro!: holds_pop truncate_count_le)

lemma fifo_write_typed:
  "fifo_write pid n buffer f = Some (rc, pids, f') \<Longrightarrow> fifo_typed N f \<Longrightarrow> N < 18446744073709551616 \<Longrightarrow> fifo_typed N f'"
  by (auto simp: fifo_write_def fifo_typed_def Let_def split: if_splits bind_splits
      intro!: holds_put [OF _ _ length_user_bytes])

lemma fifo_sizes: "SOCKET_TX_BUFFER_SIZE < 18446744073709551616" "SOCKET_RX_BUFFER_SIZE < 18446744073709551616"
  by (simp_all add: SOCKET_TX_BUFFER_SIZE_def SOCKET_RX_BUFFER_SIZE_def)

lemma fifos_typed:
  assumes "channels_typed s" "socket_buffers s b = Some sb"
  shows "fifo_typed SOCKET_TX_BUFFER_SIZE (TXBuffer sb)" "fifo_typed SOCKET_RX_BUFFER_SIZE (RXBuffer sb)"
  using buffer_typed(3) [OF assms] by (simp_all add: sockets_typed_def)

lemma channels_typed_upd_fifo:
  assumes "channels_typed s" "socket_buffers s b = Some sb"
  shows "fifo_typed SOCKET_TX_BUFFER_SIZE f \<Longrightarrow>
           channels_typed (s\<lparr>socket_buffers := (socket_buffers s)(b \<mapsto> sb\<lparr>TXBuffer := f\<rparr>)\<rparr>)"
    and "fifo_typed SOCKET_RX_BUFFER_SIZE f \<Longrightarrow>
           channels_typed (s\<lparr>socket_buffers := (socket_buffers s)(b \<mapsto> sb\<lparr>RXBuffer := f\<rparr>)\<rparr>)"
  using buffer_typed(3) [OF assms] assms(1)
  by (simp_all add: channels_typed_upd_sockets sockets_typed_def)

lemma fifo_read_keeps:
  assumes "channels_typed s" "socket_buffers s b = Some sb"
  shows "fifo_read pid n (TXBuffer sb) = Some (rc, bytes, pids, f) \<Longrightarrow>
           channels_typed (s\<lparr>socket_buffers := (socket_buffers s)(b \<mapsto> sb\<lparr>TXBuffer := f\<rparr>)\<rparr>)"
    and "fifo_read pid n (RXBuffer sb) = Some (rc, bytes, pids, f) \<Longrightarrow>
           channels_typed (s\<lparr>socket_buffers := (socket_buffers s)(b \<mapsto> sb\<lparr>RXBuffer := f\<rparr>)\<rparr>)"
  using channels_typed_upd_fifo [OF assms] fifos_typed [OF assms] fifo_read_typed by blast+

lemma fifo_write_keeps:
  assumes "channels_typed s" "socket_buffers s b = Some sb"
  shows "fifo_write pid n buffer (TXBuffer sb) = Some (rc, pids, f) \<Longrightarrow>
           channels_typed (s\<lparr>socket_buffers := (socket_buffers s)(b \<mapsto> sb\<lparr>TXBuffer := f\<rparr>)\<rparr>)"
    and "fifo_write pid n buffer (RXBuffer sb) = Some (rc, pids, f) \<Longrightarrow>
           channels_typed (s\<lparr>socket_buffers := (socket_buffers s)(b \<mapsto> sb\<lparr>RXBuffer := f\<rparr>)\<rparr>)"
  using channels_typed_upd_fifo [OF assms] fifos_typed [OF assms] fifo_write_typed fifo_sizes by blast+

lemma socket_read_typed:
  assumes "socket_read m n s = Some (rc, bytes, s')" "channels_typed s"
  shows "channels_typed s'"
  using assms
  by (auto simp: socket_read_def Let_def fifo_read_keeps split: if_splits bind_splits ClientServerRole.splits)

lemma socket_write_typed:
  assumes "socket_write m n buffer s = Some (rc, s')" "channels_typed s"
  shows "channels_typed s'"
  using assms
  by (auto simp: socket_write_def Let_def fifo_write_keeps split: if_splits bind_splits ClientServerRole.splits)

lemma socket_close_typed:
  assumes "socket_close m s = Some s'" "channels_typed s"
  shows "channels_typed s'"
  using assms
  by (auto simp: socket_close_def socket_unbind_def Let_def split: if_splits bind_splits)
     (auto simp: channels_typed_def sockets_typed_def)

lemma socket_socket_typed:
  assumes "socket_socket domain s = Some (f, s')" "channels_typed s"
  shows "channels_typed s'"
  using assms
  by (auto simp: socket_socket_def socket_open_def new_obj_def Let_def split: if_splits bind_splits)
     (auto simp: channels_typed_def new_socket_buffers_def sockets_typed_def fifo_typed_def new_fifo_def
        holds_def)

section \<open>Keyboard input\<close>

lemma input_typed_put:
  "input_typed ib \<Longrightarrow> array_put (unat (input_Offset ib)) (user_bytes buffer n) (input_Data ib) = Some data \<Longrightarrow>
     input_typed (ib\<lparr>input_Data := data, input_Offset := input_Offset ib + n\<rparr>)"
  by (auto simp: input_typed_def INPUT_BUFSZ_def intro: holds_put)

lemma input_typed_pop:
  "input_typed ib \<Longrightarrow> array_pop (unat n) (input_Data ib) = Some (bytes, data) \<Longrightarrow> n \<le> input_Offset ib \<Longrightarrow>
     input_typed (ib\<lparr>input_Data := data, input_Offset := input_Offset ib - n\<rparr>)"
  by (auto simp: input_typed_def intro: holds_pop)

lemma input_typed_lists [simp]: "input_typed (ib\<lparr>PIDsWaiting := ps\<rparr>) = input_typed ib"
  by (simp add: input_typed_def)

lemma input_read_typed:
  assumes "input_read m n s = Some (rc, bytes, s')" "channels_typed s"
  shows "channels_typed s'"
  using assms
  by (auto simp: input_read_def Let_def buffer_typed truncate_count_le split: if_splits bind_splits
      intro!: channels_typed_upd_input input_typed_pop)

lemma input_write_typed:
  assumes "input_write m n buffer s = Some (rc, s')" "channels_typed s"
  shows "channels_typed s'"
  using assms
  by (auto simp: input_write_def Let_def buffer_typed split: if_splits bind_splits
      intro!: channels_typed_upd_input input_typed_put)

lemma input_open_typed: "channels_typed s \<Longrightarrow> channels_typed (snd (input_open path s))"
  by (auto simp: input_open_def new_obj_def Let_def split: option.splits)
     (auto simp: channels_typed_def input_typed_def holds_def)

lemma input_close_typed: "input_close m s = Some s' \<Longrightarrow> channels_typed s \<Longrightarrow> channels_typed s'"
  by (auto simp: input_close_def split: if_splits bind_splits)

section \<open>Any sequence of calls\<close>

inductive channel_step :: "'d system \<Rightarrow> 'd system \<Rightarrow> bool" where
  "pipe_read m n s = Some (rc, bytes, s') \<Longrightarrow> channel_step s s'"
| "pipe_write m n buffer s = Some (rc, s') \<Longrightarrow> channel_step s s'"
| "pipe_close m s = Some s' \<Longrightarrow> channel_step s s'"
| "channel_step s (snd (lay_pipe s))"
| "socket_socket domain s = Some (m, s') \<Longrightarrow> channel_step s s'"
| "socket_read m n s = Some (rc, bytes, s') \<Longrightarrow> channel_step s s'"
| "socket_write m n buffer s = Some (rc, s') \<Longrightarrow> channel_step s s'"
| "socket_close m s = Some s' \<Longrightarrow> channel_step s s'"
| "channel_step s (snd (input_open path s))"
| "input_read m n s = Some (rc, bytes, s') \<Longrightarrow> channel_step s s'"
| "input_write m n buffer s = Some (rc, s') \<Longrightarrow> channel_step s s'"
| "input_close m s = Some s' \<Longrightarrow> channel_step s s'"

lemma channel_step_typed: "channel_step s s' \<Longrightarrow> channels_typed s \<Longrightarrow> channels_typed s'"
  by (induction rule: channel_step.induct)
     (auto intro: pipe_read_typed pipe_write_typed pipe_close_typed lay_pipe_typed socket_socket_typed
       socket_read_typed socket_write_typed socket_close_typed input_open_typed input_read_typed
       input_write_typed input_close_typed)


lemma example_two_typed: "channels_typed example_two"
  by (simp add: example_two_def blank_system_def channels_typed_def pipe_typed_new input_typed_def holds_def)


end
