(* ===== verification/KernelMemory.thy ===== *)
theory KernelMemory
  imports Elf
begin

text \<open>
  The byte-moving routines of \<open>kernel/src/memory.cpp\<close>: \<open>memcmp\<close>, \<open>memcpy\<close>, \<open>memset\<close> and
  \<open>memmove\<close>. Memory is a function from addresses to bytes. \<open>memcpy\<close> moves chunks of 2048,
  128, 32 and 8 bytes and finishes byte by byte; the theory shows that this is one copy of the
  whole range, the effect \<open>memcpy_ram\<close> and \<open>memset_ram\<close> that the other components use, and
  that \<open>memmove\<close> copies overlapping ranges correctly in either direction.
\<close>

type_synonym memory = "u64 \<Rightarrow> u8"

section \<open>The routines\<close>

text \<open>
  \<open>copy_block k d s\<close> is the assignment of one \<open>k\<close>-byte object: all of the source is read before
  the destination is written.
\<close>

definition copy_block :: "nat \<Rightarrow> u64 \<Rightarrow> u64 \<Rightarrow> memory \<Rightarrow> memory" where
  "copy_block k d s m = (\<lambda>a. if unat (a - d) < k then m (s + (a - d)) else m a)"

text \<open>One \<open>for\<close> loop of \<open>memcpy\<close>: the signed counter and the memory after the loop.\<close>

function copy_loop :: "nat \<Rightarrow> u64 \<Rightarrow> u64 \<Rightarrow> int \<Rightarrow> int \<Rightarrow> memory \<Rightarrow> int \<times> memory" where
  "copy_loop k d s n i m =
     (if 0 < k \<and> i \<le> n - int k
      then copy_loop k d s n (i + int k) (copy_block k (d + of_int i) (s + of_int i) m)
      else (i, m))"
  by auto
termination
  by (relation "measure (\<lambda>(k, d, s, n, i, m). nat (n - i))") auto

declare copy_loop.simps [simp del]

text \<open>
  \<open>None\<close> is the signed overflow of \<open>(s64)numBytes - 2048\<close>.
\<close>

definition memcpy :: "u64 \<Rightarrow> u64 \<Rightarrow> u64 \<Rightarrow> memory \<Rightarrow> (u64 \<times> memory) option" where
  "memcpy dest src numBytes m =
     (if src = dest then Some (dest, m)
      else let n = sint numBytes in
        if n - 2048 < - (2 ^ 63) then None
        else
          let (i, m) = copy_loop 2048 dest src n 0 m;
              (i, m) = copy_loop 128 dest src n i m;
              (i, m) = copy_loop 32 dest src n i m;
              (i, m) = copy_loop 8 dest src n i m;
              (i, m) = copy_loop 1 dest src n i m
          in Some (dest, m))"

fun memcmp_loop :: "u64 \<Rightarrow> u64 \<Rightarrow> nat \<Rightarrow> memory \<Rightarrow> int" where
  "memcmp_loop a b 0 m = 0"
| "memcmp_loop a b (Suc n) m = (if m a \<noteq> m b then 1 else memcmp_loop (a + 1) (b + 1) n m)"

definition memcmp :: "u64 \<Rightarrow> u64 \<Rightarrow> u64 \<Rightarrow> memory \<Rightarrow> int" where
  "memcmp aPtr bPtr numBytes m =
     (if aPtr = bPtr then 0 else memcmp_loop aPtr bPtr (unat numBytes) m)"

text \<open>The value of eight copies of a byte, and its little-endian store.\<close>

definition qword_value :: "u8 \<Rightarrow> u64" where
  "qword_value v =
     (let x = ucast v :: u64
      in 0 OR push_bit 0 x OR push_bit 8 x OR push_bit 16 x OR push_bit 24 x OR push_bit 32 x
           OR push_bit 40 x OR push_bit 48 x OR push_bit 56 x)"

definition store_u64 :: "u64 \<Rightarrow> u64 \<Rightarrow> memory \<Rightarrow> memory" where
  "store_u64 d v m =
     (\<lambda>a. if unat (a - d) < 8 then ucast (drop_bit (8 * unat (a - d)) v) else m a)"

function memset_qwords :: "u64 \<Rightarrow> u64 \<Rightarrow> u64 \<Rightarrow> nat \<Rightarrow> memory \<Rightarrow> memory" where
  "memset_qwords start q n i m =
     (if i \<le> unat (n - 8)
      then memset_qwords start q n (i + 8) (store_u64 (start + of_nat i) q m)
      else m)"
  by auto
termination
  by (relation "measure (\<lambda>(start, q, n, i, m). Suc (unat (n - 8)) - i)") auto

declare memset_qwords.simps [simp del]

fun memset_bytes :: "u64 \<Rightarrow> u8 \<Rightarrow> nat \<Rightarrow> memory \<Rightarrow> memory" where
  "memset_bytes start v 0 m = m"
| "memset_bytes start v (Suc n) m = (memset_bytes start v n m)(start + of_nat n := v)"

definition memset :: "u64 \<Rightarrow> u8 \<Rightarrow> u64 \<Rightarrow> memory \<Rightarrow> memory" where
  "memset start v numBytes m =
     (let m1 = if 256 \<le> numBytes then memset_qwords start (qword_value v) numBytes 0 m else m
      in memset_bytes start v (unat numBytes) m1)"

fun memmove_down :: "u64 \<Rightarrow> u64 \<Rightarrow> nat \<Rightarrow> memory \<Rightarrow> memory" where
  "memmove_down dst src 0 m = m"
| "memmove_down dst src (Suc i) m =
     memmove_down dst src i (m(dst + of_nat i := m (src + of_nat i)))"

definition memmove :: "u64 \<Rightarrow> u64 \<Rightarrow> u64 \<Rightarrow> memory \<Rightarrow> (u64 \<times> memory) option" where
  "memmove dst src num m =
     (if num = 0 \<or> src = dst then Some (dst, m)
      else if dst < src then memcpy dst src num m
      else Some (dst, memmove_down dst src (unat num) m))"

section \<open>Copying forwards\<close>

text \<open>
  A forward copy is safe when no source byte lies in the part of the destination that was
  written before it is read.
\<close>

definition forward_ok :: "u64 \<Rightarrow> u64 \<Rightarrow> nat \<Rightarrow> bool" where
  "forward_ok d s n \<longleftrightarrow> (\<forall>j < n. j \<le> unat (s + of_nat j - d))"

lemma copy_block_0 [simp]: "copy_block 0 d s m = m"
  by (simp add: copy_block_def)

lemma copy_block_same [simp]: "copy_block k d d m = m"
  by (auto simp: copy_block_def)

lemma memcpy_ram_block: "memcpy_ram d s n m = copy_block (unat n) d s m"
  by (auto simp: memcpy_ram_def copy_block_def word_less_nat_alt)

lemma unat_offset:
  fixes a d :: u64
  assumes "i \<le> unat (a - d)"
  shows "unat (a - (d + of_nat i)) = unat (a - d) - i"
proof -
  have i: "i < 18446744073709551616" using assms unat_less_2_64 [of "a - d"] by linarith
  have e: "a - (d + of_nat i) = (a - d) - of_nat i" by simp
  have "(of_nat i :: u64) \<le> a - d"
    using assms i by (simp add: word_le_nat_alt unat_of_nat_u64)
  then show ?thesis unfolding e using i by (simp add: unat_sub unat_of_nat_u64)
qed

lemma unat_before_offset:
  fixes a d :: u64
  assumes "unat (a - d) < i" "i + k \<le> 18446744073709551616"
  shows "k \<le> unat (a - (d + of_nat i))"
proof -
  have e: "a - (d + of_nat i) = (a - d) - of_nat i" by simp
  show ?thesis
  proof (cases "i < 18446744073709551616")
    case True
    then have "unat (of_nat i :: u64) = i" by (rule unat_of_nat_u64)
    with assms show ?thesis unfolding e unat_sub_if' by simp
  qed (use assms in simp)
qed

lemma copy_block_append:
  assumes "forward_ok d s (i + k)" "i + k \<le> 18446744073709551616"
  shows "copy_block k (d + of_nat i) (s + of_nat i) (copy_block i d s m) = copy_block (i + k) d s m"
proof
  fix a
  show "copy_block k (d + of_nat i) (s + of_nat i) (copy_block i d s m) a
      = copy_block (i + k) d s m a"
  proof (cases "unat (a - d) < i")
    case True
    then have "\<not> unat (a - (d + of_nat i)) < k"
      using unat_before_offset [OF _ assms(2)] by (simp add: not_less)
    with True show ?thesis by (simp add: copy_block_def)
  next
    case False
    then have o: "unat (a - (d + of_nat i)) = unat (a - d) - i" by (simp add: unat_offset)
    define j where "j = unat (a - d)"
    have src: "s + of_nat i + (a - (d + of_nat i)) = s + of_nat j"
      by (simp add: j_def)
    have "i \<le> unat (s + of_nat j - d)" if "j < i + k"
      using assms(1) that False by (force simp: forward_ok_def j_def)
    with False o src show ?thesis by (auto simp: copy_block_def j_def)
  qed
qed

lemma copy_loop_block:
  assumes "forward_ok d s n" "n \<le> 18446744073709551616" "i \<le> n" "0 < k"
  shows "\<exists>i'. copy_loop k d s (int n) (int i) (copy_block i d s m)
                = (int i', copy_block i' d s m) \<and> i' \<le> n \<and> n < i' + k"
  using assms(3)
proof (induction "n - i" arbitrary: i rule: less_induct)
  case less
  show ?case
  proof (cases "i + k \<le> n")
    case True
    have "forward_ok d s (i + k)" using assms(1) True by (auto simp: forward_ok_def)
    then have "copy_loop k d s (int n) (int i) (copy_block i d s m)
        = copy_loop k d s (int n) (int (i + k)) (copy_block (i + k) d s m)"
      using True assms(2,4) by (subst copy_loop.simps) (simp add: copy_block_append)
    then show ?thesis using less.hyps [of "i + k"] True assms(4) by simp
  next
    case False
    then have "copy_loop k d s (int n) (int i) (copy_block i d s m)
        = (int i, copy_block i d s m)"
      using assms(4) by (subst copy_loop.simps) simp
    with False less.prems show ?thesis by auto
  qed
qed

lemma memcpy_forward:
  assumes "forward_ok dest src (unat n)" "unat n < 9223372036854775808"
  shows "memcpy dest src n m = Some (dest, copy_block (unat n) dest src m)"
proof (cases "src = dest")
  case False
  let ?n = "unat n" and ?b = "\<lambda>i. copy_block i dest src m"
  let ?L = "\<lambda>k i. copy_loop k dest src (int ?n) (int i) (?b i)"
  have N: "?n \<le> 18446744073709551616" using assms(2) by linarith
  note L = copy_loop_block [OF assms(1) N, of _ _ m]
  obtain i1 where 1: "?L 2048 0 = (int i1, ?b i1)" "i1 \<le> ?n" using L [of 0 2048] by auto
  obtain i2 where 2: "?L 128 i1 = (int i2, ?b i2)" "i2 \<le> ?n" using L [of i1 128] 1 by auto
  obtain i3 where 3: "?L 32 i2 = (int i3, ?b i3)" "i3 \<le> ?n" using L [of i2 32] 2 by auto
  obtain i4 where 4: "?L 8 i3 = (int i4, ?b i4)" "i4 \<le> ?n" using L [of i3 8] 3 by auto
  obtain i5 where 5: "?L 1 i4 = (int i5, ?b i5)" "i5 \<le> ?n" "?n < i5 + 1"
    using L [of i4 1] 4 by auto
  then have 6: "i5 = ?n" by linarith
  have nn: "\<not> 9223372036854773760 + uint n < 0" using uint_ge_0 [of n] by linarith
  show ?thesis
    using False nn 1(1) 2(1) 3(1) 4(1) 5(1) [unfolded 6]
    by (simp add: memcpy_def sint_u64_small [OF assms(2)] Let_def)
qed (simp add: memcpy_def)

lemma forward_ok_disjoint:
  assumes "unat src + unat n \<le> unat dest \<or> unat dest + unat n \<le> unat src"
    and "unat dest + unat n \<le> 18446744073709551616" "unat src + unat n \<le> 18446744073709551616"
  shows "forward_ok dest src (unat n)"
  unfolding forward_ok_def
proof (intro allI impI)
  fix j assume j: "j < unat n"
  have b: "unat src + j < 18446744073709551616" using j assms(3) by linarith
  have o: "unat (of_nat j :: u64) = j" using b by (simp add: unat_of_nat_u64)
  have s: "unat (src + of_nat j) = unat src + j" using b o by (simp add: unat_u64_plus_small)
  show "j \<le> unat (src + of_nat j - dest)"
    unfolding unat_sub_if' s using assms(1,2) j by (simp split: if_split) linarith
qed

lemma forward_ok_above:
  assumes "dest \<le> src" "unat src + n \<le> 18446744073709551616"
  shows "forward_ok dest src n"
  unfolding forward_ok_def
proof (intro allI impI)
  fix j assume j: "j < n"
  have l: "unat dest \<le> unat src" using assms(1) by (simp add: word_le_nat_alt)
  have b: "unat src + j < 18446744073709551616" using j assms(2) by linarith
  have o: "unat (of_nat j :: u64) = j" using b by (simp add: unat_of_nat_u64)
  have s: "unat (src + of_nat j) = unat src + j" using b o by (simp add: unat_u64_plus_small)
  have "dest \<le> src + of_nat j" using l s by (simp add: word_le_nat_alt)
  then have "unat (src + of_nat j - dest) = unat src + j - unat dest" using s by (simp add: unat_sub)
  with l show "j \<le> unat (src + of_nat j - dest)" by linarith
qed

section \<open>Copying backwards\<close>

lemma memmove_down_block:
  assumes "src < dst" "unat dst + n \<le> 18446744073709551616" "i \<le> n"
  shows "memmove_down dst src i
           (\<lambda>a. if i \<le> unat (a - dst) \<and> unat (a - dst) < n then m (src + (a - dst)) else m a)
         = copy_block n dst src m"
  using assms(3)
proof (induction i)
  case (Suc i)
  let ?f = "\<lambda>i a. if i \<le> unat (a - dst) \<and> unat (a - dst) < n then m (src + (a - dst)) else m a"
  have l: "unat src < unat dst" using assms(1) by (simp add: word_less_nat_alt)
  have b: "unat src + i < 18446744073709551616" "unat dst + i < 18446744073709551616"
    using Suc.prems assms(2) l by linarith+
  have o: "unat (of_nat i :: u64) = i" using b by (simp add: unat_of_nat_u64)
  have s: "unat (src + of_nat i) = unat src + i" using b o by (simp add: unat_u64_plus_small)
  have "\<not> (Suc i \<le> unat (src + of_nat i - dst) \<and> unat (src + of_nat i - dst) < n)"
    unfolding unat_sub_if' s using l assms(2) by (simp split: if_split) linarith
  then have r: "?f (Suc i) (src + of_nat i) = m (src + of_nat i)" by (rule if_not_P)
  have "(?f (Suc i))(dst + of_nat i := m (src + of_nat i)) = ?f i"
  proof
    fix a
    have "a = dst + of_nat i \<longleftrightarrow> unat (a - dst) = i"
      using o by (metis add_diff_cancel_left' diff_add_cancel add.commute word_unat_eq_iff)
    then show "((?f (Suc i))(dst + of_nat i := m (src + of_nat i))) a = ?f i a"
      using Suc.prems by (auto simp: Suc_le_eq)
  qed
  with r Suc show ?case by simp
qed (simp add: copy_block_def)

lemma memmove_down_copies:
  assumes "src < dst" "unat dst + n \<le> 18446744073709551616"
  shows "memmove_down dst src n m = copy_block n dst src m"
proof -
  have "(\<lambda>a. if n \<le> unat (a - dst) \<and> unat (a - dst) < n then m (src + (a - dst)) else m a) = m"
    by (intro ext if_not_P) linarith
  with memmove_down_block [OF assms order_refl, of m] show ?thesis by simp
qed

section \<open>Setting\<close>

lemma memset_bytes_block:
  "n \<le> 18446744073709551616 \<Longrightarrow>
     memset_bytes start v n m = (\<lambda>a. if unat (a - start) < n then v else m a)"
proof (induction n)
  case (Suc n)
  have o: "unat (of_nat n :: u64) = n" using Suc.prems by (simp add: unat_of_nat_u64)
  have "a = start + of_nat n \<longleftrightarrow> unat (a - start) = n" for a
    using o by (metis add_diff_cancel_left' diff_add_cancel add.commute word_unat_eq_iff)
  with Suc show ?case by (auto simp: less_Suc_eq)
qed simp

lemma store_u64_outside: "8 \<le> unat (a - d) \<Longrightarrow> store_u64 d v m a = m a"
  by (simp add: store_u64_def)

lemma memset_qwords_outside:
  assumes "8 \<le> unat n" "unat n \<le> unat (a - start)"
  shows "memset_qwords start q n i m a = m a"
proof (induction "Suc (unat n) - i" arbitrary: i m rule: less_induct)
  case less
  have u: "unat (n - 8) = unat n - 8" using assms(1) by (simp add: unat_sub word_le_nat_alt)
  show ?case
  proof (cases "i \<le> unat (n - 8)")
    case True
    then have i: "i + 8 \<le> unat n" using u assms(1) by linarith
    then have "unat (a - (start + of_nat i)) = unat (a - start) - i"
      using assms(2) by (intro unat_offset) linarith
    then have "8 \<le> unat (a - (start + of_nat i))" using i assms(2) by linarith
    moreover have "Suc (unat n) - (i + 8) < Suc (unat n) - i" using i by linarith
    ultimately show ?thesis
      using True by (subst memset_qwords.simps) (simp add: less store_u64_outside)
  next
    case False
    then show ?thesis by (subst memset_qwords.simps) simp
  qed
qed

text \<open>\<open>memset\<close> fills exactly its range, for every length and without any alignment.\<close>

lemma memset_fills:
  "memset start v n m = (\<lambda>a. if a - start < n then v else m a)"
proof -
  have n: "unat n \<le> 18446744073709551616" using unat_less_2_64 [of n] by linarith
  have o: "memset_qwords start q n 0 m a = m a" if "256 \<le> n" "\<not> unat (a - start) < unat n" for q a
  proof -
    have "256 \<le> unat n" using that(1) by (simp add: word_le_nat_alt)
    then show ?thesis using that(2) by (intro memset_qwords_outside) linarith+
  qed
  show ?thesis
    unfolding memset_def Let_def memset_bytes_block [OF n] word_less_nat_alt by (auto simp: o)
qed

lemma memset_zero_ram: "memset start 0 n m = memset_ram start n m"
  by (simp add: memset_fills memset_ram_def)

section \<open>Comparing\<close>

lemma memcmp_loop_0_iff: "memcmp_loop a b n m = 0 \<longleftrightarrow> (\<forall>i < n. m (a + of_nat i) = m (b + of_nat i))"
proof (induction n arbitrary: a b)
  case (Suc n)
  have "(\<forall>i < Suc n. m (a + of_nat i) = m (b + of_nat i)) \<longleftrightarrow>
      m a = m b \<and> (\<forall>i < n. m (a + 1 + of_nat i) = m (b + 1 + of_nat i))"
    by (simp add: All_less_Suc2 add.assoc)
  with Suc show ?case by simp
qed simp

lemma memcmp_0_iff:
  "memcmp a b n m = 0 \<longleftrightarrow> (\<forall>i < unat n. m (a + of_nat i) = m (b + of_nat i))"
  by (simp add: memcmp_def memcmp_loop_0_iff)

section \<open>Properties\<close>

text \<open>
  C31: \<open>memmove\<close> of a range that does not run past the end of the address space leaves the
  destination holding the bytes the source held before the call, and every other byte as it was,
  however the two ranges overlap: copying in chunks upwards or byte by byte downwards is one
  simultaneous copy.
\<close>

theorem memmove_copies:
  assumes "unat dst + unat num \<le> 2 ^ 64" "unat src + unat num \<le> 2 ^ 64" "unat num < 2 ^ 63"
  shows "memmove dst src num m = Some (dst, memcpy_ram dst src num m)"
proof (cases "dst < src")
  case True
  then show ?thesis
    using assms forward_ok_above [of dst src "unat num"]
    by (auto simp: memmove_def memcpy_forward memcpy_ram_block)
next
  case False
  then show ?thesis
    using assms memmove_down_copies [of src dst "unat num" m]
    by (auto simp: memmove_def memcpy_ram_block)
qed

theorem memmove_copies_witness:
  "memmove 0x1004 0x1000 6 (\<lambda>a. ucast a) = Some (0x1004, memcpy_ram 0x1004 0x1000 6 (\<lambda>a. ucast a))
   \<and> memmove 0x1000 0x1004 6 (\<lambda>a. ucast a) = Some (0x1000, memcpy_ram 0x1000 0x1004 6 (\<lambda>a. ucast a))"
  using memmove_copies [of "0x1004" 6 "0x1000" "\<lambda>a. ucast a"]
    memmove_copies [of "0x1000" 6 "0x1004" "\<lambda>a. ucast a"] by simp

end
