(* ===== verification/SpinlockModel.thy ===== *)
theory SpinlockModel
  imports LensorPrelude
begin

text \<open>
  The spinlock of \<open>kernel/src/spinlock.cpp\<close>: the two atomic operations, the loop of
  \<open>SpinlockLocker::lock\<close>, and threads that construct and destroy lockers of one lock in any
  interleaving. The loop repeats while the exchange reports success, so it ends exactly when the
  lock was found taken: locking never waits, and the lock excludes nobody.
\<close>

section \<open>The lock\<close>

record Spinlock =
  locked :: bool

definition Spinlock_init :: Spinlock where
  "Spinlock_init = \<lparr>locked = False\<rparr>"

text \<open>
  \<open>lock cmpxchg\<close> with \<open>false\<close> expected and \<open>true\<close> as the new value; \<open>sete\<close> returns whether the
  exchange happened. \<open>lock xchg\<close> returns the old value.
\<close>

definition compare_and_swap_lock :: "Spinlock \<Rightarrow> bool \<times> Spinlock" where
  "compare_and_swap_lock l = (if locked l = False then (True, l\<lparr>locked := True\<rparr>) else (False, l))"

definition test_and_set_lock :: "Spinlock \<Rightarrow> bool \<times> Spinlock" where
  "test_and_set_lock l = (locked l, l\<lparr>locked := True\<rparr>)"

definition unlock :: "Spinlock \<Rightarrow> Spinlock" where
  "unlock l = l\<lparr>locked := False\<rparr>"

text \<open>\<open>while (compare_and_swap_lock() == true);\<close> run without interference.\<close>

function lock :: "Spinlock \<Rightarrow> Spinlock" where
  "lock l = (let (acquired, l') = compare_and_swap_lock l in if acquired = True then lock l' else l')"
  by auto
termination
  by (relation "measure (\<lambda>l. if locked l then 0 else 1)")
     (auto simp: compare_and_swap_lock_def split: if_splits)

declare lock.simps [simp del]

section \<open>Threads\<close>

text \<open>
  A thread is outside, in the loop of the locker's constructor, or past it. One evaluation of the
  loop condition is atomic; the threads take turns arbitrarily.
\<close>

datatype locker = Outside | Locking | Inside

record lock_state =
  the_lock :: Spinlock
  lockers :: "nat \<Rightarrow> locker"

definition locks_init :: lock_state where
  "locks_init = \<lparr>the_lock = Spinlock_init, lockers = (\<lambda>_. Outside)\<rparr>"

definition locker_construct :: "nat \<Rightarrow> lock_state \<Rightarrow> lock_state" where
  "locker_construct t s = s\<lparr>lockers := (lockers s)(t := Locking)\<rparr>"

definition locker_spin :: "nat \<Rightarrow> lock_state \<Rightarrow> lock_state" where
  "locker_spin t s =
     (let (acquired, l) = compare_and_swap_lock (the_lock s)
      in s\<lparr>the_lock := l, lockers := (lockers s)(t := if acquired = True then Locking else Inside)\<rparr>)"

definition locker_destroy :: "nat \<Rightarrow> lock_state \<Rightarrow> lock_state" where
  "locker_destroy t s = s\<lparr>the_lock := unlock (the_lock s), lockers := (lockers s)(t := Outside)\<rparr>"

inductive lock_step :: "lock_state \<Rightarrow> lock_state \<Rightarrow> bool" where
  construct: "lockers s t = Outside \<Longrightarrow> lock_step s (locker_construct t s)"
| spin: "lockers s t = Locking \<Longrightarrow> lock_step s (locker_spin t s)"
| destroy: "lockers s t = Inside \<Longrightarrow> lock_step s (locker_destroy t s)"

inductive_cases lock_stepE: "lock_step s s'"

definition inside :: "lock_state \<Rightarrow> nat set" where
  "inside s = {t. lockers s t = Inside}"

lemmas lock_defs = compare_and_swap_lock_def locker_construct_def locker_spin_def
  locker_destroy_def unlock_def

section \<open>Locking never waits\<close>

lemma lock_locks: "lock l = l\<lparr>locked := True\<rparr>"
  by (cases "locked l")
     (simp_all add: lock.simps [of l] lock.simps [of "l\<lparr>locked := True\<rparr>"] compare_and_swap_lock_def)

lemma locker_spin_taken:
  "locked (the_lock s) \<Longrightarrow> locker_spin t s = s\<lparr>lockers := (lockers s)(t := Inside)\<rparr>"
  by (simp add: lock_defs)

lemma locker_spin_free:
  "\<not> locked (the_lock s) \<Longrightarrow>
     locker_spin t s = s\<lparr>the_lock := (the_lock s)\<lparr>locked := True\<rparr>, lockers := (lockers s)(t := Locking)\<rparr>"
  by (simp add: lock_defs)

text \<open>A thread in the loop is past it after at most two of its own steps.\<close>

lemma locking_gets_inside:
  assumes "lockers s t = Locking"
  shows "\<exists>s'. lock_step\<^sup>*\<^sup>* s s' \<and> lockers s' = (lockers s)(t := Inside) \<and> locked (the_lock s')"
proof (cases "locked (the_lock s)")
  case True
  then show ?thesis
    using lock_step.spin [OF assms] by (auto simp: locker_spin_taken intro!: exI r_into_rtranclp)
next
  case False
  let ?s = "locker_spin t s"
  have "lock_step s ?s" by (rule lock_step.spin [OF assms])
  moreover have "lock_step ?s (locker_spin t ?s)"
    using False by (intro lock_step.spin) (simp add: locker_spin_free)
  ultimately have "lock_step\<^sup>*\<^sup>* s (locker_spin t ?s)" by (meson converse_rtranclp_into_rtranclp r_into_rtranclp)
  then show ?thesis
    using False by (intro exI [of _ "locker_spin t ?s"]) (simp add: locker_spin_free locker_spin_taken)
qed

lemma outside_gets_inside:
  assumes "lockers s t = Outside"
  shows "\<exists>s'. lock_step\<^sup>*\<^sup>* s s' \<and> lockers s' = (lockers s)(t := Inside) \<and> locked (the_lock s')"
proof -
  have "lock_step s (locker_construct t s)" by (rule lock_step.construct [OF assms])
  moreover obtain s' where "lock_step\<^sup>*\<^sup>* (locker_construct t s) s'"
      "lockers s' = (lockers (locker_construct t s))(t := Inside)" "locked (the_lock s')"
    using locking_gets_inside [of "locker_construct t s" t] by (auto simp: locker_construct_def)
  ultimately show ?thesis
    by (intro exI [of _ s']) (auto simp: locker_construct_def intro: converse_rtranclp_into_rtranclp)
qed

lemma inside_can_grow: "\<exists>s'. lock_step\<^sup>*\<^sup>* s s' \<and> inside s' = insert t (inside s)"
proof (cases "lockers s t")
  case Outside
  then obtain s' where "lock_step\<^sup>*\<^sup>* s s'" "lockers s' = (lockers s)(t := Inside)"
    using outside_gets_inside by blast
  then show ?thesis by (intro exI [of _ s']) (auto simp: inside_def)
next
  case Locking
  then obtain s' where "lock_step\<^sup>*\<^sup>* s s'" "lockers s' = (lockers s)(t := Inside)"
    using locking_gets_inside by blast
  then show ?thesis by (intro exI [of _ s']) (auto simp: inside_def)
next
  case Inside
  then show ?thesis by (intro exI [of _ s]) (auto simp: inside_def)
qed

section \<open>Properties\<close>

text \<open>
  C38: the lock gives no mutual exclusion. For every finite set of threads there is an
  interleaving, from the free lock, after which exactly these threads are past the constructor of
  their locker at the same time.
\<close>

theorem spinlock_excludes_nobody:
  "finite T \<Longrightarrow> \<exists>s. lock_step\<^sup>*\<^sup>* locks_init s \<and> inside s = T"
proof (induction T rule: finite_induct)
  case empty
  show ?case by (intro exI [of _ locks_init]) (simp add: inside_def locks_init_def)
next
  case (insert t T)
  then obtain s where "lock_step\<^sup>*\<^sup>* locks_init s" "inside s = T" by blast
  moreover obtain s' where "lock_step\<^sup>*\<^sup>* s s'" "inside s' = insert t (inside s)"
    using inside_can_grow by blast
  ultimately show ?case by (metis rtranclp_trans)
qed

theorem spinlock_excludes_nobody_witness:
  "\<exists>s. lock_step\<^sup>*\<^sup>* locks_init s \<and> inside s = {0, 1, 2}"
  using spinlock_excludes_nobody [of "{0, 1, 2}"] by simp

end
