(* ===== verification/Storage.thy ===== *)
theory Storage
  imports Elf
begin

text \<open>
  Storage devices: the command structures of \<open>kernel/src/ahci.h\<close>, the driver of a SATA port
  (\<open>storage/device_drivers/port_controller.cpp\<close>) and the partition driver
  (\<open>storage/device_drivers/gpt_partition.h\<close>).

  The controller and the disk behind it are hardware: the parameter \<open>hba\<close> says how the port stops
  and starts executing commands, whether it stays busy for the polls the driver is willing to make, and what issuing a command does to the
  device and to the buffer the command points to.  \<open>ata_disk\<close> is what the ATA standard promises
  of a disk that executes DMA transfers.
\<close>

section \<open>Command structures\<close>

record FIS_REG_H2D =
  fis_Type :: u8
  CommandControl :: bool
  Command :: u8
  LBA0 :: u8
  LBA1 :: u8
  LBA2 :: u8
  DeviceRegister :: u8
  LBA3 :: u8
  LBA4 :: u8
  LBA5 :: u8
  CountLow :: u8
  CountHigh :: u8

definition set_logical_block_addresses :: "u64 \<Rightarrow> FIS_REG_H2D \<Rightarrow> FIS_REG_H2D" where
  "set_logical_block_addresses sector fis =
     (let sectorLow = ucast sector :: u32;
          sectorHigh = ucast (drop_bit 32 sector) :: u32
      in fis\<lparr>LBA0 := ucast sectorLow,
             LBA1 := ucast (drop_bit 8 sectorLow),
             LBA2 := ucast (drop_bit 16 sectorLow),
             LBA3 := ucast sectorHigh,
             LBA4 := ucast (drop_bit 8 sectorHigh),
             LBA5 := ucast (drop_bit 16 sectorHigh)\<rparr>)"

definition set_count :: "u16 \<Rightarrow> FIS_REG_H2D \<Rightarrow> FIS_REG_H2D" where
  "set_count newCount fis = fis\<lparr>CountLow := ucast newCount, CountHigh := ucast (drop_bit 8 newCount)\<rparr>"

definition fis_count :: "FIS_REG_H2D \<Rightarrow> u16" where
  "fis_count fis = ucast (CountLow fis) + push_bit 8 (ucast (CountHigh fis))"

record HBA_PRDTEntry =
  DataBaseAddress :: u32
  DataBaseAddressUpper :: u32
  Information :: u32

definition set_data_base :: "u64 \<Rightarrow> HBA_PRDTEntry \<Rightarrow> HBA_PRDTEntry" where
  "set_data_base a e = e\<lparr>DataBaseAddress := ucast a, DataBaseAddressUpper := ucast (drop_bit 32 a)\<rparr>"

definition data_base :: "HBA_PRDTEntry \<Rightarrow> u64" where
  "data_base e = ucast (DataBaseAddress e) + push_bit 32 (ucast (DataBaseAddressUpper e))"

definition set_byte_count :: "u32 \<Rightarrow> HBA_PRDTEntry \<Rightarrow> HBA_PRDTEntry" where
  "set_byte_count newByteCount e =
     e\<lparr>Information := (Information e AND NOT 0x3fffff) OR (newByteCount AND 0x3fffff)\<rparr>"

definition byte_count :: "HBA_PRDTEntry \<Rightarrow> u32" where
  "byte_count e = Information e AND 0x3fffff"

definition set_interrupt_on_completion :: "bool \<Rightarrow> HBA_PRDTEntry \<Rightarrow> HBA_PRDTEntry" where
  "set_interrupt_on_completion v e =
     (let i = Information e AND NOT 0x80000000
      in e\<lparr>Information := if v then i OR 0x80000000 else i\<rparr>)"

record HBACommandHeader =
  CommandFISLength :: u8
  header_Write :: bool
  PRDTLength :: u16
  CommandTableBaseAddress :: u32
  CommandTableBaseAddressUpper :: u32

definition set_command_table_base :: "u64 \<Rightarrow> HBACommandHeader \<Rightarrow> HBACommandHeader" where
  "set_command_table_base a h =
     h\<lparr>CommandTableBaseAddress := ucast a, CommandTableBaseAddressUpper := ucast (drop_bit 32 a)\<rparr>"

definition command_table_base :: "HBACommandHeader \<Rightarrow> u64" where
  "command_table_base h =
     ucast (CommandTableBaseAddress h) + push_bit 32 (ucast (CommandTableBaseAddressUpper h))"

datatype PortType = PortNone | SATA | SEMB | PM | SATAPI

definition get_port_type :: "u32 \<Rightarrow> u32 \<Rightarrow> PortType" where
  "get_port_type sataStatus signature =
     (let interfacePowerManagement = drop_bit 8 sataStatus AND 7;
          deviceDetection = sataStatus AND 7
      in if deviceDetection \<noteq> 3 \<or> interfacePowerManagement \<noteq> 1 then PortNone
         else if signature = 0xeb140101 then SATAPI
         else if signature = 0x00000101 then SATA
         else if signature = 0xc33c0101 then SEMB
         else if signature = 0x96690101 then PM
         else PortNone)"

section \<open>The port driver\<close>

definition ATA_CMD_READ_DMA_EXT :: u8 where "ATA_CMD_READ_DMA_EXT = 0x25"
definition ATA_CMD_WRITE_DMA_EXT :: u8 where "ATA_CMD_WRITE_DMA_EXT = 0x35"
definition BYTES_PER_SECTOR :: u64 where "BYTES_PER_SECTOR = 512"
definition PORT_BUFFER_BYTES :: u64 where "PORT_BUFFER_BYTES = 0x100 * 0x1000"
definition MAX_READ_BYTES :: u64 where "MAX_READ_BYTES = 0x100 * PAGE_SIZE"

text \<open>What the controller fetches when slot 0 is issued: header, first region descriptor, FIS.\<close>

record HBACommand =
  cmd_header :: HBACommandHeader
  cmd_prdt :: HBA_PRDTEntry
  cmd_fis :: FIS_REG_H2D

record 'hw hba_ops =
  hba_stop :: "'hw \<Rightarrow> 'hw option"
  hba_start :: "'hw \<Rightarrow> 'hw option"
  hba_busy :: "'hw \<Rightarrow> bool"
  hba_issue :: "HBACommand \<Rightarrow> (nat \<Rightarrow> u8) \<Rightarrow> 'hw \<Rightarrow> ('hw \<times> (nat \<Rightarrow> u8) \<times> bool) option"

record 'hw PortController =
  port_Type :: PortType
  PortNumber :: u64
  BufferAddress :: u64
  port_Buffer :: "nat \<Rightarrow> u8"
  slot0 :: HBACommandHeader
  port_hw :: 'hw

text \<open>
  The constructor: a buffer, the command list, the page of received frames, and for each of the 32
  slots a page with the command table at a multiple of 256 in it.  The slots after the first are
  never used afterwards.
\<close>

definition command_table_address :: "u64 \<Rightarrow> nat \<Rightarrow> u64" where
  "command_table_address page i = page + push_bit 8 (of_nat i)"

fun init_slots :: "nat list \<Rightarrow> pmm \<times> (u64 \<Rightarrow> u8) \<Rightarrow> HBACommandHeader list \<times> pmm \<times> (u64 \<Rightarrow> u8)" where
  "init_slots [] (m, mem) = ([], m, mem)"
| "init_slots (i # is) (m, mem) =
     (let (page, m1) = request_page m;
          address = command_table_address page i;
          header = set_command_table_base address
                     \<lparr>CommandFISLength = 0, header_Write = False, PRDTLength = 8,
                      CommandTableBaseAddress = 0, CommandTableBaseAddressUpper = 0\<rparr>;
          (headers, m2, mem2) = init_slots is (m1, memset_ram address 256 mem)
      in (header # headers, m2, mem2))"

definition port_construct ::
    "'hw hba_ops \<Rightarrow> PortType \<Rightarrow> u64 \<Rightarrow> 'hw \<Rightarrow> pmm \<times> (u64 \<Rightarrow> u8) \<Rightarrow>
      ('hw PortController \<times> pmm \<times> (u64 \<Rightarrow> u8)) option" where
  "port_construct hba type number hw st =
     (case st of (m, mem) \<Rightarrow>
        let (buffer, m1) = request_pages 0x100 m
        in Option.bind (hba_stop hba hw) (\<lambda>hw1.
             let (base, m2) = request_page m1;
                 mem1 = memset_ram base 1024 mem;
                 (fisBase, m3) = request_page m2;
                 mem2 = memset_ram fisBase 256 mem1;
                 (headers, m4, mem3) = init_slots [0..<32] (m3, mem2)
             in map_option (\<lambda>hw2.
                  (\<lparr>port_Type = type, PortNumber = number, BufferAddress = buffer,
                    port_Buffer = (\<lambda>i. mem3 (buffer + of_nat i)), slot0 = hd headers, port_hw = hw2\<rparr>,
                   m4, mem3)) (hba_start hba hw1)))"

definition build_command :: "u8 \<Rightarrow> bool \<Rightarrow> u64 \<Rightarrow> u64 \<Rightarrow> 'hw PortController \<Rightarrow> HBACommand" where
  "build_command command wr sector sectors pc =
     (let header = (slot0 pc)\<lparr>CommandFISLength := 5, header_Write := wr, PRDTLength := 1\<rparr>;
          prdt = set_interrupt_on_completion True
                   (set_byte_count (ucast (push_bit 9 sectors - 1))
                     (set_data_base (BufferAddress pc)
                       \<lparr>DataBaseAddress = 0, DataBaseAddressUpper = 0, Information = 0\<rparr>));
          fis = \<lparr>fis_Type = 0x27, CommandControl = True, Command = command, LBA0 = 0, LBA1 = 0,
                 LBA2 = 0, DeviceRegister = push_bit 6 1, LBA3 = 0, LBA4 = 0, LBA5 = 0,
                 CountLow = 0, CountHigh = 0\<rparr>
      in \<lparr>cmd_header = header, cmd_prdt = prdt,
          cmd_fis = set_count (ucast sectors) (set_logical_block_addresses sector fis)\<rparr>)"

text \<open>
  Both low-level transfers: give up on a busy port, build the command, issue it and wait until it
  completes or reports a task file error.  \<open>None\<close> is a port that does neither.
\<close>

definition issue_command ::
    "'hw hba_ops \<Rightarrow> HBACommand \<Rightarrow> 'hw PortController \<Rightarrow> (bool \<times> 'hw PortController) option" where
  "issue_command hba cmd pc =
     (case hba_issue hba cmd (port_Buffer pc) (port_hw pc) of
        None \<Rightarrow> None
      | Some (hw, buf, tfes) \<Rightarrow>
          Some (\<not> tfes, pc\<lparr>slot0 := cmd_header cmd, port_Buffer := buf, port_hw := hw\<rparr>))"

definition read_low_level ::
    "'hw hba_ops \<Rightarrow> u64 \<Rightarrow> u64 \<Rightarrow> 'hw PortController \<Rightarrow> (bool \<times> 'hw PortController) option" where
  "read_low_level hba sector sectors pc =
     (if hba_busy hba (port_hw pc) then Some (False, pc)
      else issue_command hba (build_command ATA_CMD_READ_DMA_EXT False sector sectors pc) pc)"

definition write_low_level ::
    "'hw hba_ops \<Rightarrow> u64 \<Rightarrow> u64 \<Rightarrow> 'hw PortController \<Rightarrow> (bool \<times> 'hw PortController) option" where
  "write_low_level hba sector sectors pc =
     (if hba_busy hba (port_hw pc) then Some (False, pc)
      else issue_command hba (build_command ATA_CMD_WRITE_DMA_EXT True sector sectors pc) pc)"

definition sectors_for :: "u64 \<Rightarrow> u64 \<Rightarrow> u64" where
  "sectors_for byteOffsetWithinSector byteCount =
     (if byteOffsetWithinSector + byteCount \<le> BYTES_PER_SECTOR then 1
      else (byteOffsetWithinSector + byteCount + BYTES_PER_SECTOR - 1) div BYTES_PER_SECTOR)"

text \<open>
  The caller's buffer is \<open>None\<close> for a null pointer; copying more than it holds has no result.
\<close>

definition port_read_raw ::
    "'hw hba_ops \<Rightarrow> u64 \<Rightarrow> u64 \<Rightarrow> u8 list option \<Rightarrow> 'hw PortController \<Rightarrow>
      (int \<times> u8 list option \<times> 'hw PortController) option" where
  "port_read_raw hba byteOffset byteCount buffer pc =
     (if port_Type pc \<noteq> SATA then Some (- 1, buffer, pc)
      else case buffer of
        None \<Rightarrow> Some (- 1, buffer, pc)
      | Some bytes \<Rightarrow>
          if MAX_READ_BYTES < byteCount then Some (- 1, buffer, pc)
          else
            let sector = byteOffset div BYTES_PER_SECTOR;
                within = byteOffset mod BYTES_PER_SECTOR;
                sectors = sectors_for within byteCount
            in if PORT_BUFFER_BYTES < sectors * BYTES_PER_SECTOR then Some (- 1, buffer, pc)
               else case read_low_level hba sector sectors pc of
                 None \<Rightarrow> None
               | Some (ok, pc1) \<Rightarrow>
                   if ok then
                     if length bytes < unat byteCount then None
                     else Some (sint byteCount,
                            Some (map (\<lambda>i. port_Buffer pc1 (unat within + i)) [0..<unat byteCount]
                                   @ drop (unat byteCount) bytes), pc1)
                   else Some (sint byteCount, buffer, pc1))"

definition buffer_put :: "nat \<Rightarrow> u8 list \<Rightarrow> (nat \<Rightarrow> u8) \<Rightarrow> nat \<Rightarrow> u8" where
  "buffer_put at bytes buf = (\<lambda>i. if at \<le> i \<and> i < at + length bytes then bytes ! (i - at) else buf i)"

definition port_write_raw ::
    "'hw hba_ops \<Rightarrow> u64 \<Rightarrow> u64 \<Rightarrow> u8 list option \<Rightarrow> 'hw PortController \<Rightarrow>
      (int \<times> 'hw PortController) option" where
  "port_write_raw hba byteOffset byteCount buffer pc =
     (if port_Type pc \<noteq> SATA then Some (- 1, pc)
      else case buffer of
        None \<Rightarrow> Some (- 1, pc)
      | Some bytes \<Rightarrow>
          if MAX_READ_BYTES < byteCount then Some (- 1, pc)
          else
            let sector = byteOffset div BYTES_PER_SECTOR;
                within = byteOffset mod BYTES_PER_SECTOR;
                sectors = sectors_for within byteCount
            in if PORT_BUFFER_BYTES < sectors * BYTES_PER_SECTOR then Some (- 1, pc)
               else if within \<noteq> 0 \<or> byteCount mod BYTES_PER_SECTOR \<noteq> 0 then
                 case read_low_level hba sector sectors pc of
                   None \<Rightarrow> None
                 | Some (ok, pc1) \<Rightarrow>
                     if \<not> ok then Some (- 1, pc1)
                     else if length bytes < unat byteCount then None
                     else
                       let pc2 = pc1\<lparr>port_Buffer :=
                                   buffer_put (unat within) (take (unat byteCount) bytes) (port_Buffer pc1)\<rparr>
                       in case write_low_level hba sector sectors pc2 of
                            None \<Rightarrow> None
                          | Some (ok2, pc3) \<Rightarrow>
                              if \<not> ok2 then Some (- 1, pc3) else Some (sint byteCount, pc3)
               else
                 case write_low_level hba sector sectors pc of
                   None \<Rightarrow> None
                 | Some (ok, pc1) \<Rightarrow>
                     if \<not> ok then Some (- 1, pc1) else Some (sint byteCount, pc1))"

section \<open>Partitions\<close>

record GPTPartitionDriver =
  gpt_Offset :: u64

definition make_gpt_partition :: "u64 \<Rightarrow> u64 \<Rightarrow> GPTPartitionDriver" where
  "make_gpt_partition startSector sectorSize = \<lparr>gpt_Offset = startSector * sectorSize\<rparr>"

definition gpt_read_raw ::
    "'hw hba_ops \<Rightarrow> GPTPartitionDriver \<Rightarrow> u64 \<Rightarrow> u64 \<Rightarrow> u8 list option \<Rightarrow> 'hw PortController \<Rightarrow>
      (int \<times> u8 list option \<times> 'hw PortController) option" where
  "gpt_read_raw hba part offs byteCount buffer pc =
     port_read_raw hba (offs + gpt_Offset part) byteCount buffer pc"

definition gpt_write ::
    "'hw hba_ops \<Rightarrow> GPTPartitionDriver \<Rightarrow> u64 \<Rightarrow> u64 \<Rightarrow> u8 list option \<Rightarrow> 'hw PortController \<Rightarrow>
      (int \<times> 'hw PortController) option" where
  "gpt_write hba part offs byteCount buffer pc =
     port_write_raw hba (offs + gpt_Offset part) byteCount buffer pc"

section \<open>Addresses on the wire\<close>

text \<open>
  A device in 48-bit mode takes the bytes \<open>LBA0\<close> to \<open>LBA5\<close> as its sector number, least significant
  first.
\<close>

definition device_lba :: "FIS_REG_H2D \<Rightarrow> nat" where
  "device_lba f = unat (LBA0 f) + 2 ^ 8 * unat (LBA1 f) + 2 ^ 16 * unat (LBA2 f)
     + 2 ^ 24 * unat (LBA3 f) + 2 ^ 32 * unat (LBA4 f) + 2 ^ 40 * unat (LBA5 f)"

definition ata_transfer_ok :: "nat \<Rightarrow> HBACommand \<Rightarrow> bool" where
  "ata_transfer_ok capacity c \<longleftrightarrow>
     fis_Type (cmd_fis c) = 0x27 \<and> CommandControl (cmd_fis c) \<and>
     CommandFISLength (cmd_header c) = 5 \<and> PRDTLength (cmd_header c) = 1 \<and>
     DeviceRegister (cmd_fis c) AND 0x40 \<noteq> 0 \<and> fis_count (cmd_fis c) \<noteq> 0 \<and>
     unat (byte_count (cmd_prdt c)) + 1 = 512 * unat (fis_count (cmd_fis c)) \<and>
     device_lba (cmd_fis c) + unat (fis_count (cmd_fis c)) \<le> capacity"

definition ata_disk :: "'hw hba_ops \<Rightarrow> ('hw \<Rightarrow> nat \<Rightarrow> u8) \<Rightarrow> nat \<Rightarrow> bool" where
  "ata_disk hba contents capacity \<longleftrightarrow>
     (\<forall>hw. \<not> hba_busy hba hw) \<and>
     (\<forall>c buf hw. ata_transfer_ok capacity c \<and> Command (cmd_fis c) = ATA_CMD_READ_DMA_EXT
         \<and> \<not> header_Write (cmd_header c) \<longrightarrow>
       (\<exists>hw'. hba_issue hba c buf hw =
          Some (hw', (\<lambda>i. if i < 512 * unat (fis_count (cmd_fis c))
                           then contents hw (512 * device_lba (cmd_fis c) + i) else buf i), False)
          \<and> contents hw' = contents hw)) \<and>
     (\<forall>c buf hw. ata_transfer_ok capacity c \<and> Command (cmd_fis c) = ATA_CMD_WRITE_DMA_EXT
         \<and> header_Write (cmd_header c) \<longrightarrow>
       (\<exists>hw'. hba_issue hba c buf hw = Some (hw', buf, False) \<and>
          contents hw' =
            (\<lambda>p. if 512 * device_lba (cmd_fis c) \<le> p
                      \<and> p < 512 * device_lba (cmd_fis c) + 512 * unat (fis_count (cmd_fis c))
                  then buf (p - 512 * device_lba (cmd_fis c)) else contents hw p)))"


lemma device_lba_set_count [simp]: "device_lba (set_count c f) = device_lba f"
  by (simp add: device_lba_def set_count_def)

lemma fis_count_set_count [simp]: "fis_count (set_count c f) = c"
proof -
  have c: "unat c < 65536" using unsigned_less [where ?'a = nat, of c] by simp
  have h: "unat (ucast (ucast (drop_bit 8 c) :: u8) :: u16) = unat c div 256"
    using c by (simp add: unsigned_ucast_eq [of "ucast (drop_bit 8 c) :: u8"] unat_ucast_u8 unat_drop_bit take_bit_eq_mod)
  have l: "unat (ucast (ucast c :: u8) :: u16) = unat c mod 256"
    by (simp add: unsigned_ucast_eq [of "ucast c :: u8"] unat_ucast_u8 take_bit_eq_mod)
  have "unat (fis_count (set_count c f)) = unat c"
    unfolding fis_count_def set_count_def push_bit_eq_mult using c
    by (simp add: unat_word_ariths h l)
  then show ?thesis by (simp add: word_unat_eq_iff)
qed

lemma unat_ucast_low: "unat (ucast (x :: u64) :: u32) = unat x mod 4294967296"
  by (simp add: unsigned_ucast_eq take_bit_eq_mod)

lemma unat_ucast_high: "unat (ucast (drop_bit 32 (x :: u64)) :: u32) = unat x div 4294967296"
proof -
  have "unat x div 4294967296 < 4294967296" using unat_less_2_64 [of x] by (simp add: div_less_iff_less_mult)
  then show ?thesis
    unfolding unsigned_ucast_eq unsigned_drop_bit_eq by (simp add: take_bit_eq_mod drop_bit_eq_div)
qed

lemma device_lba_set:
  assumes "unat sector < 16777216"
  shows "device_lba (set_logical_block_addresses sector f) = unat sector"
proof -
  define u where "u = unat sector"
  have l: "unat (ucast sector :: u32) = u" and h: "unat (ucast (drop_bit 32 sector) :: u32) = 0"
    using unat_ucast_low [of sector] unat_ucast_high [of sector] assms by (simp_all add: u_def)
  have t: "u div 65536 mod 256 = u div 65536"
    using assms by (intro mod_less) (simp add: u_def div_less_iff_less_mult)
  have "u = 256 * (u div 256) + u mod 256" "u div 256 = 256 * (u div 256 div 256) + u div 256 mod 256"
    by simp_all
  moreover have "u div 256 div 256 = u div 65536" by (simp flip: div_mult2_eq)
  ultimately have "u = u mod 256 + 256 * (u div 256 mod 256) + 65536 * (u div 65536)" by linarith
  then show ?thesis
    by (simp add: device_lba_def set_logical_block_addresses_def Let_def unat_ucast_u8 unat_drop_bit l h t
        flip: u_def)
qed

lemma set_logical_block_addresses_alias:
  assumes "unat sector < 16777216"
  shows "set_logical_block_addresses (sector + 16777216) f = set_logical_block_addresses sector f"
proof -
  have p: "unat (sector + 16777216) = unat sector + 16777216"
    using assms by (intro trans [OF unat_u64_plus_small]) simp_all
  have e: "(a + 16777216) mod 256 = a mod 256" "(a + 16777216) div 256 mod 256 = a div 256 mod 256"
    "(a + 16777216) div 65536 mod 256 = a div 65536 mod 256" for a :: nat
    using mod_mult_self1 [of a 65536 256] div_mult_self1 [of 256 a 65536]
      div_mult_self1 [of 65536 a 256] mod_mult_self1 [of "a div 256" 256 256]
      mod_mult_self1 [of "a div 65536" 1 256] by (simp_all add: add.commute)
  have l: "unat (ucast (sector + 16777216) :: u32) = unat sector + 16777216"
      "unat (ucast sector :: u32) = unat sector"
    unfolding unat_ucast_low p using assms by simp_all
  have h: "(ucast (drop_bit 32 (sector + 16777216)) :: u32) = ucast (drop_bit 32 sector)"
    unfolding word_unat_eq_iff unat_ucast_high p using assms by simp
  have b: "(ucast (ucast (sector + 16777216) :: u32) :: u8) = ucast (ucast sector :: u32)"
      "(ucast (drop_bit 8 (ucast (sector + 16777216) :: u32)) :: u8) = ucast (drop_bit 8 (ucast sector :: u32))"
      "(ucast (drop_bit 16 (ucast (sector + 16777216) :: u32)) :: u8) = ucast (drop_bit 16 (ucast sector :: u32))"
    unfolding word_unat_eq_iff unat_ucast_u8 unat_drop_bit l using e by simp_all
  show ?thesis unfolding set_logical_block_addresses_def Let_def h b ..
qed

lemma byte_count_built:
  "byte_count (set_interrupt_on_completion v (set_byte_count n (set_data_base a e))) = n AND 0x3fffff"
proof -
  define k :: u32 where "k = 0x80000000"
  have k: "bit k i \<longleftrightarrow> i = 31" for i
    using bit_exp_iff [where ?'a = u32, of 31 i] by (auto simp: k_def)
  have m: "(0x3fffff :: u32) = mask 22" by (simp add: mask_eq_exp_minus_1)
  show ?thesis
    unfolding byte_count_def set_interrupt_on_completion_def set_byte_count_def set_data_base_def Let_def
      m k_def [symmetric] by (rule bit_word_eqI) (auto simp: bit_simps k)
qed

lemma unat_byte_count:
  assumes "1 \<le> unat sectors" "unat sectors \<le> 2048"
  shows "unat (ucast (push_bit 9 (sectors :: u64) - 1) AND (0x3fffff :: u32)) + 1 = 512 * unat sectors"
proof -
  have m: "(0x3fffff :: u32) = mask 22" by (simp add: mask_eq_exp_minus_1)
  have p: "unat (push_bit 9 sectors) = 512 * unat sectors"
    unfolding push_bit_eq_mult using assms by (simp add: unat_u64_mult)
  have "unat (push_bit 9 sectors - 1) = 512 * unat sectors - 1"
    using assms p by (subst unat_sub) (simp_all add: word_le_nat_alt)
  then show ?thesis
    unfolding m take_bit_eq_mask [symmetric] unsigned_take_bit_eq unsigned_ucast_eq
    using assms by (simp add: take_bit_nat_eq_self)
qed

lemma build_command_ok:
  assumes "1 \<le> unat sectors" "unat sectors \<le> 2048" "unat sector < 16777216"
    and "unat sector + unat sectors \<le> capacity"
  shows "ata_transfer_ok capacity (build_command command wr sector sectors pc)"
    and "unat (fis_count (cmd_fis (build_command command wr sector sectors pc))) = unat sectors"
    and "device_lba (cmd_fis (build_command command wr sector sectors pc)) = unat sector"
    and "Command (cmd_fis (build_command command wr sector sectors pc)) = command"
    and "header_Write (cmd_header (build_command command wr sector sectors pc)) = wr"
proof -
  show l: "device_lba (cmd_fis (build_command command wr sector sectors pc)) = unat sector"
    using assms(3) by (simp add: build_command_def Let_def device_lba_set)
  have f: "fis_count (cmd_fis (build_command command wr sector sectors pc)) = ucast sectors"
    by (simp add: build_command_def Let_def)
  show c: "unat (fis_count (cmd_fis (build_command command wr sector sectors pc))) = unat sectors"
    unfolding f using assms(2) by (simp add: unsigned_ucast_eq take_bit_eq_mod)
  then have "fis_count (cmd_fis (build_command command wr sector sectors pc)) \<noteq> 0"
    using assms(1) by auto
  then show "ata_transfer_ok capacity (build_command command wr sector sectors pc)"
    unfolding ata_transfer_ok_def l c using assms unat_byte_count [OF assms(1,2)]
    by (simp add: build_command_def Let_def set_count_def set_logical_block_addresses_def
        byte_count_built)
qed (simp_all add: build_command_def Let_def set_count_def set_logical_block_addresses_def)

text \<open>
  The table of a slot from the sixteenth on is not in the page that was requested for it, and the
  constructor clears 256 bytes of a page that is not its own.
\<close>

lemma command_table_outside_page:
  assumes "unat page mod 4096 = 0" "unat page + 8192 \<le> 18446744073709551616" "16 \<le> i" "i < 32"
  shows "unat page + 4096 \<le> unat (command_table_address page i)"
proof -
  have i: "unat (push_bit 8 (of_nat i) :: u64) = 256 * i"
    unfolding push_bit_eq_mult using assms(4) by (simp add: unat_u64_mult unat_of_nat_u64)
  have "unat (command_table_address page i) = unat page + 256 * i"
    unfolding command_table_address_def using assms i by (subst unat_u64_plus_small) linarith+
  then show ?thesis using assms(3) by linarith
qed

text \<open>A read that fails reports success and leaves the caller's buffer as it was.\<close>

lemma failed_read_reports_success:
  assumes "port_Type pc = SATA" "hba_busy hba (port_hw pc)" "\<not> MAX_READ_BYTES < n"
    and "\<not> PORT_BUFFER_BYTES < sectors_for (off mod BYTES_PER_SECTOR) n * BYTES_PER_SECTOR"
  shows "port_read_raw hba off n (Some bytes) pc = Some (sint n, Some bytes, pc)"
  using assms by (simp add: port_read_raw_def read_low_level_def Let_def)

section \<open>Transfers\<close>

lemma read_low_level_disk:
  assumes "ata_disk hba contents capacity"
    and "1 \<le> unat sectors" "unat sectors \<le> 2048" "unat sector < 16777216"
    and "unat sector + unat sectors \<le> capacity"
  obtains pc' where "read_low_level hba sector sectors pc = Some (True, pc')"
    "port_Type pc' = port_Type pc" "contents (port_hw pc') = contents (port_hw pc)"
    "\<And>i. i < 512 * unat sectors \<Longrightarrow> port_Buffer pc' i = contents (port_hw pc) (512 * unat sector + i)"
proof -
  let ?c = "build_command ATA_CMD_READ_DMA_EXT False sector sectors pc"
  note c = build_command_ok [OF assms(2-5), of ATA_CMD_READ_DMA_EXT False pc]
  obtain hw' where hw': "hba_issue hba ?c (port_Buffer pc) (port_hw pc) =
      Some (hw', (\<lambda>i. if i < 512 * unat (fis_count (cmd_fis ?c))
                           then contents (port_hw pc) (512 * device_lba (cmd_fis ?c) + i)
                           else port_Buffer pc i), False)" "contents hw' = contents (port_hw pc)"
    using assms(1) c(1,4,5) unfolding ata_disk_def by blast
  have "\<not> hba_busy hba (port_hw pc)" using assms(1) by (simp add: ata_disk_def)
  then have "read_low_level hba sector sectors pc = Some (True, pc\<lparr>slot0 := cmd_header ?c,
      port_Buffer := (\<lambda>i. if i < 512 * unat (fis_count (cmd_fis ?c))
                           then contents (port_hw pc) (512 * device_lba (cmd_fis ?c) + i)
                           else port_Buffer pc i), port_hw := hw'\<rparr>)"
    by (simp add: read_low_level_def issue_command_def hw'(1))
  then show thesis by (rule that) (simp_all add: hw'(2) c(2,3))
qed

lemma write_low_level_disk:
  assumes "ata_disk hba contents capacity"
    and "1 \<le> unat sectors" "unat sectors \<le> 2048" "unat sector < 16777216"
    and "unat sector + unat sectors \<le> capacity"
  obtains pc' where "write_low_level hba sector sectors pc = Some (True, pc')"
    "port_Type pc' = port_Type pc"
    "\<And>p. contents (port_hw pc') p =
       (if 512 * unat sector \<le> p \<and> p < 512 * unat sector + 512 * unat sectors
        then port_Buffer pc (p - 512 * unat sector) else contents (port_hw pc) p)"
proof -
  let ?c = "build_command ATA_CMD_WRITE_DMA_EXT True sector sectors pc"
  note c = build_command_ok [OF assms(2-5), of ATA_CMD_WRITE_DMA_EXT True pc]
  obtain hw' where hw': "hba_issue hba ?c (port_Buffer pc) (port_hw pc) =
      Some (hw', port_Buffer pc, False)"
      "contents hw' =
            (\<lambda>p. if 512 * device_lba (cmd_fis ?c) \<le> p
                      \<and> p < 512 * device_lba (cmd_fis ?c) + 512 * unat (fis_count (cmd_fis ?c))
                  then port_Buffer pc (p - 512 * device_lba (cmd_fis ?c)) else contents (port_hw pc) p)"
    using assms(1) c(1,4,5) unfolding ata_disk_def by blast
  have "\<not> hba_busy hba (port_hw pc)" using assms(1) by (simp add: ata_disk_def)
  then have "write_low_level hba sector sectors pc = Some (True, pc\<lparr>slot0 := cmd_header ?c,
      port_Buffer := port_Buffer pc, port_hw := hw'\<rparr>)"
    by (simp add: write_low_level_def issue_command_def hw'(1))
  then show thesis by (rule that) (simp_all add: hw'(2) c(2,3))
qed

text \<open>The sectors that cover a byte range.\<close>

lemma sectors_for_covers:
  assumes "unat within < 512" "unat within + unat n \<le> 1048576" "0 < unat n"
  shows "unat (sectors_for within n) = (unat within + unat n + 511) div 512"
proof -
  let ?t = "unat within + unat n"
  have a: "unat (within + n) = ?t" using assms by (simp add: unat_u64_plus)
  have b: "unat (within + n + 512) = ?t + 512" using assms a by (simp add: unat_u64_plus)
  have c: "unat (within + n + 512 - 1) = ?t + 511"
    using b by (subst unat_sub) (simp_all add: word_le_nat_alt)
  show ?thesis
  proof (cases "?t \<le> 512")
    case True
    then have "(?t + 511) div 512 = 1" using assms(3) by (intro div_nat_eqI) simp_all
    with True show ?thesis by (simp add: sectors_for_def BYTES_PER_SECTOR_def word_le_nat_alt a)
  next
    case False
    then show ?thesis
      using c by (simp add: sectors_for_def BYTES_PER_SECTOR_def word_le_nat_alt a unat_div)
  qed
qed

lemma port_geometry:
  assumes "0 < unat n" "unat off mod 512 + unat n \<le> 1048576" "unat off + unat n \<le> 512 * capacity"
    and "unat off < 8589934592"
  defines "sector \<equiv> off div BYTES_PER_SECTOR" and "within \<equiv> off mod BYTES_PER_SECTOR"
  shows "1 \<le> unat (sectors_for within n)" "unat (sectors_for within n) \<le> 2048"
    "unat sector < 16777216" "unat sector + unat (sectors_for within n) \<le> capacity"
    "\<not> PORT_BUFFER_BYTES < sectors_for within n * BYTES_PER_SECTOR"
    "\<not> MAX_READ_BYTES < n"
    "unat off = 512 * unat sector + unat within" "unat within + unat n \<le> 512 * unat (sectors_for within n)"
    "sint n = int (unat n)"
proof -
  let ?s = "unat (sectors_for within n)"
  have w: "unat within = unat off mod 512" and s: "unat sector = unat off div 512"
    by (simp_all add: within_def sector_def BYTES_PER_SECTOR_def unat_mod unat_div)
  have k: "?s = (unat within + unat n + 511) div 512"
    using assms(1,2) by (intro sectors_for_covers) (simp_all add: w)
  show o: "unat off = 512 * unat sector + unat within" by (simp add: w s)
  show c: "unat within + unat n \<le> 512 * ?s" using k by linarith
  show "1 \<le> ?s" using c assms(1) by linarith
  show m: "?s \<le> 2048" using k assms(2) w by linarith
  show "unat sector < 16777216" using assms(4) s by linarith
  show "unat sector + ?s \<le> capacity" using k o assms(3) by linarith
  show "sint n = int (unat n)" using assms(2) by (intro sint_u64_small) linarith
  show "\<not> MAX_READ_BYTES < n"
    using assms(2) by (simp add: MAX_READ_BYTES_def PAGE_SIZE_def word_less_nat_alt)
  show "\<not> PORT_BUFFER_BYTES < sectors_for within n * BYTES_PER_SECTOR"
    using m by (simp add: PORT_BUFFER_BYTES_def BYTES_PER_SECTOR_def word_less_nat_alt unat_u64_mult)
qed

lemma port_read_raw_disk:
  assumes "ata_disk hba contents capacity" "port_Type pc = SATA"
    and "0 < unat n" "unat off mod 512 + unat n \<le> 1048576" "unat off + unat n \<le> 512 * capacity"
    and "unat off < 8589934592" "length bytes = unat n"
  shows "\<exists>pc'. port_read_raw hba off n (Some bytes) pc =
      Some (int (unat n), Some (map (contents (port_hw pc)) [unat off..<unat off + unat n]), pc')
    \<and> contents (port_hw pc') = contents (port_hw pc) \<and> port_Type pc' = SATA"
proof -
  let ?sector = "off div BYTES_PER_SECTOR" and ?within = "off mod BYTES_PER_SECTOR"
  let ?sectors = "sectors_for ?within n"
  note g = port_geometry [OF assms(3-6)]
  obtain pc' where pc': "read_low_level hba ?sector ?sectors pc = Some (True, pc')"
    "port_Type pc' = port_Type pc" "contents (port_hw pc') = contents (port_hw pc)"
    "\<And>i. i < 512 * unat ?sectors \<Longrightarrow> port_Buffer pc' i = contents (port_hw pc) (512 * unat ?sector + i)"
    using read_low_level_disk [OF assms(1) g(1-4)] by blast
  have "map (\<lambda>i. port_Buffer pc' (unat ?within + i)) [0..<unat n]
      = map (contents (port_hw pc)) [unat off..<unat off + unat n]"
    using g(7,8) by (intro nth_equalityI) (auto simp: pc'(4) add.assoc)
  then show ?thesis
    using assms(2,7) pc'(1-3) g(5,6,9) unfolding port_read_raw_def Let_def by simp
qed

lemma port_write_raw_disk:
  assumes "ata_disk hba contents capacity" "port_Type pc = SATA"
    and "0 < unat n" "unat off mod 512 + unat n \<le> 1048576" "unat off + unat n \<le> 512 * capacity"
    and "unat off < 8589934592" "length bytes = unat n"
    and "unat off mod 512 \<noteq> 0 \<or> unat n mod 512 \<noteq> 0"
  shows "\<exists>pc'. port_write_raw hba off n (Some bytes) pc = Some (int (unat n), pc')
    \<and> contents (port_hw pc') = buffer_put (unat off) bytes (contents (port_hw pc))
    \<and> port_Type pc' = SATA"
proof -
  let ?sector = "off div BYTES_PER_SECTOR" and ?within = "off mod BYTES_PER_SECTOR"
  let ?sectors = "sectors_for ?within n"
  note g = port_geometry [OF assms(3-6)]
  have u: "?within \<noteq> 0 \<or> n mod BYTES_PER_SECTOR \<noteq> 0"
  proof -
    have "unat ?within = unat off mod 512" "unat (n mod BYTES_PER_SECTOR) = unat n mod 512"
      by (simp_all add: BYTES_PER_SECTOR_def unat_mod)
    with assms(8) show ?thesis by (metis unsigned_0)
  qed
  obtain pc1 where pc1: "read_low_level hba ?sector ?sectors pc = Some (True, pc1)"
    "port_Type pc1 = port_Type pc" "contents (port_hw pc1) = contents (port_hw pc)"
    "\<And>i. i < 512 * unat ?sectors \<Longrightarrow> port_Buffer pc1 i = contents (port_hw pc) (512 * unat ?sector + i)"
    using read_low_level_disk [OF assms(1) g(1-4)] by blast
  define pc2 where "pc2 = pc1\<lparr>port_Buffer := buffer_put (unat ?within) (take (unat n) bytes) (port_Buffer pc1)\<rparr>"
  obtain pc3 where pc3: "write_low_level hba ?sector ?sectors pc2 = Some (True, pc3)"
    "port_Type pc3 = port_Type pc2"
    "\<And>p. contents (port_hw pc3) p =
       (if 512 * unat ?sector \<le> p \<and> p < 512 * unat ?sector + 512 * unat ?sectors
        then port_Buffer pc2 (p - 512 * unat ?sector) else contents (port_hw pc2) p)"
    using write_low_level_disk [OF assms(1) g(1-4)] by blast
  have "contents (port_hw pc3) p = buffer_put (unat off) bytes (contents (port_hw pc)) p" for p
    using g(7,8) assms(7) by (auto simp: pc3(3) pc2_def pc1(3,4) buffer_put_def)
  then show ?thesis
    using assms(2,7) u pc1(1,2) pc3(1,2) g(5,6,9) unfolding port_write_raw_def Let_def
    by (auto simp: pc2_def fun_eq_iff)
qed

section \<open>Properties\<close>


text \<open>A disk that is a byte store, for the concrete instances.\<close>

definition ram_disk :: "(nat \<Rightarrow> u8) hba_ops" where
  "ram_disk =
     \<lparr>hba_stop = Some, hba_start = Some, hba_busy = (\<lambda>_. False),
      hba_issue = (\<lambda>c buf hw.
        let at = 512 * device_lba (cmd_fis c); n = 512 * unat (fis_count (cmd_fis c))
        in Some (if header_Write (cmd_header c)
                 then (\<lambda>p. if at \<le> p \<and> p < at + n then buf (p - at) else hw p, buf, False)
                 else (hw, \<lambda>i. if i < n then hw (at + i) else buf i, False)))\<rparr>"

lemma ram_disk_ata: "ata_disk ram_disk (\<lambda>hw. hw) capacity"
  by (auto simp: ata_disk_def ram_disk_def Let_def)

definition ram_port :: "(nat \<Rightarrow> u8) PortController" where
  "ram_port =
     \<lparr>port_Type = SATA, PortNumber = 0, BufferAddress = 0x100000, port_Buffer = (\<lambda>_. 0),
      slot0 = \<lparr>CommandFISLength = 0, header_Write = False, PRDTLength = 8,
               CommandTableBaseAddress = 0x200000, CommandTableBaseAddressUpper = 0\<rparr>,
      port_hw = (\<lambda>p. of_nat p)\<rparr>"


text \<open>
  C39: a write of whole sectors at a sector boundary reports success but never looks at the given
  bytes: the sectors receive what an earlier transfer left in the driver's buffer.
\<close>

theorem port_aligned_write_stores_stale_buffer:
  assumes "ata_disk hba contents capacity" "port_Type pc = SATA"
    and "0 < unat n" "unat n \<le> 1048576" "unat off + unat n \<le> 512 * capacity" "unat off < 2 ^ 33"
    and "unat off mod 512 = 0" "unat n mod 512 = 0"
  shows "\<exists>pc1. (\<forall>bytes. port_write_raw hba off n (Some bytes) pc = Some (int (unat n), pc1))
    \<and> contents (port_hw pc1) =
        buffer_put (unat off) (map (port_Buffer pc) [0..<unat n]) (contents (port_hw pc))"
proof -
  let ?sector = "off div BYTES_PER_SECTOR" and ?within = "off mod BYTES_PER_SECTOR"
  let ?sectors = "sectors_for ?within n"
  have r: "unat off mod 512 + unat n \<le> 1048576" "unat off < 8589934592"
    using assms(4,6,7) by simp_all
  note g = port_geometry [OF assms(3) r(1) assms(5) r(2)]
  have z: "?within = 0" "n mod BYTES_PER_SECTOR = 0"
    using assms(7,8) by (simp_all add: word_unat_eq_iff BYTES_PER_SECTOR_def unat_mod)
  have k: "512 * unat ?sectors = unat n"
    using sectors_for_covers [of 0 n] assms(3,4,8) unfolding z by (auto simp: mod_eq_0_iff_dvd elim!: dvdE)
  have o: "unat off = 512 * unat ?sector" using g(7) by (simp add: z)
  obtain pc1 where pc1: "write_low_level hba ?sector ?sectors pc = Some (True, pc1)"
    "\<And>p. contents (port_hw pc1) p =
       (if 512 * unat ?sector \<le> p \<and> p < 512 * unat ?sector + 512 * unat ?sectors
        then port_Buffer pc (p - 512 * unat ?sector) else contents (port_hw pc) p)"
    using write_low_level_disk [OF assms(1) g(1-4)] by blast
  have "contents (port_hw pc1) =
      buffer_put (unat off) (map (port_Buffer pc) [0..<unat n]) (contents (port_hw pc))"
    using o by (intro ext) (auto simp: pc1(2) k buffer_put_def)
  moreover have "port_write_raw hba off n (Some bytes) pc = Some (int (unat n), pc1)" for bytes
    using assms(2) pc1(1) g(5,6,9) z unfolding port_write_raw_def Let_def by simp
  ultimately show ?thesis by blast
qed

theorem port_aligned_write_stores_stale_buffer_witness:
  "\<exists>pc1. port_write_raw ram_disk 512 512 (Some (replicate 512 7)) ram_port = Some (512, pc1)
    \<and> port_hw pc1 = buffer_put 512 (map (\<lambda>_. 0) [0..<512]) (port_hw ram_port)"
  using port_aligned_write_stores_stale_buffer [OF ram_disk_ata [of 4], of ram_port 512 512]
  by (force simp: ram_port_def)

lemma build_command_alias:
  "unat sector < 16777216 \<Longrightarrow>
     build_command command wr (sector + 16777216) sectors pc = build_command command wr sector sectors pc"
  by (simp add: build_command_def Let_def set_logical_block_addresses_alias)

lemma alias_geometry:
  fixes off :: u64
  assumes "unat off < 8589934592"
  shows "(off + 8589934592) div BYTES_PER_SECTOR = off div BYTES_PER_SECTOR + 16777216"
    and "(off + 8589934592) mod BYTES_PER_SECTOR = off mod BYTES_PER_SECTOR"
    and "unat (off div BYTES_PER_SECTOR) < 16777216"
proof -
  have p: "unat (off + 8589934592) = unat off + 8589934592"
    using assms by (simp add: unat_u64_plus)
  show l: "unat (off div BYTES_PER_SECTOR) < 16777216"
    using assms by (simp add: BYTES_PER_SECTOR_def unat_div div_less_iff_less_mult)
  have q: "unat (off div BYTES_PER_SECTOR + 16777216) = unat off div 512 + 16777216"
    using l by (simp add: unat_u64_plus BYTES_PER_SECTOR_def unat_div)
  show "(off + 8589934592) div BYTES_PER_SECTOR = off div BYTES_PER_SECTOR + 16777216"
    unfolding word_unat_eq_iff q unfolding unat_div p
    using div_mult_self1 [of 512 "unat off" 16777216] by (simp add: BYTES_PER_SECTOR_def)
  show "(off + 8589934592) mod BYTES_PER_SECTOR = off mod BYTES_PER_SECTOR"
    unfolding word_unat_eq_iff unat_mod p
    using mod_mult_self1 [of "unat off" 16777216 512] by (simp add: BYTES_PER_SECTOR_def)
qed

text \<open>
  C40: the sector number on the wire has no bits 24 to 31, so every read and write between 8 and 16
  GiB is performed exactly 8 GiB lower, whatever the device.
\<close>

theorem port_sectors_alias:
  assumes "unat off < 2 ^ 33"
  shows "port_read_raw hba (off + 2 ^ 33) n buffer pc = port_read_raw hba off n buffer pc
    \<and> port_write_raw hba (off + 2 ^ 33) n buffer pc = port_write_raw hba off n buffer pc"
proof -
  have o: "unat off < 8589934592" using assms by simp
  note g = alias_geometry [OF o]
  have e: "(2 :: u64) ^ 33 = 8589934592" by simp
  have ll: "read_low_level hba (off div BYTES_PER_SECTOR + 16777216) k p = read_low_level hba (off div BYTES_PER_SECTOR) k p"
    and wl: "write_low_level hba (off div BYTES_PER_SECTOR + 16777216) k p = write_low_level hba (off div BYTES_PER_SECTOR) k p"
    for k p
    by (simp_all add: read_low_level_def write_low_level_def build_command_alias g(3))
  show ?thesis unfolding e port_read_raw_def port_write_raw_def g(1,2) Let_def ll wl by (intro conjI refl)
qed

theorem port_sectors_alias_witness:
  "port_read_raw ram_disk (0 + 2 ^ 33) 4 (Some [0, 0, 0, 0]) ram_port
     = port_read_raw ram_disk 0 4 (Some [0, 0, 0, 0]) ram_port
   \<and> port_write_raw ram_disk (0 + 2 ^ 33) 4 (Some [9, 9, 9, 9]) ram_port
     = port_write_raw ram_disk 0 4 (Some [9, 9, 9, 9]) ram_port"
  using port_sectors_alias [of 0 ram_disk 4 "Some [0, 0, 0, 0]" ram_port]
    port_sectors_alias [of 0 ram_disk 4 "Some [9, 9, 9, 9]" ram_port] by simp

end
