(* ===== verification/Gpt.thy ===== *)
theory Gpt
  imports Storage
begin

text \<open>
  Partition tables: \<open>kernel/src/gpt.h\<close>, \<open>gpt.cpp\<close> and \<open>gpt_partition_type_guids.h\<close>, and the search of a
  port for partitions (\<open>discover_partitions\<close> of \<open>kstage1.cpp\<close>).  Sectors are read through the port
  driver.  What is printed about a partition is left out.
\<close>

section \<open>Structures\<close>

record GUID =
  Data1 :: u32
  Data2 :: u16
  Data3 :: u16
  Data4 :: "u8 list"

definition guid :: "u32 \<Rightarrow> u16 \<Rightarrow> u16 \<Rightarrow> u8 list \<Rightarrow> GUID" where
  "guid a b c d = \<lparr>Data1 = a, Data2 = b, Data3 = c, Data4 = d\<rparr>"

definition NullGUID :: GUID where
  "NullGUID = guid 0 0 0 [0, 0, 0, 0, 0, 0, 0, 0]"

definition ReservedPartitionGUIDs :: "GUID list" where
  "ReservedPartitionGUIDs =
    [
     guid 0x024dee41 0x33e7 0x11d3 [0x9d, 0x69, 0x00, 0x08, 0xc7, 0x81, 0xf3, 0x9f],
     guid 0x21686148 0x6449 0x6e6f [0x74, 0x4e, 0x65, 0x65, 0x64, 0x45, 0x46, 0x49],
     guid 0xd3bfe2de 0x3daf 0x11df [0xba, 0x40, 0xe3, 0xa5, 0x56, 0xd8, 0x96, 0x93],
     guid 0xe3c9e316 0x0b5c 0x4db8 [0x81, 0x7d, 0xf9, 0x2d, 0xf0, 0x02, 0x15, 0xae],
     guid 0xebd0a0a2 0xb9e5 0x4433 [0x87, 0xc0, 0x68, 0xb6, 0xb7, 0x26, 0x99, 0xc7],
     guid 0x5808c8aa 0x7e8f 0x42e0 [0x85, 0xd2, 0xe1, 0xe9, 0x04, 0x34, 0xcf, 0xb3],
     guid 0xaf9b60a0 0x1431 0x4f62 [0xbc, 0x68, 0x33, 0x11, 0x71, 0x4a, 0x69, 0xad],
     guid 0xde94bba4 0x06d1 0x4d40 [0xa1, 0x6a, 0xbf, 0xd5, 0x01, 0x79, 0xd6, 0xac],
     guid 0x37affc90 0xef7d 0x4e96 [0x91, 0xc3, 0x2d, 0x7a, 0xe0, 0x55, 0xb1, 0x74],
     guid 0x0fc63daf 0x8483 0x4772 [0x8e, 0x79, 0x3d, 0x69, 0xd8, 0x47, 0x7d, 0xe4],
     guid 0xa19d880f 0x05fc 0x4d3b [0xa0, 0x06, 0x74, 0x3f, 0x0f, 0x84, 0x91, 0x1e],
     guid 0x0657fd6d 0xa4ab 0x43c4 [0x84, 0xe5, 0x09, 0x33, 0xc8, 0x4b, 0x4f, 0x4f],
     guid 0xe6d6d379 0xf507 0x44c2 [0xa2, 0x3c, 0x23, 0x8f, 0x2a, 0x3d, 0xf9, 0x28],
     guid 0x8da63339 0x0007 0x60c0 [0xc4, 0x36, 0x08, 0x3a, 0xc8, 0x23, 0x09, 0x08],
     guid 0x83bd6b9d 0x7f41 0x11dc [0xbe, 0x0b, 0x00, 0x15, 0x60, 0xb8, 0x4f, 0x0f],
     guid 0x516e7cb4 0x6ecf 0x11d6 [0x8f, 0xf8, 0x00, 0x02, 0x2d, 0x09, 0x71, 0x2b],
     guid 0x516e7cb5 0x6ecf 0x11d6 [0x8f, 0xf8, 0x00, 0x02, 0x2d, 0x09, 0x71, 0x2b],
     guid 0x516e7cb6 0x6ecf 0x11d6 [0x8f, 0xf8, 0x00, 0x02, 0x2d, 0x09, 0x71, 0x2b],
     guid 0x516e7cb8 0x6ecf 0x11d6 [0x8f, 0xf8, 0x00, 0x02, 0x2d, 0x09, 0x71, 0x2b],
     guid 0x516e7cba 0x6ecf 0x11d6 [0x8f, 0xf8, 0x00, 0x02, 0x2d, 0x09, 0x71, 0x2b],
     guid 0x49f48d32 0xb10e 0x11dc [0xb9, 0x9b, 0x00, 0x19, 0xd1, 0x87, 0x96, 0x48],
     guid 0x49f48d5a 0xb10e 0x11dc [0xb9, 0x9b, 0x00, 0x19, 0xd1, 0x87, 0x96, 0x48],
     guid 0x49f48d82 0xb10e 0x11dc [0xb9, 0x9b, 0x00, 0x19, 0xd1, 0x87, 0x96, 0x48],
     guid 0x49f48daa 0xb10e 0x11dc [0xb9, 0x9b, 0x00, 0x19, 0xd1, 0x87, 0x96, 0x48],
     guid 0x2db519c4 0xb10e 0x11dc [0xb9, 0x9b, 0x00, 0x19, 0xd1, 0x87, 0x96, 0x48],
     guid 0x2db519ec 0xb10e 0x11dc [0xb9, 0x9b, 0x00, 0x19, 0xd1, 0x87, 0x96, 0x48],
     guid 0x85d5e45a 0x237c 0x11e1 [0xb4, 0xb3, 0xe8, 0x9a, 0x8f, 0x7f, 0xc3, 0xa7],
     guid 0x85d5e45b 0x237c 0x11e1 [0xb4, 0xb3, 0xe8, 0x9a, 0x8f, 0x7f, 0xc3, 0xa7],
     guid 0x85d5e45c 0x237c 0x11e1 [0xb4, 0xb3, 0xe8, 0x9a, 0x8f, 0x7f, 0xc3, 0xa7],
     guid 0x85d5e45d 0x237c 0x11e1 [0xb4, 0xb3, 0xe8, 0x9a, 0x8f, 0x7f, 0xc3, 0xa7],
     guid 0x85d5e45e 0x237c 0x11e1 [0xb4, 0xb3, 0xe8, 0x9a, 0x8f, 0x7f, 0xc3, 0xa7],
     guid 0x0394ef8b 0x237e 0x11e1 [0xb4, 0xb3, 0xe8, 0x9a, 0x8f, 0x7f, 0xc3, 0xa7],
     guid 0xfe3a2a5d 0x4f32 0x41a7 [0xb7, 0x25, 0xac, 0xcc, 0x32, 0x85, 0xa3, 0x09],
     guid 0x3cb8e202 0x3b7e 0x47dd [0x8a, 0x3c, 0x7f, 0xf2, 0xa1, 0x3c, 0xfc, 0xec],
     guid 0x2e0a753d 0x9e48 0x43b0 [0x83, 0x37, 0xb1, 0x51, 0x92, 0xcb, 0x1b, 0x5e],
     guid 0x75894c1e 0x3aeb 0x11d3 [0xb7, 0xc1, 0x7b, 0x03, 0xa0, 0x00, 0x00, 0x00],
     guid 0xe2a1e728 0x32e3 0x11d6 [0xa6, 0x82, 0x7b, 0x03, 0xa0, 0x00, 0x00, 0x00],
     guid 0x6a82cb45 0x1dd2 0x11b2 [0x99, 0xa6, 0x08, 0x00, 0x20, 0x73, 0x66, 0x31],
     guid 0x6a85cf4d 0x1dd2 0x11b2 [0x99, 0xa6, 0x08, 0x00, 0x20, 0x73, 0x66, 0x31],
     guid 0x6a87c46f 0x1dd2 0x11b2 [0x99, 0xa6, 0x08, 0x00, 0x20, 0x73, 0x66, 0x31],
     guid 0x6a8b642b 0x1dd2 0x11b2 [0x99, 0xa6, 0x08, 0x00, 0x20, 0x73, 0x66, 0x31],
     guid 0x6a898cc3 0x1dd2 0x11b2 [0x99, 0xa6, 0x08, 0x00, 0x20, 0x73, 0x66, 0x31],
     guid 0x6a8ef2e9 0x1dd2 0x11b2 [0x99, 0xa6, 0x08, 0x00, 0x20, 0x73, 0x66, 0x31],
     guid 0x6a90ba39 0x1dd2 0x11b2 [0x99, 0xa6, 0x08, 0x00, 0x20, 0x73, 0x66, 0x31],
     guid 0x6a9283a5 0x1dd2 0x11b2 [0x99, 0xa6, 0x08, 0x00, 0x20, 0x73, 0x66, 0x31],
     guid 0x6a945a3b 0x1dd2 0x11b2 [0x99, 0xa6, 0x08, 0x00, 0x20, 0x73, 0x66, 0x31],
     guid 0x6a9630d1 0x1dd2 0x11b2 [0x99, 0xa6, 0x08, 0x00, 0x20, 0x73, 0x66, 0x31],
     guid 0x6a980767 0x1dd2 0x11b2 [0x99, 0xa6, 0x08, 0x00, 0x20, 0x73, 0x66, 0x31],
     guid 0x6a96237f 0x1dd2 0x11b2 [0x99, 0xa6, 0x08, 0x00, 0x20, 0x73, 0x66, 0x31],
     guid 0x6a8d2ac7 0x1dd2 0x11b2 [0x99, 0xa6, 0x08, 0x00, 0x20, 0x73, 0x66, 0x31],
     NullGUID]"

definition parse_guid :: "u8 list \<Rightarrow> GUID" where
  "parse_guid b = guid (le_field 0 4 b) (le_field 4 2 b) (le_field 6 2 b) (take 8 (drop 8 b))"

record GPTHeader =
  Signature :: "u8 list"
  Revision :: u32
  PartitionsTableLBA :: u64
  NumberOfPartitionsTableEntries :: u32
  PartitionsTableEntrySize :: u32

definition parse_gpt_header :: "u8 list \<Rightarrow> GPTHeader" where
  "parse_gpt_header b =
     \<lparr>Signature = take 8 b, Revision = le_field 8 4 b, PartitionsTableLBA = le_field 72 8 b,
      NumberOfPartitionsTableEntries = le_field 80 4 b, PartitionsTableEntrySize = le_field 84 4 b\<rparr>"

text \<open>A header before it is read: its arrays are uninitialised, its numbers are zero.\<close>

definition blank_header :: "u8 list \<Rightarrow> u8 list \<Rightarrow> u8 list" where
  "blank_header signature diskGUID = take 8 signature @ replicate 48 0 @ take 16 diskGUID @ replicate 16 0"

record PartitionEntry =
  TypeGUID :: GUID
  UniqueGUID :: GUID
  StartLBA :: u64
  EndLBA :: u64
  part_Attributes :: u64
  part_Name :: "u8 list"

definition parse_partition_entry :: "u8 list \<Rightarrow> PartitionEntry" where
  "parse_partition_entry b =
     \<lparr>TypeGUID = parse_guid (take 16 b), UniqueGUID = parse_guid (take 16 (drop 16 b)),
      StartLBA = le_field 32 8 b, EndLBA = le_field 40 8 b, part_Attributes = le_field 48 8 b,
      part_Name = take 72 (drop 56 b)\<rparr>"

definition size_in_sectors :: "PartitionEntry \<Rightarrow> u64" where
  "size_in_sectors p = EndLBA p - StartLBA p"

definition should_ignore :: "PartitionEntry \<Rightarrow> bool" where
  "should_ignore p \<longleftrightarrow> part_Attributes p AND push_bit 1 1 \<noteq> 0"

section \<open>Finding the table\<close>

definition HEADER_SIGNATURE :: "u8 list" where
  "HEADER_SIGNATURE = [0x45, 0x46, 0x49, 0x20, 0x50, 0x41, 0x52, 0x54]"

definition is_gpt_present ::
    "'hw hba_ops \<Rightarrow> u8 list \<Rightarrow> 'hw PortController \<Rightarrow> (bool \<times> 'hw PortController) option" where
  "is_gpt_present hba blank pc =
     (case port_read_raw hba 512 88 (Some blank) pc of
        Some (_, Some bytes, pc1) \<Rightarrow>
          let hdr = parse_gpt_header bytes
          in Some (Revision hdr \<noteq> 0 \<and> (\<forall>i < 8. Signature hdr ! i = HEADER_SIGNATURE ! i), pc1)
      | _ \<Rightarrow> None)"

text \<open>The loop over the reserved types ends at the null entry.\<close>

definition known_partition :: "GUID \<Rightarrow> bool" where
  "known_partition t \<longleftrightarrow> t \<in> set (takeWhile (\<lambda>g. g \<noteq> NullGUID) ReservedPartitionGUIDs)"

definition wanted_partition :: "PartitionEntry \<Rightarrow> bool" where
  "wanted_partition p \<longleftrightarrow>
     \<not> should_ignore p \<and> TypeGUID p \<noteq> NullGUID \<and> \<not> EndLBA p < StartLBA p \<and> \<not> known_partition (TypeGUID p)"

text \<open>
  The loop over the table: offsets are multiplied and sectors numbered in 32 bits.  An entry that
  sticks out of the sector buffer has no result.
\<close>

fun partition_loop ::
    "'hw hba_ops \<Rightarrow> GPTHeader \<Rightarrow> nat list \<Rightarrow> u8 list \<Rightarrow> 'hw PortController \<Rightarrow>
      (PartitionEntry list \<times> 'hw PortController) option" where
  "partition_loop hba hdr [] sector pc = Some ([], pc)"
| "partition_loop hba hdr (i # is) sector pc =
     (let byteOffset = ucast (PartitionsTableEntrySize hdr * of_nat i) :: u64;
          partSector = ucast (PartitionsTableLBA hdr + byteOffset div 512) :: u32;
          within = unat (byteOffset mod 512)
      in case port_read_raw hba (ucast (partSector * 512)) 512 (Some sector) pc of
           Some (_, Some bytes, pc1) \<Rightarrow>
             if length bytes < within + 128 then None
             else
               let part = parse_partition_entry (take 128 (drop within bytes))
               in map_option (\<lambda>(parts, pc2). (if wanted_partition part then part # parts else parts, pc2))
                    (partition_loop hba hdr is bytes pc1)
         | _ \<Rightarrow> None)"

definition discover_partitions ::
    "'hw hba_ops \<Rightarrow> u8 list \<Rightarrow> u8 list \<Rightarrow> 'hw PortController \<Rightarrow>
      (PartitionEntry list \<times> 'hw PortController) option" where
  "discover_partitions hba blank sector pc =
     Option.bind (is_gpt_present hba blank pc) (\<lambda>(present, pc1).
       if \<not> present then Some ([], pc1)
       else case port_read_raw hba 512 88 (Some blank) pc1 of
         Some (_, Some bytes, pc2) \<Rightarrow>
           let hdr = parse_gpt_header bytes
           in partition_loop hba hdr [0..<unat (NumberOfPartitionsTableEntries hdr)] sector pc2
       | _ \<Rightarrow> None)"

definition partition_device :: "PartitionEntry \<Rightarrow> GPTPartitionDriver" where
  "partition_device part = make_gpt_partition (StartLBA part) 512"

section \<open>Which partitions are used\<close>

lemma partition_loop_wanted:
  "partition_loop hba hdr is sector pc = Some (parts, pc') \<Longrightarrow> list_all wanted_partition parts"
  by (induction hba hdr "is" sector pc arbitrary: parts pc' rule: partition_loop.induct)
     (auto simp: Let_def split: option.splits if_splits prod.splits)

text \<open>
  No partition of a reserved type, of the null type, marked to be ignored or ending before it
  starts becomes a device.
\<close>

lemma discover_partitions_wanted:
  "discover_partitions hba blank sector pc = Some (parts, pc') \<Longrightarrow> list_all wanted_partition parts"
  by (auto simp: discover_partitions_def Let_def partition_loop_wanted bind_eq_Some_conv
      split: if_splits option.splits prod.splits)

lemma reserved_partition_unused:
  assumes "discover_partitions hba blank sector pc = Some (parts, pc')" "p \<in> set parts"
    and "g \<in> set ReservedPartitionGUIDs"
  shows "TypeGUID p \<noteq> g"
proof -
  have w: "wanted_partition p"
    using discover_partitions_wanted [OF assms(1)] assms(2) by (simp add: list_all_iff)
  have "ReservedPartitionGUIDs = takeWhile (\<lambda>g. g \<noteq> NullGUID) ReservedPartitionGUIDs @ [NullGUID]"
    by code_simp
  then have "set ReservedPartitionGUIDs
      = insert NullGUID (set (takeWhile (\<lambda>g. g \<noteq> NullGUID) ReservedPartitionGUIDs))"
    by (metis list.set(1) list.set(2) set_append sup_bot_right insert_is_Un Un_commute)
  with w assms(3) show ?thesis by (auto simp: wanted_partition_def known_partition_def)
qed

end
