(* ===== verification/Utf.thy ===== *)
theory Utf
  imports LensorPrelude
begin

text \<open>
  Character encodings: the conversion from UTF-16 to UTF-8 of \<open>kernel/src/utf.cpp\<close>, used to show
  long file names, and the conversion from UTF-8 to UTF-16 inside
  \<open>FileAllocationTableDriver::translate_filename\<close>, used to look them up.  Strings are lists of
  bytes.  For text without surrogates the second undoes the first.
\<close>

section \<open>UTF-16 to UTF-8\<close>

definition append_codepoint_as_utf8 :: "u8 list \<Rightarrow> u32 \<Rightarrow> u8 list" where
  "append_codepoint_as_utf8 appendee codepoint =
     (if codepoint \<le> 0x7f then appendee @ [ucast codepoint]
      else if codepoint \<le> 0x07ff then
        appendee @ [ucast (0xc0 OR drop_bit 6 codepoint), ucast (0x80 OR (codepoint AND 0x3f))]
      else if codepoint \<le> 0xffff then
        appendee @ [ucast (0xe0 OR drop_bit 12 codepoint),
                    ucast (0x80 OR (drop_bit 6 codepoint AND 0x3f)),
                    ucast (0x80 OR (codepoint AND 0x3f))]
      else if codepoint \<le> 0x10ffff then
        appendee @ [ucast (0xf0 OR drop_bit 18 codepoint),
                    ucast (0x80 OR (drop_bit 12 codepoint AND 0x3f)),
                    ucast (0x80 OR (drop_bit 6 codepoint AND 0x3f)),
                    ucast (0x80 OR (codepoint AND 0x3f))]
      else appendee)"

definition code_unit :: "u8 \<Rightarrow> u8 \<Rightarrow> u16" where
  "code_unit lower upper = ucast lower OR push_bit 8 (ucast upper)"

text \<open>
  The low surrogate is read through plain \<open>char\<close>, which is signed: its bytes are sign-extended.
  A decoded pair advances by one code unit only.
\<close>

fun utf16_to_utf8_from :: "u8 list \<Rightarrow> u8 list \<Rightarrow> u8 list" where
  "utf16_to_utf8_from out (lower # upper # rest) =
     (let unit = code_unit lower upper in
      if unit \<le> 0xd7ff \<or> unit > 0xe000
      then utf16_to_utf8_from (append_codepoint_as_utf8 out (ucast unit)) rest
      else
        let high_surrogate_translated = push_bit 10 (unit - 0xd800) :: u16 in
        case rest of
          l # u # _ \<Rightarrow>
            (let low_surrogate = scast l OR push_bit 8 (scast u) :: u16 in
             if low_surrogate < 0xd800 \<or> low_surrogate > 0xdfff
             then utf16_to_utf8_from out rest
             else
               let low_surrogate_translated = low_surrogate - 0xdc00;
                   codepoint = 0x100000 + ucast high_surrogate_translated
                                 + ucast low_surrogate_translated :: u32
               in utf16_to_utf8_from (append_codepoint_as_utf8 out codepoint) rest)
        | _ \<Rightarrow> out)"
| "utf16_to_utf8_from out _ = out"

definition utf16_to_utf8 :: "u8 list \<Rightarrow> u8 list" where
  "utf16_to_utf8 utf16 = utf16_to_utf8_from [] utf16"

section \<open>UTF-8 to UTF-16\<close>

definition append_utf16_codepoint :: "u16 \<Rightarrow> u8 list" where
  "append_utf16_codepoint codepoint = [ucast codepoint, ucast (drop_bit 8 codepoint)]"

fun utf8_to_utf16 :: "u8 list \<Rightarrow> u8 list" where
  "utf8_to_utf16 [] = []"
| "utf8_to_utf16 (c # rest) =
     (if c AND 0x80 = 0 then c # 0 # utf8_to_utf16 rest
      else if c AND 0xf8 = 0xf0 then
        (case rest of
           b1 # b2 # b3 # rest' \<Rightarrow>
             (let codepoint = push_bit 18 (ucast (c AND 0x07)) OR push_bit 12 (ucast (b1 AND 0x3f))
                                OR push_bit 6 (ucast (b2 AND 0x3f)) OR ucast (b3 AND 0x3f) :: u32;
                  codepoint_adjusted = codepoint - 0x10000;
                  leading = ucast (0xd800 + (codepoint_adjusted AND push_bit 10 0x3ff)) :: u16;
                  trailing = ucast (0xdc00 + (codepoint_adjusted AND 0x3ff)) :: u16
              in append_utf16_codepoint leading @ append_utf16_codepoint trailing @ utf8_to_utf16 rest')
         | _ \<Rightarrow> [])
      else if c AND 0xf0 = 0xe0 then
        (case rest of
           b1 # b2 # rest' \<Rightarrow>
             append_utf16_codepoint
               (push_bit 12 (ucast (c AND 0x0f)) OR push_bit 6 (ucast (b1 AND 0x3f)) OR ucast (b2 AND 0x3f))
               @ utf8_to_utf16 rest'
         | _ \<Rightarrow> [])
      else if c AND 0xe0 = 0xc0 then
        (case rest of
           b1 # rest' \<Rightarrow>
             append_utf16_codepoint (push_bit 6 (ucast (c AND 0x1f)) OR ucast (b1 AND 0x3f))
               @ utf8_to_utf16 rest'
         | _ \<Rightarrow> [])
      else utf8_to_utf16 rest)"

section \<open>One code unit\<close>

text \<open>The UTF-8 form of a code unit that is a code point by itself, as a fixed list.\<close>

definition utf8_of :: "u16 \<Rightarrow> u8 list" where
  "utf8_of u = append_codepoint_as_utf8 [] (ucast u)"

lemma append_codepoint_as_utf8_append:
  "append_codepoint_as_utf8 out c = out @ append_codepoint_as_utf8 [] c"
  by (simp add: append_codepoint_as_utf8_def)

lemma u16_bounds: "(ucast (u :: u16) :: u32) \<le> 0xffff"
  using unsigned_less [where ?'a = nat, of u]
  by (simp add: word_le_nat_alt unsigned_ucast_eq take_bit_nat_eq_self)

lemma append_utf16_inverse: "append_utf16_codepoint (code_unit l h) = [l, h]"
  unfolding append_utf16_codepoint_def code_unit_def
  by (auto simp: bit_eq_iff bit_simps dest: bit_imp_le_length)

lemma bits_above:
  assumes "unat (u :: 'a::len word) < 2 ^ k" "k \<le> n"
  shows "\<not> bit u n"
proof -
  have "(2 :: nat) ^ k \<le> 2 ^ n" using assms(2) by simp
  with assms(1) have "unat u < 2 ^ n" by linarith
  then have "\<not> bit (unat u) n" by (simp add: bit_iff_odd)
  then show ?thesis by (simp add: bit_simps)
qed

lemma less_16_cases: "(x :: u8) < 16 \<Longrightarrow> x \<in> set (map of_nat [0..<16])"
  by (auto simp: word_less_nat_alt intro!: image_eqI [of _ _ "unat x"])

lemma less_32_cases: "(x :: u8) < 32 \<Longrightarrow> x \<in> set (map of_nat [0..<32])"
  by (auto simp: word_less_nat_alt intro!: image_eqI [of _ _ "unat x"])

lemma lead_byte_3:
  "(x :: u8) < 16 \<Longrightarrow> (0xe0 OR x) AND 0x80 \<noteq> 0 \<and> (0xe0 OR x) AND 0xf8 \<noteq> 0xf0 \<and>
     (0xe0 OR x) AND 0xf0 = 0xe0 \<and> (0xe0 OR x) AND 0x0f = x"
  by (drule less_16_cases) (auto simp: upt_rec)

lemma lead_byte_2:
  "(x :: u8) < 32 \<Longrightarrow> (0xc0 OR x) AND 0x80 \<noteq> 0 \<and> (0xc0 OR x) AND 0xf8 \<noteq> 0xf0 \<and>
     (0xc0 OR x) AND 0xf0 \<noteq> 0xe0 \<and> (0xc0 OR x) AND 0xe0 = 0xc0 \<and> (0xc0 OR x) AND 0x1f = x"
  by (drule less_32_cases) (auto simp: upt_rec)

lemma trail_byte: "(0x80 OR (y AND 0x3f)) AND 0x3f = (y AND 0x3f :: u8)"
proof -
  have m: "(0x3f :: u8) = mask 6" by (simp add: mask_eq_exp_minus_1)
  have "(0x80 :: u8) AND mask 6 = 0" by (simp add: mask_eq_exp_minus_1)
  then show ?thesis unfolding m by (simp add: bit.conj_disj_distrib2 and.assoc)
qed

lemma unat_u16_u32: "unat (ucast (u :: u16) :: u32) = unat u"
  using unsigned_less [where ?'a = nat, of u] by (simp add: unsigned_ucast_eq take_bit_nat_eq_self)

lemma ucast_or_u8: "(ucast (v OR w :: u32) :: u8) = ucast v OR ucast w"
  by (rule bit_word_eqI) (simp add: bit_simps)

lemma ucast_and_u8: "(ucast (v AND w :: u32) :: u8) = ucast v AND ucast w"
  by (rule bit_word_eqI) (simp add: bit_simps)

lemma ucast_drop_u8: "(ucast (drop_bit n (ucast (u :: u16) :: u32)) :: u8) = ucast (drop_bit n u)"
  by (rule bit_word_eqI) (auto simp: bit_simps dest: bit_imp_le_length)

lemma ucast_ucast_u8: "(ucast (ucast (u :: u16) :: u32) :: u8) = ucast u"
  by (rule bit_word_eqI) (auto simp: bit_simps dest: bit_imp_le_length)

lemmas utf8_of_simps = utf8_of_def append_codepoint_as_utf8_def word_le_nat_alt word_less_nat_alt
  unat_u16_u32 ucast_or_u8 ucast_and_u8 ucast_drop_u8 ucast_ucast_u8

lemma utf8_of_1: "u < 0x80 \<Longrightarrow> utf8_of u = [ucast u]"
  by (simp add: utf8_of_simps)

lemma utf8_of_2: "0x80 \<le> u \<Longrightarrow> u < 0x800 \<Longrightarrow>
    utf8_of u = [0xc0 OR ucast (drop_bit 6 u), 0x80 OR (ucast u AND 0x3f)]"
  by (simp add: utf8_of_simps)

lemma utf8_of_3: "0x800 \<le> u \<Longrightarrow>
    utf8_of u = [0xe0 OR ucast (drop_bit 12 u), 0x80 OR (ucast (drop_bit 6 u) AND 0x3f),
                 0x80 OR (ucast u AND 0x3f)]"
  using unsigned_less [where ?'a = nat, of u] by (simp add: utf8_of_simps)

lemma join_2:
  assumes "u < 0x800"
  shows "push_bit 6 (ucast (ucast (drop_bit 6 u) :: u8)) OR ucast ((ucast u :: u8) AND 0x3f) = (u :: u16)"
    (is "?w = u")
proof (rule bit_word_eqI)
  fix n assume n: "n < LENGTH(16)"
  have m: "(0x3f :: u8) = mask 6" by (simp add: mask_eq_exp_minus_1)
  have "unat u < 2 ^ 11" using assms by (simp add: word_less_nat_alt)
  then have h: "\<not> bit u n" if "11 \<le> n" using that by (rule bits_above)
  consider "n < 6" | "6 \<le> n" "n < 11" | "11 \<le> n" by linarith
  then show "bit ?w n = bit u n"
    unfolding m by cases (use n h in \<open>auto simp: bit_simps\<close>)
qed

lemma join_3:
  "push_bit 12 (ucast (ucast (drop_bit 12 u) :: u8)) OR push_bit 6 (ucast ((ucast (drop_bit 6 u) :: u8) AND 0x3f))
     OR ucast ((ucast u :: u8) AND 0x3f) = (u :: u16)" (is "?w = u")
proof (rule bit_word_eqI)
  fix n assume n: "n < LENGTH(16)"
  have m: "(0x3f :: u8) = mask 6" by (simp add: mask_eq_exp_minus_1)
  consider "n < 6" | "6 \<le> n" "n < 12" | "12 \<le> n" by linarith
  then show "bit ?w n = bit u n"
    unfolding m by cases (use n in \<open>auto simp: bit_simps\<close>)
qed

lemma utf8_to_utf16_of:
  "utf8_to_utf16 (utf8_of u @ rest) = append_utf16_codepoint u @ utf8_to_utf16 rest"
proof -
  consider "u < 0x80" | "0x80 \<le> u" "u < 0x800" | "0x800 \<le> u" by fastforce
  then show ?thesis
  proof cases
    case 1
    have "unat u < 2 ^ 7" using 1 by (simp add: word_less_nat_alt)
    then have n: "\<not> bit u n" if "7 \<le> n" for n using that by (rule bits_above)
    have b: "i = 7" if "bit (0x80 :: u8) i" for i
      using that bit_exp_iff [where ?'a = u8, of 7 i] by (auto dest: bit_imp_le_length)
    have "\<not> bit (ucast u :: u8) 7" using n [of 7] by (simp add: bit_simps)
    then have "\<not> (bit (ucast u :: u8) i \<and> bit (0x80 :: u8) i)" for i using b by blast
    then have "(ucast u :: u8) AND 0x80 = 0"
      unfolding bit_eq_iff bit_and_iff bit_0_eq bot_apply bot_bool_def by blast
    moreover have "(ucast (drop_bit 8 u) :: u8) = 0" using n by (intro bit_word_eqI) (simp add: bit_simps)
    ultimately show ?thesis using 1 by (simp add: utf8_of_1 append_utf16_codepoint_def)
  next
    case 2
    have "unat u < 2048" using 2(2) by (simp add: word_less_nat_alt)
    then have "(ucast (drop_bit 6 u) :: u8) < 32"
      by (simp add: word_less_nat_alt unat_ucast_u8 unat_drop_bit div_less_iff_less_mult
          order.strict_trans1 [OF mod_less_eq_dividend])
    from lead_byte_2 [OF this] show ?thesis
      using 2 by (simp add: utf8_of_2 trail_byte join_2)
  next
    case 3
    have "unat u < 65536" using unsigned_less [where ?'a = nat, of u] by simp
    then have "(ucast (drop_bit 12 u) :: u8) < 16"
      by (simp add: word_less_nat_alt unat_ucast_u8 unat_drop_bit div_less_iff_less_mult
          order.strict_trans1 [OF mod_less_eq_dividend])
    from lead_byte_3 [OF this] show ?thesis
      using 3 by (simp add: utf8_of_3 trail_byte join_3)
  qed
qed

section \<open>Texts\<close>

definition unit_bytes :: "u16 list \<Rightarrow> u8 list" where
  "unit_bytes us = concat (map append_utf16_codepoint us)"

definition no_surrogate :: "u16 \<Rightarrow> bool" where
  "no_surrogate u \<longleftrightarrow> u \<le> 0xd7ff \<or> 0xe000 < u"

lemma code_unit_append: "code_unit (ucast u) (ucast (drop_bit 8 u)) = u"
proof (rule bit_word_eqI)
  fix n assume "n < LENGTH(16)"
  then show "bit (code_unit (ucast u) (ucast (drop_bit 8 u))) n = bit u n"
    by (cases "n < 8") (auto simp: code_unit_def bit_simps)
qed

lemma utf16_to_utf8_from_units:
  "list_all no_surrogate us \<Longrightarrow> utf16_to_utf8_from out (unit_bytes us) = out @ concat (map utf8_of us)"
proof (induction us arbitrary: out)
  case (Cons u us)
  then show ?case
    by (simp add: unit_bytes_def append_utf16_codepoint_def code_unit_append no_surrogate_def Let_def
        append_codepoint_as_utf8_append [of out] flip: utf8_of_def)
qed (simp add: unit_bytes_def)

lemma utf8_to_utf16_units: "utf8_to_utf16 (concat (map utf8_of us)) = unit_bytes us"
  by (induction us) (simp_all add: utf8_to_utf16_of unit_bytes_def)

text \<open>
  A surrogate pair comes out as another character: U+1F600, whose UTF-8 form is F0 9F 98 80, is
  shown as U+10F600.
\<close>

lemma surrogate_pair_misdecoded:
  "utf16_to_utf8 [0x3d, 0xd8, 0x00, 0xde] = [0xf4, 0x8f, 0x98, 0x80]"
  by code_simp

section \<open>Properties\<close>



end
