(* ===== verification/Fat.thy ===== *)
theory Fat
  imports Vfs Utf
begin

unbundle bit_operations_syntax

text \<open>
  The file allocation table driver: the structures of \<open>kernel/src/fat_definitions.h\<close> and the
  driver of \<open>storage/filesystem_drivers/file_allocation_table.cpp\<close> and \<open>.h\<close>: recognising a
  volume, file names, iteration over the entries of a directory, lookup of a path and listing of a
  directory.

  The driver reaches its storage device through the virtual functions of \<open>StorageDeviceDriver\<close>;
  \<open>dev_read\<close> is \<open>read_raw\<close>: offset, byte count and the buffer before the call give the returned
  count and the buffer after it; \<open>dev_write\<close> is \<open>write\<close>.  \<open>dev_fresh n\<close> is what uninitialised memory of \<open>n\<close> bytes holds.  \<open>None\<close> is
  undefined behaviour (a division by zero, an access outside an array) or a loop that never ends.
\<close>

section \<open>On-disk structures\<close>

fun le_num :: "u8 list \<Rightarrow> nat" where
  "le_num [] = 0"
| "le_num (b # bs) = unat b + 256 * le_num bs"

definition field :: "nat \<Rightarrow> nat \<Rightarrow> u8 list \<Rightarrow> nat" where
  "field at n bytes = le_num (take n (drop at bytes))"

record BIOSParameterBlock =
  NumBytesPerSector :: u16
  NumSectorsPerCluster :: u8
  NumReservedSectors :: u16
  NumFATsPresent :: u8
  NumEntriesInRoot :: u16
  TotalSectors16 :: u16
  NumSectorsPerFAT :: u16
  TotalSectors32 :: u32

record BootRecord =
  BPB :: BIOSParameterBlock
  NumSectorsPerFAT32 :: u32
  Magic :: u16

definition parse_boot_record :: "u8 list \<Rightarrow> BootRecord" where
  "parse_boot_record b =
     \<lparr>BPB = \<lparr>NumBytesPerSector = of_nat (field 11 2 b), NumSectorsPerCluster = of_nat (field 13 1 b),
             NumReservedSectors = of_nat (field 14 2 b), NumFATsPresent = of_nat (field 16 1 b),
             NumEntriesInRoot = of_nat (field 17 2 b), TotalSectors16 = of_nat (field 19 2 b),
             NumSectorsPerFAT = of_nat (field 22 2 b), TotalSectors32 = of_nat (field 32 4 b)\<rparr>,
      NumSectorsPerFAT32 = of_nat (field 36 4 b), Magic = of_nat (field 510 2 b)\<rparr>"

definition first_fat_sector :: "BIOSParameterBlock \<Rightarrow> u64" where
  "first_fat_sector b = ucast (NumReservedSectors b)"

definition cluster_size :: "BIOSParameterBlock \<Rightarrow> u64" where
  "cluster_size b = ucast (NumSectorsPerCluster b) * ucast (NumBytesPerSector b)"

definition root_directory_sectors :: "BIOSParameterBlock \<Rightarrow> u64 option" where
  "root_directory_sectors b =
     (if NumBytesPerSector b = 0 then None
      else Some ((ucast (NumEntriesInRoot b) * 32 + (ucast (NumBytesPerSector b) - 1))
                   div ucast (NumBytesPerSector b)))"

definition total_sectors :: "BIOSParameterBlock \<Rightarrow> u32" where
  "total_sectors b = (if TotalSectors16 b = 0 then TotalSectors32 b else ucast (TotalSectors16 b))"

definition fat_sectors :: "BootRecord \<Rightarrow> u64" where
  "fat_sectors br =
     (if NumSectorsPerFAT (BPB br) = 0 then ucast (NumSectorsPerFAT32 br)
      else ucast (NumSectorsPerFAT (BPB br)))"

definition first_data_sector :: "BootRecord \<Rightarrow> u64 option" where
  "first_data_sector br =
     map_option (\<lambda>root. ucast (NumReservedSectors (BPB br))
                   + ucast (NumFATsPresent (BPB br)) * fat_sectors br + root)
       (root_directory_sectors (BPB br))"

definition data_sectors :: "BootRecord \<Rightarrow> u64 option" where
  "data_sectors br = map_option (\<lambda>first. ucast (total_sectors (BPB br)) - first) (first_data_sector br)"

definition total_clusters :: "BootRecord \<Rightarrow> u64 option" where
  "total_clusters br =
     (if NumSectorsPerCluster (BPB br) = 0 then None
      else map_option (\<lambda>n. n div ucast (NumSectorsPerCluster (BPB br))) (data_sectors br))"

definition first_root_directory_sector :: "BootRecord \<Rightarrow> u64 option" where
  "first_root_directory_sector br =
     do { first \<leftarrow> first_data_sector br; root \<leftarrow> root_directory_sectors (BPB br); Some (first - root) }"

definition cluster_to_sector :: "BootRecord \<Rightarrow> u64 \<Rightarrow> u64 option" where
  "cluster_to_sector br cluster =
     map_option (\<lambda>first. (cluster - 2) * ucast (NumSectorsPerCluster (BPB br)) + first)
       (first_data_sector br)"

definition sector_to_cluster :: "BootRecord \<Rightarrow> u64 \<Rightarrow> u64 option" where
  "sector_to_cluster br sector =
     (if NumSectorsPerCluster (BPB br) = 0 then None
      else map_option (\<lambda>first. (sector - first) div ucast (NumSectorsPerCluster (BPB br)) + 2)
             (first_data_sector br))"

datatype FATType = FAT_INVALID | FAT12 | FAT16 | FAT32 | ExFAT

definition fat_type :: "BootRecord \<Rightarrow> FATType option" where
  "fat_type br =
     map_option (\<lambda>totalClusters.
       if totalClusters = 0 then ExFAT
       else if totalClusters < 4085 then FAT12
       else if totalClusters < 65525 then FAT16
       else FAT32) (total_clusters br)"

record ClusterEntry =
  ce_FileName :: "u8 list"
  Attributes :: u8
  ClusterNumberH :: u16
  ClusterNumberL :: u16
  FileSizeInBytes :: u32

definition parse_cluster_entry :: "u8 list \<Rightarrow> ClusterEntry" where
  "parse_cluster_entry b =
     \<lparr>ce_FileName = take 11 b, Attributes = of_nat (field 11 1 b),
      ClusterNumberH = of_nat (field 20 2 b), ClusterNumberL = of_nat (field 26 2 b),
      FileSizeInBytes = of_nat (field 28 4 b)\<rparr>"

definition get_cluster_number :: "ClusterEntry \<Rightarrow> u32" where
  "get_cluster_number e = ucast (ClusterNumberL e) OR push_bit 16 (ucast (ClusterNumberH e))"

definition long_file_name :: "ClusterEntry \<Rightarrow> bool" where
  "long_file_name e \<longleftrightarrow> Attributes e AND 1 \<noteq> 0 \<and> Attributes e AND 2 \<noteq> 0
     \<and> Attributes e AND 4 \<noteq> 0 \<and> Attributes e AND 8 \<noteq> 0"

definition volume_id :: "ClusterEntry \<Rightarrow> bool" where
  "volume_id e \<longleftrightarrow> Attributes e AND 8 \<noteq> 0"

definition is_directory :: "ClusterEntry \<Rightarrow> bool" where
  "is_directory e \<longleftrightarrow> Attributes e AND 16 \<noteq> 0"

section \<open>Recognising a volume\<close>

record 'd device =
  dev_read :: "u64 \<Rightarrow> u64 \<Rightarrow> u8 list \<Rightarrow> 'd \<Rightarrow> int \<times> u8 list"
  dev_write :: "u64 \<Rightarrow> u64 \<Rightarrow> (nat \<Rightarrow> u8) \<Rightarrow> 'd \<Rightarrow> int \<times> 'd"
  dev_fresh :: "nat \<Rightarrow> u8 list"

record fat_driver =
  fat_BR :: BootRecord
  fat_Type :: FATType

text \<open>\<open>Some None\<close> is a null driver.\<close>

definition fat_try_create :: "'d device \<Rightarrow> 'd \<Rightarrow> fat_driver option option" where
  "fat_try_create dev d =
     (let (n_read, bytes) = dev_read dev 0 512 (dev_fresh dev 512) d in
      if n_read \<noteq> 512 then Some None
      else
        let br = parse_boot_record bytes;
            b = BPB br;
            totalSectors = if TotalSectors16 b = 0 then ucast (TotalSectors32 b)
                           else ucast (TotalSectors16 b) :: u64;
            out = Magic br = 0xaa55 \<and> totalSectors \<noteq> 0
              \<and> 512 \<le> NumBytesPerSector b \<and> NumBytesPerSector b \<le> 4096
              \<and> NumBytesPerSector b AND (NumBytesPerSector b - 1) = 0
              \<and> NumSectorsPerCluster b AND (NumSectorsPerCluster b - 1) = 0
              \<and> 0 < NumFATsPresent b
        in if \<not> out then Some None
           else map_option (\<lambda>t. Some \<lparr>fat_BR = br, fat_Type = t\<rparr>) (fat_type br))"

section \<open>File names\<close>

abbreviation slash :: u8 where "slash \<equiv> 0x2f"
abbreviation dot :: u8 where "dot \<equiv> 0x2e"
abbreviation space :: u8 where "space \<equiv> 0x20"

definition strip_slash :: "u8 list \<Rightarrow> u8 list" where
  "strip_slash path = (case path of c # rest \<Rightarrow> if c = slash then rest else path | [] \<Rightarrow> [])"

text \<open>The popped name and the path that is left.\<close>

definition pop_filename_from_front_of_path :: "u8 list \<Rightarrow> u8 list \<times> u8 list" where
  "pop_filename_from_front_of_path raw_path =
     (let path = strip_slash raw_path in
      if path = [] then (raw_path, raw_path)
      else if slash \<notin> set path then (path, path)
      else
        let out = takeWhile (\<lambda>c. c \<noteq> slash) path;
            rest = dropWhile (\<lambda>c. c \<noteq> slash) path
        in (out, if rest = [slash] then out else rest))"

definition to_upper :: "u8 \<Rightarrow> u8" where
  "to_upper c = (if 97 \<le> c \<and> c \<le> 122 then c - 32 else c)"

fun find_last_dot :: "u8 list \<Rightarrow> nat option" where
  "find_last_dot [] = None"
| "find_last_dot (c # cs) =
     (case find_last_dot cs of Some i \<Rightarrow> Some (Suc i) | None \<Rightarrow> if c = dot then Some 0 else None)"

text \<open>The search for the last dot of an empty name runs backwards out of the string.\<close>

definition translate_filename :: "u8 list \<Rightarrow> u8 list option" where
  "translate_filename raw_filename =
     (let path = map to_upper raw_filename in
      if length path = 12 \<and> path ! 8 = dot then Some (take 8 path @ drop 9 path)
      else if length path \<le> 12 then
        if path = [] then None
        else case find_last_dot path of
          Some last_dot \<Rightarrow>
            if 8 < last_dot then Some raw_filename
            else
              let extension = take 3 (drop (last_dot + 1) path @ [space, space, space]);
                  name = take last_dot path
              in Some (name @ replicate (8 - length name) space @ extension)
        | None \<Rightarrow>
            if 8 < length path then Some (utf8_to_utf16 raw_filename)
            else Some (path @ replicate (11 - length path) space)
      else Some path)"

definition to_lower :: "u8 \<Rightarrow> u8" where
  "to_lower c = (if 0x41 \<le> c \<and> c \<le> 0x5a then c + 32 else c)"

text \<open>
  \<open>while (s.back() == ' ') s.erase(s.size() - 1);\<close>.  \<open>back\<close> of an empty string reads the byte
  before its storage, \<open>stray\<close>; erasing from an empty string changes nothing.
\<close>

definition erase_trailing_spaces :: "u8 \<Rightarrow> u8 list \<Rightarrow> u8 list option" where
  "erase_trailing_spaces stray s =
     (let t = rev (dropWhile (\<lambda>c. c = space) (rev s))
      in if t = [] \<and> stray = space then None else Some t)"

definition short_name :: "u8 \<Rightarrow> u8 list \<Rightarrow> u8 list option" where
  "short_name stray fileName =
     (if length fileName = 11 then do {
        let filename = map to_lower fileName;
        name \<leftarrow> erase_trailing_spaces stray (take 8 filename);
        extension \<leftarrow> erase_trailing_spaces stray (take 3 (drop 8 filename));
        Some (if extension \<noteq> [] then name @ [dot] @ extension else name)
      }
      else Some fileName)"

section \<open>Directory iteration\<close>

record iterator =
  it_ClusterIndex :: u32
  ClusterContents :: "u8 list"
  LastFATSector :: u64
  MoreClusters :: bool
  ClearLFN :: bool
  it_CE :: nat
  ByteOffset :: u64
  it_FileName :: "u8 list"
  LongFileName :: "u8 list"

text \<open>The entry under the pointer; none past the end of the cluster.\<close>

definition entry_at :: "iterator \<Rightarrow> u8 list option" where
  "entry_at it =
     (if 32 * Suc (it_CE it) \<le> length (ClusterContents it)
      then Some (take 32 (drop (32 * it_CE it) (ClusterContents it))) else None)"

definition ReadNextCluster :: "'d device \<Rightarrow> 'd \<Rightarrow> fat_driver \<Rightarrow> iterator \<Rightarrow> iterator option" where
  "ReadNextCluster dev d drv it =
     do {
       clusterSector \<leftarrow> cluster_to_sector (fat_BR drv) (ucast (it_ClusterIndex it));
       let (n, bytes) = dev_read dev (clusterSector * ucast (NumBytesPerSector (BPB (fat_BR drv))))
                          (cluster_size (BPB (fat_BR drv))) (ClusterContents it) d;
       Some (it\<lparr>ClusterContents := bytes, it_CE := 0, LongFileName := [], ClearLFN := False\<rparr>)
     }"

definition fat_offset :: "FATType \<Rightarrow> u64 \<Rightarrow> u64" where
  "fat_offset t clusterNumber =
     (case t of
        FAT12 \<Rightarrow> clusterNumber + clusterNumber div 2
      | FAT16 \<Rightarrow> clusterNumber * 2
      | _ \<Rightarrow> clusterNumber * 4)"

text \<open>The value of the table entry, and whether it ends the chain.\<close>

definition table_value :: "FATType \<Rightarrow> u64 \<Rightarrow> nat \<Rightarrow> u8 list \<Rightarrow> (u64 \<times> bool) option" where
  "table_value t clusterNumber entryOffset FAT =
     (case t of
        FAT12 \<Rightarrow>
          if length FAT < entryOffset + 2 then None
          else let v = of_nat (field entryOffset 2 FAT);
                   w = if clusterNumber AND 1 \<noteq> 0 then drop_bit 4 v else v AND 0x0fff
               in Some (w, 0x0ff8 \<le> w)
      | FAT16 \<Rightarrow>
          if length FAT < entryOffset + 2 then None
          else let v = of_nat (field entryOffset 2 FAT) in Some (v, 0xfff8 \<le> v)
      | FAT32 \<Rightarrow>
          if length FAT < entryOffset + 4 then None
          else let v = of_nat (field entryOffset 4 FAT) AND 0xfffffff in Some (v, 0x0ffffff8 \<le> v)
      | ExFAT \<Rightarrow>
          if length FAT < entryOffset + 4 then None
          else Some (of_nat (field entryOffset 4 FAT), False)
      | FAT_INVALID \<Rightarrow> Some (0, False))"

text \<open>
  The table is read into a vector of one sector, whatever the number of its sectors; a longer
  table overruns the vector.
\<close>

definition TryReadNextCluster :: "'d device \<Rightarrow> 'd \<Rightarrow> fat_driver \<Rightarrow> iterator \<Rightarrow> iterator option" where
  "TryReadNextCluster dev d drv it =
     do {
       entry \<leftarrow> entry_at it;
       let bps = (ucast (NumBytesPerSector (BPB (fat_BR drv))) :: u64);
       let clusterNumber = (ucast (get_cluster_number (parse_cluster_entry entry)) :: u64);
       let FAToffset = fat_offset (fat_Type drv) clusterNumber;
       if bps = 0 then None
       else do {
         let FATsector = first_fat_sector (BPB (fat_BR drv)) + FAToffset div bps;
         let entryOffset = FAToffset mod bps;
         if entryOffset \<le> 1 \<or> FATsector = LastFATSector it then Some (it\<lparr>MoreClusters := False\<rparr>)
         else if 1 < fat_sectors (fat_BR drv) then None
         else do {
           let (n, FAT) = dev_read dev (FATsector * bps) (fat_sectors (fat_BR drv) * bps)
                            (dev_fresh dev (unat bps)) d;
           (v, last) \<leftarrow> table_value (fat_Type drv) clusterNumber (unat entryOffset) FAT;
           let it2 = it\<lparr>LastFATSector := FATsector, it_ClusterIndex := ucast v,
                        MoreClusters := \<not> last\<rparr>;
           if MoreClusters it2 then ReadNextCluster dev d drv it2 else Some it2
         }
       }
     }"

definition remove_trailing_ff :: "u8 list \<Rightarrow> u8 list" where
  "remove_trailing_ff s = rev (dropWhile (\<lambda>c. c = 0xff) (rev s))"

definition lfn_characters :: "u8 list \<Rightarrow> u8 list" where
  "lfn_characters e = take 10 (drop 1 e) @ take 12 (drop 14 e) @ take 4 (drop 28 e)"

text \<open>
  The inner loop of \<open>operator++\<close>: on to the next entry that is no part of a long name
  (\<open>True\<close>), or to the entry with an empty name (\<open>False\<close>).  A deleted entry is tested again for ever.
\<close>

function scan_entries :: "fat_driver \<Rightarrow> iterator \<Rightarrow> (bool \<times> iterator) option" where
  "scan_entries drv it =
     (case entry_at it of
        None \<Rightarrow> None
      | Some e \<Rightarrow>
          if e ! 0 = 0 then Some (False, it)
          else if e ! 0 = 0xe5 then None
          else
            let it1 = if ClearLFN it then it\<lparr>LongFileName := [], ClearLFN := False\<rparr> else it;
                ce = parse_cluster_entry e
            in if long_file_name ce
               then scan_entries drv (it1\<lparr>LongFileName := LongFileName it1 @ lfn_characters e,
                                          it_CE := Suc (it_CE it)\<rparr>)
               else
                 let lfn = remove_trailing_ff (LongFileName it1);
                     lfn2 = if 2 < length lfn then take (length lfn - 2) lfn else lfn
                 in map_option (\<lambda>sector.
                      (True, it1\<lparr>ClearLFN := True, it_FileName := ce_FileName ce, LongFileName := lfn2,
                                 ByteOffset := sector * ucast (NumBytesPerSector (BPB (fat_BR drv)))\<rparr>))
                    (cluster_to_sector (fat_BR drv) (ucast (get_cluster_number ce))))"
  by auto
termination
  by (relation "measure (\<lambda>(drv, it). length (ClusterContents it) - it_CE it)")
     (auto simp: entry_at_def Let_def split: if_splits)

declare scan_entries.simps [simp del]

partial_function (option) iterate_clusters :: "'d device \<Rightarrow> 'd \<Rightarrow> fat_driver \<Rightarrow> iterator \<Rightarrow> iterator option" where
  "iterate_clusters dev d drv it =
     (if \<not> MoreClusters it then Some it
      else Option.bind (scan_entries drv it) (\<lambda>(found, it1).
        if found then Some it1
        else Option.bind (TryReadNextCluster dev d drv it1) (iterate_clusters dev d drv)))"

text \<open>\<open>operator++\<close> and the constructor, which increments once.\<close>

definition iterator_next :: "'d device \<Rightarrow> 'd \<Rightarrow> fat_driver \<Rightarrow> iterator \<Rightarrow> iterator option" where
  "iterator_next dev d drv it = iterate_clusters dev d drv (it\<lparr>it_CE := Suc (it_CE it)\<rparr>)"

definition iterator_begin :: "'d device \<Rightarrow> 'd \<Rightarrow> fat_driver \<Rightarrow> u32 \<Rightarrow> iterator option" where
  "iterator_begin dev d drv directoryCluster =
     do {
       it \<leftarrow> ReadNextCluster dev d drv
               \<lparr>it_ClusterIndex = directoryCluster,
                ClusterContents = dev_fresh dev (unat (cluster_size (BPB (fat_BR drv)))),
                LastFATSector = 0, MoreClusters = True, ClearLFN = False, it_CE = 0, ByteOffset = 0,
                it_FileName = [], LongFileName = []\<rparr>;
       iterator_next dev d drv it
     }"

text \<open>
  A range-for over the entries: the body takes the entry and the accumulator and says whether it
  breaks out.
\<close>

partial_function (option) for_each_entry ::
    "'d device \<Rightarrow> 'd \<Rightarrow> fat_driver \<Rightarrow> (ClusterEntry \<Rightarrow> iterator \<Rightarrow> 'a \<Rightarrow> ('a \<times> bool) option) \<Rightarrow> 'a \<Rightarrow> iterator \<Rightarrow> 'a option" where
  "for_each_entry dev d drv body acc it =
     (if \<not> MoreClusters it then Some acc
      else Option.bind (entry_at it) (\<lambda>e.
        Option.bind (body (parse_cluster_entry e) it acc) (\<lambda>(acc', stop).
          if stop then Some acc'
          else Option.bind (iterator_next dev d drv it) (for_each_entry dev d drv body acc'))))"

definition for_each_dir_entry_in ::
    "'d device \<Rightarrow> 'd \<Rightarrow> fat_driver \<Rightarrow> u32 \<Rightarrow> (ClusterEntry \<Rightarrow> iterator \<Rightarrow> 'a \<Rightarrow> ('a \<times> bool) option) \<Rightarrow> 'a \<Rightarrow> 'a option" where
  "for_each_dir_entry_in dev d drv directoryCluster body acc =
     do { it \<leftarrow> iterator_begin dev d drv directoryCluster; for_each_entry dev d drv body acc it }"

section \<open>Lookup\<close>

definition find_entry ::
    "'d device \<Rightarrow> 'd \<Rightarrow> fat_driver \<Rightarrow> u32 \<Rightarrow> u8 list \<Rightarrow> (ClusterEntry \<times> u64) option option" where
  "find_entry dev d drv directoryCluster filename =
     for_each_dir_entry_in dev d drv directoryCluster
       (\<lambda>ce it acc. Some (if it_FileName it \<noteq> filename \<and> LongFileName it \<noteq> filename then (acc, False)
                          else (Some (ce, ByteOffset it), True))) None"

definition root_cluster :: "BootRecord \<Rightarrow> u32 option" where
  "root_cluster br = do { s \<leftarrow> first_root_directory_sector br; c \<leftarrow> sector_to_cluster br s; Some (ucast c) }"

lemma strip_slash_length: "length (strip_slash path) \<le> length path"
  by (simp add: strip_slash_def split: list.split)

lemma pop_filename_shorter:
  assumes "pop_filename_from_front_of_path raw = (name, rest)" "rest \<noteq> name"
  shows "length rest < length raw"
proof -
  let ?p = "strip_slash raw"
  have p: "slash \<in> set ?p" "rest = dropWhile (\<lambda>c. c \<noteq> slash) ?p"
    using assms by (auto simp: pop_filename_from_front_of_path_def Let_def split: if_splits)
  show ?thesis
  proof (cases "?p = raw")
    case True
    then have "takeWhile (\<lambda>c. c \<noteq> slash) ?p \<noteq> []"
      using p(1) by (cases raw) (auto simp: strip_slash_def split: if_splits)
    then have "length rest < length ?p"
      unfolding p(2) by (metis add_less_same_cancel2 append_Nil2 length_0_conv length_append
          less_add_same_cancel2 length_greater_0_conv takeWhile_dropWhile_id)
    with True show ?thesis by simp
  next
    case False
    then have "length ?p < length raw" by (auto simp: strip_slash_def split: list.splits if_splits)
    moreover have "length rest \<le> length ?p" unfolding p(2) by (rule length_dropWhile_le)
    ultimately show ?thesis by simp
  qed
qed

lemma pop_filename_decreases:
  "(name, rest) = pop_filename_from_front_of_path raw \<Longrightarrow> rest \<noteq> name \<Longrightarrow> length rest < length raw"
  "(name, rest) = pop_filename_from_front_of_path (strip_slash raw) \<Longrightarrow> rest \<noteq> name \<Longrightarrow>
     length rest < length raw"
  using pop_filename_shorter [of raw name rest] pop_filename_shorter [of "strip_slash raw" name rest]
    strip_slash_length [of raw] by (simp_all add: eq_commute [of "(name, rest)"])

text \<open>The metadata of the file: type, name, size and position; or a null pointer.\<close>

function traverse_path ::
    "'d device \<Rightarrow> 'd \<Rightarrow> fat_driver \<Rightarrow> u8 list \<Rightarrow> u32 \<Rightarrow> (FileType \<times> u8 list \<times> u32 \<times> u64) option option" where
  "traverse_path dev d drv raw_path directoryCluster =
     Option.bind (if directoryCluster = - 1 then root_cluster (fat_BR drv) else Some directoryCluster)
      (\<lambda>dir.
       let raw = strip_slash raw_path in
       if raw = [] then Some None
       else let (raw_filename, path) = pop_filename_from_front_of_path raw in
         Option.bind (translate_filename raw_filename) (\<lambda>filename.
         Option.bind (find_entry dev d drv dir filename) (\<lambda>found.
           case found of
             None \<Rightarrow> Some None
           | Some (ce, byteOffset) \<Rightarrow>
               if path = raw_filename
               then Some (Some (if is_directory ce then Directory else Regular, filename,
                                FileSizeInBytes ce, byteOffset))
               else if \<not> is_directory ce then Some None
               else traverse_path dev d drv path (get_cluster_number ce))))"
  by auto
termination
  by (relation "measure (\<lambda>(dev, d, drv, raw_path, dir). length raw_path)")
     (simp_all add: pop_filename_decreases)

declare traverse_path.simps [simp del]

definition fat_open :: "'d device \<Rightarrow> 'd \<Rightarrow> fat_driver \<Rightarrow> u8 list \<Rightarrow>
    (FileType \<times> u8 list \<times> u32 \<times> u64) option option" where
  "fat_open dev d drv raw_path = traverse_path dev d drv raw_path (- 1)"

function traverse_path_for_cluster :: "'d device \<Rightarrow> 'd \<Rightarrow> fat_driver \<Rightarrow> u8 list \<Rightarrow> u32 \<Rightarrow> u32 option" where
  "traverse_path_for_cluster dev d drv raw_path directory_cluster =
     (let (raw_filename, path) = pop_filename_from_front_of_path raw_path in
      Option.bind (translate_filename raw_filename) (\<lambda>filename.
      Option.bind (find_entry dev d drv directory_cluster filename) (\<lambda>found.
        case found of
          None \<Rightarrow> Some (- 1)
        | Some (ce, _) \<Rightarrow>
            if path = raw_filename
            then Some (if \<not> is_directory ce then - 1 else get_cluster_number ce)
            else if \<not> is_directory ce then Some (- 1)
            else traverse_path_for_cluster dev d drv path (get_cluster_number ce))))"
  by auto
termination
  by (relation "measure (\<lambda>(dev, d, drv, raw_path, dir). length raw_path)")
     (simp_all add: pop_filename_decreases)

declare traverse_path_for_cluster.simps [simp del]

section \<open>Reading, writing and listing\<close>

text \<open>\<open>DirectoryEntry::name\<close> has 248 bytes; the copied name is not terminated.\<close>

definition directory_entry :: "u8 \<Rightarrow> ClusterEntry \<Rightarrow> iterator \<Rightarrow> (FileType \<times> u8 list) option" where
  "directory_entry stray ce it =
     do {
       name \<leftarrow> if LongFileName it \<noteq> [] then Some (utf16_to_utf8 (LongFileName it))
               else short_name stray (it_FileName it);
       Some (if is_directory ce then Directory else Regular, take 248 name)
     }"

definition fat_directory_data :: "'d device \<Rightarrow> 'd \<Rightarrow> fat_driver \<Rightarrow> u8 \<Rightarrow> u8 list \<Rightarrow> u64 \<Rightarrow> bool \<Rightarrow>
    (int \<times> (FileType \<times> u8 list) list) option" where
  "fat_directory_data dev d drv stray path max_entry_count out =
     (if max_entry_count = 0 then Some (0, [])
      else if \<not> out then Some (- 1, [])
      else do {
        root \<leftarrow> root_cluster (fat_BR drv);
        directory_cluster \<leftarrow>
          if path \<noteq> [] \<and> path \<noteq> [slash] then traverse_path_for_cluster dev d drv path root
          else Some root;
        if path \<noteq> [] \<and> path \<noteq> [slash] \<and> directory_cluster = - 1 then Some (- 1, [])
        else do {
          entries \<leftarrow> for_each_dir_entry_in dev d drv directory_cluster
            (\<lambda>ce it acc.
               if volume_id ce then Some (acc, False)
               else map_option (\<lambda>e. (acc @ [e], unat max_entry_count \<le> Suc (length acc)))
                      (directory_entry stray ce it)) [];
          Some (int (length entries), entries)
        }
      })"

definition fat_read :: "'d device \<Rightarrow> 'd \<Rightarrow> u64 \<Rightarrow> u64 \<Rightarrow> u64 \<Rightarrow> u8 list \<Rightarrow> int \<times> u8 list" where
  "fat_read dev d driver_data offs sz buffer = dev_read dev (driver_data + offs) sz buffer d"

definition fat_read_raw :: "'d device \<Rightarrow> 'd \<Rightarrow> u64 \<Rightarrow> u64 \<Rightarrow> u8 list \<Rightarrow> int \<times> u8 list" where
  "fat_read_raw dev d offs bytes buffer = dev_read dev offs bytes buffer d"

definition fat_write :: "'d device \<Rightarrow> u64 \<Rightarrow> u64 \<Rightarrow> u64 \<Rightarrow> (nat \<Rightarrow> u8) \<Rightarrow> 'd \<Rightarrow> int \<times> 'd" where
  "fat_write dev driver_data offs sz buffer d = dev_write dev (driver_data + offs) sz buffer d"

definition fat_flush :: int where
  "fat_flush = - 1"

section \<open>Short names\<close>

text \<open>
  A lower-case 8.3 name: \<open>name\<close> or \<open>name.ext\<close>, in characters other than dots, spaces and capitals.
\<close>

definition plain_char :: "u8 \<Rightarrow> bool" where
  "plain_char c \<longleftrightarrow> c \<noteq> dot \<and> c \<noteq> space \<and> \<not> (0x41 \<le> c \<and> c \<le> 0x5a)"

definition name_8_3 :: "u8 list \<Rightarrow> u8 list \<Rightarrow> u8 list" where
  "name_8_3 name ext = (if ext = [] then name else name @ [dot] @ ext)"

definition stored_8_3 :: "u8 list \<Rightarrow> u8 list \<Rightarrow> u8 list" where
  "stored_8_3 name ext =
     map to_upper name @ replicate (8 - length name) space
       @ map to_upper ext @ replicate (3 - length ext) space"

lemma to_upper_cases:
  assumes "97 \<le> c" "c \<le> 122"
  shows "to_upper c = c - 32" "0x41 \<le> to_upper c" "to_upper c \<le> 0x5a"
proof -
  show e: "to_upper c = c - 32" using assms by (simp add: to_upper_def)
  have "(32 :: u8) \<le> c" using assms by (simp add: word_le_nat_alt)
  from unat_sub [OF this] have "unat (c - 32) = unat c - 32" by simp
  then show "0x41 \<le> to_upper c" "to_upper c \<le> 0x5a"
    using assms unfolding e by (simp_all add: word_le_nat_alt)
qed

lemma to_upper_plain:
  assumes "plain_char c"
  shows "to_upper c \<noteq> dot" "to_upper c \<noteq> space" "to_lower (to_upper c) = c"
proof -
  consider "97 \<le> c" "c \<le> 122" | "to_upper c = c" unfolding to_upper_def by presburger
  then have "to_upper c \<noteq> dot \<and> to_upper c \<noteq> space \<and> to_lower (to_upper c) = c"
  proof cases
    case 1
    note u = to_upper_cases [OF 1]
    have "to_lower (to_upper c) = to_upper c + 32" using u(2,3) by (simp add: to_lower_def)
    moreover have "to_upper c \<noteq> dot" "to_upper c \<noteq> space"
      using u(2) by (auto simp: word_le_nat_alt)
    ultimately show ?thesis using u(1) by simp
  qed (use assms in \<open>auto simp: plain_char_def to_lower_def\<close>)
  then show "to_upper c \<noteq> dot" "to_upper c \<noteq> space" "to_lower (to_upper c) = c" by simp_all
qed

lemma map_upper_plain:
  assumes "list_all plain_char cs"
  shows "list_all (\<lambda>c. c \<noteq> dot) (map to_upper cs)" "list_all (\<lambda>c. c \<noteq> space) cs"
    "map to_lower (map to_upper cs) = cs"
  using assms by (induction cs) (simp_all add: to_upper_plain, simp add: plain_char_def)

lemma to_upper_dot [simp]: "to_upper dot = dot"
  by (simp add: to_upper_def)

lemma to_lower_space [simp]: "to_lower space = space"
  by (simp add: to_lower_def)

lemma find_last_dot_None: "list_all (\<lambda>c. c \<noteq> dot) cs \<Longrightarrow> find_last_dot cs = None"
  by (induction cs) simp_all

lemma find_last_dot_Some: "list_all (\<lambda>c. c \<noteq> dot) cs \<Longrightarrow> find_last_dot (xs @ dot # cs) = Some (length xs)"
  by (induction xs) (simp_all add: find_last_dot_None)

lemma erase_padding:
  assumes "list_all (\<lambda>c. c \<noteq> space) s" "s \<noteq> [] \<or> stray \<noteq> space"
  shows "erase_trailing_spaces stray (s @ replicate k space) = Some s"
proof -
  have "dropWhile (\<lambda>c. c = space) (replicate k space @ rev s) = dropWhile (\<lambda>c. c = space) (rev s)"
    by (induction k) simp_all
  also have "\<dots> = rev s"
    using assms(1) by (cases s rule: rev_cases) simp_all
  finally show ?thesis using assms(2) by (auto simp: erase_trailing_spaces_def)
qed

lemma translate_filename_8_3:
  assumes "list_all plain_char name" "list_all plain_char ext"
    and "name \<noteq> []" "length name \<le> 8" "length ext \<le> 3"
  shows "translate_filename (name_8_3 name ext) = Some (stored_8_3 name ext)"
proof (cases "ext = []")
  case True
  have "11 - length name = (8 - length name) + 3" using assms(4) by simp
  then have "replicate (11 - length name) space = replicate (8 - length name) space @ replicate 3 space"
    by (simp only: replicate_add)
  with True assms show ?thesis
    by (simp add: translate_filename_def name_8_3_def stored_8_3_def find_last_dot_None map_upper_plain)
next
  case False
  let ?p = "map to_upper name @ dot # map to_upper ext"
  have p: "map to_upper (name_8_3 name ext) = ?p" using False by (simp add: name_8_3_def)
  have f: "find_last_dot ?p = Some (length name)"
    using find_last_dot_Some [OF map_upper_plain(1) [OF assms(2)], of "map to_upper name"] by simp
  have x: "take 3 (map to_upper ext @ [space, space, space])
      = map to_upper ext @ replicate (3 - length ext) space"
    using assms(5) by (simp add: numeral_3_eq_3 le_Suc_eq length_Suc_conv) (elim disjE exE conjE; simp)
  show ?thesis
  proof (cases "length ?p = 12 \<and> ?p ! 8 = dot")
    case True
    then have "length name = 8" "length ext = 3" using assms(4,5) by simp_all
    with True p show ?thesis by (simp add: translate_filename_def stored_8_3_def)
  next
    case f12: False
    have l: "length ?p \<le> 12" "?p \<noteq> []" "\<not> 8 < length name" using assms(4,5) by simp_all
    show ?thesis
      unfolding translate_filename_def Let_def p if_not_P [OF f12] f
      using l x by (simp add: stored_8_3_def)
  qed
qed

text \<open>
  C33: the name under which a listing shows a file with a lower-case 8.3 name is the name that was
  looked up: the translation of the name to the stored form is undone by the listing.  The listing
  of a file without extension also depends on the byte before an empty string.
\<close>

theorem short_name_roundtrip:
  assumes "list_all plain_char name" "list_all plain_char ext"
    and "name \<noteq> []" "length name \<le> 8" "length ext \<le> 3" "stray \<noteq> space"
  shows "\<exists>stored. translate_filename (name_8_3 name ext) = Some stored \<and> length stored = 11
    \<and> short_name stray stored = Some (name_8_3 name ext)"
proof -
  let ?t = "stored_8_3 name ext"
  have l: "length ?t = 11" using assms(4,5) by (simp add: stored_8_3_def)
  have "take 8 (map to_lower ?t) = name @ replicate (8 - length name) space"
    using assms(4) by (simp add: stored_8_3_def map_upper_plain(3) [OF assms(1), unfolded map_map] take_map)
  moreover have "take 3 (drop 8 (map to_lower ?t)) = ext @ replicate (3 - length ext) space"
    using assms(4,5)
    by (simp add: stored_8_3_def map_upper_plain(3) [OF assms(2), unfolded map_map] drop_map take_map)
  ultimately have "short_name stray ?t = Some (name_8_3 name ext)"
    using l assms(3,6) erase_padding [OF map_upper_plain(2) [OF assms(1)], of stray "8 - length name"]
      erase_padding [OF map_upper_plain(2) [OF assms(2)], of stray "3 - length ext"]
    by (simp only: short_name_def Let_def if_True simp_thms bind_eq_Some_conv) (simp add: name_8_3_def)
  with translate_filename_8_3 [OF assms(1-5)] l show ?thesis by blast
qed

theorem short_name_roundtrip_witness:
  "\<exists>stored. translate_filename (name_8_3 [0x66, 0x6f, 0x6f] [0x61]) = Some stored \<and> length stored = 11
    \<and> short_name 0 stored = Some [0x66, 0x6f, 0x6f, 0x2e, 0x61]"
  using short_name_roundtrip [of "[0x66, 0x6f, 0x6f]" "[0x61]" 0]
  by (simp add: plain_char_def name_8_3_def)

section \<open>Directories of one cluster\<close>

text \<open>
  Entries of files and directories without long names, and the entry that ends a directory.
\<close>

definition file_entry :: "u8 list \<Rightarrow> bool" where
  "file_entry e \<longleftrightarrow> length e = 32 \<and> e ! 0 \<noteq> 0 \<and> e ! 0 \<noteq> 0xe5 \<and> \<not> long_file_name (parse_cluster_entry e)"

definition end_entry :: "u8 list \<Rightarrow> bool" where
  "end_entry e \<longleftrightarrow> length e = 32 \<and> e ! 0 = 0 \<and> get_cluster_number (parse_cluster_entry e) = 0"

definition entry_position :: "fat_driver \<Rightarrow> u8 list \<Rightarrow> u64" where
  "entry_position drv e =
     the (cluster_to_sector (fat_BR drv) (ucast (get_cluster_number (parse_cluster_entry e))))
       * ucast (NumBytesPerSector (BPB (fat_BR drv)))"

lemma length_concat_32: "list_all (\<lambda>e. length e = 32) es \<Longrightarrow> length (concat es) = 32 * length es"
  by (induction es) simp_all

lemma entry_at_nth:
  assumes "ClusterContents it = concat (pre @ e # post) @ tail" "it_CE it = length pre"
    and "list_all (\<lambda>e. length e = 32) pre" "length e = 32"
  shows "entry_at it = Some e"
  using assms length_concat_32 [OF assms(3)] by (simp add: entry_at_def)

lemma cluster_to_sector_Some:
  "NumBytesPerSector (BPB br) \<noteq> 0 \<Longrightarrow> cluster_to_sector br c = Some (the (cluster_to_sector br c))"
  by (simp add: cluster_to_sector_def first_data_sector_def root_directory_sectors_def)

lemma iterate_clusters_file:
  assumes "entry_at it = Some e" "file_entry e" "LongFileName it = []" "MoreClusters it"
    and "NumBytesPerSector (BPB (fat_BR drv)) \<noteq> 0"
  shows "iterate_clusters dev d drv it =
    Some (it\<lparr>ClearLFN := True, it_FileName := take 11 e, ByteOffset := entry_position drv e\<rparr>)"
proof -
  let ?c = "ucast (get_cluster_number (parse_cluster_entry e)) :: u64"
  have f: "ce_FileName (parse_cluster_entry e) = take 11 e" by (simp add: parse_cluster_entry_def)
  have "scan_entries drv it =
      Some (True, it\<lparr>ClearLFN := True, it_FileName := take 11 e, ByteOffset := entry_position drv e\<rparr>)"
    using assms cluster_to_sector_Some [OF assms(5), of ?c] f
    by (subst scan_entries.simps)
       (auto simp: file_entry_def remove_trailing_ff_def entry_position_def Let_def)
  with assms(4) show ?thesis by (subst iterate_clusters.simps) simp
qed

lemma ucast_u16_zero: "(ucast (x :: u16) :: u64) = 0 \<longleftrightarrow> x = 0"
proof -
  have "unat (ucast x :: u64) = unat x"
    using unsigned_less [where ?'a = nat, of x] by (simp add: unsigned_ucast_eq take_bit_nat_eq_self)
  then show ?thesis by (metis unat_0_iff unsigned_0)
qed

lemma iterate_clusters_end:
  assumes "entry_at it = Some e" "end_entry e" "MoreClusters it"
    and "NumBytesPerSector (BPB (fat_BR drv)) \<noteq> 0"
  shows "iterate_clusters dev d drv it = Some (it\<lparr>MoreClusters := False\<rparr>)"
proof -
  have "scan_entries drv it = Some (False, it)"
    using assms(1,2) by (subst scan_entries.simps) (simp add: end_entry_def)
  moreover have "(ucast (NumBytesPerSector (BPB (fat_BR drv))) :: u64) \<noteq> 0"
    using assms(4) by (simp add: ucast_u16_zero)
  then have "TryReadNextCluster dev d drv it = Some (it\<lparr>MoreClusters := False\<rparr>)"
    using assms by (simp add: TryReadNextCluster_def end_entry_def fat_offset_def Let_def
        split: FATType.split)
  ultimately show ?thesis
    using assms(3) by (subst iterate_clusters.simps) (simp add: iterate_clusters.simps)
qed

definition find_body :: "u8 list \<Rightarrow> ClusterEntry \<Rightarrow> iterator \<Rightarrow> (ClusterEntry \<times> u64) option \<Rightarrow>
    ((ClusterEntry \<times> u64) option \<times> bool) option" where
  "find_body filename ce it acc =
     Some (if it_FileName it \<noteq> filename \<and> LongFileName it \<noteq> filename then (acc, False)
           else (Some (ce, ByteOffset it), True))"

lemma find_from_entry:
  assumes "NumBytesPerSector (BPB (fat_BR drv)) \<noteq> 0" "filename \<noteq> []"
    and "list_all file_entry es" "end_entry z" "list_all (\<lambda>e. length e = 32) pre"
    and "ClusterContents it = concat (pre @ es @ [z]) @ tail" "it_CE it = length pre"
    and "LongFileName it = []" "MoreClusters it"
  shows "Option.bind (iterate_clusters dev d drv it) (for_each_entry dev d drv (find_body filename) None)
    = Some (map_option (\<lambda>e. (parse_cluster_entry e, entry_position drv e))
              (find (\<lambda>e. take 11 e = filename) es))"
  using assms(3,5-9)
proof (induction es arbitrary: pre it)
  case Nil
  have "entry_at it = Some z"
    using Nil assms(4) by (intro entry_at_nth [of it pre z "[]" tail]) (simp_all add: end_entry_def)
  then have "iterate_clusters dev d drv it = Some (it\<lparr>MoreClusters := False\<rparr>)"
    using Nil.prems(6) by (intro iterate_clusters_end [OF _ assms(4) _ assms(1)])
  then show ?case by (simp add: for_each_entry.simps)
next
  case (Cons e es)
  let ?it = "it\<lparr>ClearLFN := True, it_FileName := take 11 e, ByteOffset := entry_position drv e\<rparr>"
  have e: "file_entry e" "length e = 32" using Cons.prems(1) by (simp_all add: file_entry_def)
  have at: "entry_at it = Some e"
    using Cons.prems e by (intro entry_at_nth [of it pre e "es @ [z]" tail]) simp_all
  then have at': "entry_at ?it = Some e" by (simp add: entry_at_def split: if_splits)
  have step: "iterate_clusters dev d drv it = Some ?it"
    by (rule iterate_clusters_file [OF at e(1) Cons.prems(5,6) assms(1)])
  have "Option.bind (iterate_clusters dev d drv (?it\<lparr>it_CE := Suc (it_CE it)\<rparr>))
        (for_each_entry dev d drv (find_body filename) None)
      = Some (map_option (\<lambda>e. (parse_cluster_entry e, entry_position drv e))
              (find (\<lambda>e. take 11 e = filename) es))"
    using Cons.prems e by (intro Cons.IH [of "pre @ [e]"]) simp_all
  moreover have "find_body filename (parse_cluster_entry e) ?it None
      = Some (if take 11 e \<noteq> filename then (None, False)
              else (Some (parse_cluster_entry e, entry_position drv e), True))"
    using assms(2) Cons.prems(5) by (simp add: find_body_def)
  ultimately show ?case
    using step at' Cons.prems(6)
    by (simp add: for_each_entry.simps [of dev d drv _ _ ?it] iterator_next_def)
qed

text \<open>
  C34: in a directory that fits one cluster and has no deleted and no long-named entries, the lookup
  always ends, and its result is the first entry with the stored name among all entries but the
  first, which is never visited.
\<close>

theorem directory_lookup:
  assumes "NumBytesPerSector (BPB (fat_BR drv)) \<noteq> 0" "filename \<noteq> []"
    and "length first = 32" "list_all file_entry es" "end_entry z"
    and "cluster_to_sector (fat_BR drv) (ucast dir) = Some sector"
    and "snd (dev_read dev (sector * ucast (NumBytesPerSector (BPB (fat_BR drv))))
            (cluster_size (BPB (fat_BR drv)))
            (dev_fresh dev (unat (cluster_size (BPB (fat_BR drv))))) d) = concat (first # es @ [z]) @ tail"
  shows "find_entry dev d drv dir filename
    = Some (map_option (\<lambda>e. (parse_cluster_entry e, entry_position drv e))
              (find (\<lambda>e. take 11 e = filename) es))"
proof -
  let ?it = "\<lparr>it_ClusterIndex = dir, ClusterContents = concat (first # es @ [z]) @ tail,
                LastFATSector = 0, MoreClusters = True, ClearLFN = False, it_CE = Suc 0, ByteOffset = 0,
                it_FileName = [], LongFileName = []\<rparr>"
  have "iterator_begin dev d drv dir = iterate_clusters dev d drv ?it"
    using assms(6,7)
    by (simp add: iterator_begin_def ReadNextCluster_def iterator_next_def Let_def split_beta)
  moreover have "Option.bind (iterate_clusters dev d drv ?it) (for_each_entry dev d drv (find_body filename) None)
    = Some (map_option (\<lambda>e. (parse_cluster_entry e, entry_position drv e))
              (find (\<lambda>e. take 11 e = filename) es))"
    using assms(1-5) by (intro find_from_entry [of drv filename es z "[first]" _ tail]) simp_all
  ultimately show ?thesis
    by (simp add: find_entry_def for_each_dir_entry_in_def flip: find_body_def)
qed

text \<open>A volume whose root directory is the label, one file and the end.\<close>

definition sample_label :: "u8 list" where
  "sample_label = [0x4c, 0x45, 0x4e, 0x53, 0x4f, 0x52, 0x20, 0x20, 0x20, 0x20, 0x20, 8] @ replicate 20 0"

definition sample_file :: "u8 list" where
  "sample_file = [0x46, 0x4f, 0x4f, 0x20, 0x20, 0x20, 0x20, 0x20, 0x41, 0x20, 0x20, 0] @ replicate 14 0
     @ [5, 0, 7, 0, 0, 0]"

definition sample_device :: "u8 list device" where
  "sample_device =
     \<lparr>dev_read = (\<lambda>off n buf bytes. (int (unat n), bytes)), dev_write = (\<lambda>off n buf bytes. (- 1, bytes)),
      dev_fresh = (\<lambda>n. [])\<rparr>"

definition sample_driver :: fat_driver where
  "sample_driver =
     \<lparr>fat_BR = \<lparr>BPB = \<lparr>NumBytesPerSector = 512, NumSectorsPerCluster = 1, NumReservedSectors = 32,
                        NumFATsPresent = 2, NumEntriesInRoot = 0, TotalSectors16 = 0,
                        NumSectorsPerFAT = 0, TotalSectors32 = 70000\<rparr>,
                NumSectorsPerFAT32 = 540, Magic = 0xaa55\<rparr>,
      fat_Type = FAT32\<rparr>"

theorem directory_lookup_witness:
  "find_entry sample_device (concat (sample_label # [sample_file] @ [replicate 32 0]) @ []) sample_driver 2
     (take 11 sample_file)
   = Some (Some (parse_cluster_entry sample_file, entry_position sample_driver sample_file))"
proof -
  have r: "cluster_to_sector (fat_BR sample_driver) (ucast (2 :: u32)) = Some 1112" by code_simp
  have f: "list_all file_entry [sample_file]" "end_entry (replicate 32 0)" by code_simp+
  have n: "NumBytesPerSector (BPB (fat_BR sample_driver)) \<noteq> 0" "take 11 sample_file \<noteq> []"
    "length sample_label = 32" by code_simp+
  have d: "snd (dev_read sample_device off k buf bytes) = bytes" for off k buf bytes
    by (simp add: sample_device_def)
  show ?thesis unfolding directory_lookup [OF n f r d] by simp
qed

text \<open>A deleted entry is tested for ever: the iteration that meets one has no result.\<close>

lemma deleted_entry_hangs:
  assumes "entry_at it = Some e" "e ! 0 = 0xe5" "MoreClusters it"
  shows "iterate_clusters dev d drv it = None"
proof -
  have "scan_entries drv it = None" using assms by (subst scan_entries.simps) simp
  with assms(3) show ?thesis by (subst iterate_clusters.simps) simp
qed

text \<open>A boot record with zero sectors per cluster passes the checks and is divided by.\<close>

lemma zero_cluster_size_faults:
  assumes "dev_read dev 0 512 (dev_fresh dev 512) d = (512, bytes)"
    and "parse_boot_record bytes = br"
    and "Magic br = 0xaa55" "TotalSectors16 (BPB br) \<noteq> 0" "NumBytesPerSector (BPB br) = 512"
    and "NumSectorsPerCluster (BPB br) = 0" "0 < NumFATsPresent (BPB br)"
  shows "fat_try_create dev d = None"
  using assms by (auto simp: fat_try_create_def fat_type_def total_clusters_def ucast_u16_zero Let_def)

end
