(* ===== verification/Spec2Isabelle.thy ===== *)
theory Spec2Isabelle
  imports PageMapClone HeapAllocator LinkedList Fork ElfStack Syscalls ChannelTypes
    KernelMemory SpinlockModel Gpt Fat
begin

text \<open>
  A verification library for LensorOS, a 64-bit operating system for x86 written in C++
  (\<open>src/kernel/src\<close>, below \<open>K\<close>, and the containers of \<open>src/std/include\<close>).

  \<^bold>\<open>The program.\<close>  The kernel owns physical memory as a bitmap of pages.  Page maps, the heap and the
  memory of processes are built from its pages.  Processes are kept in a linked list that the timer
  interrupt walks round-robin; they run ELF programs, are made by \<open>fork\<close> and \<open>exec\<close> and end with
  \<open>exit\<close> and \<open>waitpid\<close>.  They talk to the kernel through system calls, and to files, pipes, sockets
  and the keyboard through descriptors: a table of each process leads to the table of open files of
  the virtual file system, and the driver of an open file does the work.  A read that finds nothing
  puts the process to sleep and the scheduler runs another one; the matching write wakes it up.
  Mounted volumes are FAT file systems on partitions of SATA disks.

  \<^bold>\<open>Conventions.\<close>  A C++ integer of width \<open>w\<close> is a \<open>w word\<close>, with wrap-around; a class is a
  record with the names of its members; an operation is a function from state to result and state.
  Objects on the heap have addresses of type \<open>obj\<close> in a store, \<open>0\<close> is the null pointer.  Errors the
  code reports are values of the results.  \<open>None\<close> is undefined behaviour (null or dangling access,
  access outside an array, division by zero) or a call that never returns.  There is no fuel:
  loops are structural recursions, functions with a measure, or \<open>partial_function (option)\<close> where a
  loop may not end; the theorems show the value \<open>Some\<close>.

  \<^bold>\<open>Theories.\<close>
  \<^item> \<open>LensorPrelude\<close>: integer types, named collections, facts on words, lists and counted loops.
  \<^item> \<open>BitmapModel\<close> (\<open>K/bitmap.h\<close>, \<open>bitmap.cpp\<close>): the bitmap, and the interface \<open>bit_table\<close>.
  \<^item> \<open>PhysicalMemory\<close> (\<open>K/memory/physical_memory_manager.cpp\<close>): locking and freeing of pages,
    \<open>request_page\<close> and \<open>request_pages\<close>.  The counters agree with the bitmap over all runs; the
    allocators return the lowest page and the first fit; freeing undoes a request.
  \<^item> \<open>Paging\<close>, \<open>VirtualMemory\<close> (\<open>K/memory/paging.h\<close>, \<open>virtual_memory_manager.cpp\<close>): entries,
    the indexer, mapping, unmapping, cloning and freeing of four-level page maps over a source of
    pages (\<open>page_source\<close>).  \<open>PageMapping\<close> shows that map and unmap change exactly one translation
    and what \<open>init_virtual\<close> maps; \<open>PageMapClone\<close> that the two clones translate as the original
    and that freeing a page map releases exactly its tables (\<open>page_pool\<close>).
  \<^item> \<open>HeapAllocator\<close> (\<open>K/memory/heap.cpp\<close>): the heap as a list of segments in memory; malloc
    returns fresh aligned blocks, free merges, and no run makes blocks overlap.
  \<^item> \<open>LinkedList\<close> (\<open>K/linked_list.h\<close>): nodes in a store, refined to lists.
  \<^item> \<open>Containers\<close> (\<open>extensions_sparse_vector\<close>, \<open>extensions_ring_buffer\<close>,
    \<open>extensions_double_ended_queue\<close>), with the interface \<open>slot_table\<close>.
  \<^item> \<open>KernelState\<close>: processes, files, channels and the record \<open>system\<close> (\<open>K/scheduler.h\<close>,
    \<open>file_metadata.h\<close>, \<open>pipe.h\<close>, \<open>socket.h\<close>, \<open>input.h\<close>).
  \<^item> \<open>Channels\<close> (\<open>K/storage/filesystem_drivers/pipe.cpp\<close>, \<open>socket.cpp\<close>, \<open>input.cpp\<close>,
    \<open>dbgout.h\<close>): reading, writing and closing.  \<open>byte_channel\<close> is the contract of a channel;
    pipes, both directions of a socket and the keyboard are instances, which gives the order of
    bytes.  Blocked readers are woken; closing means end of file.  \<open>ChannelTypes\<close>: every call
    keeps the sizes of the buffers.
  \<^item> \<open>Vfs\<close> (\<open>K/virtual_filesystem.cpp\<close>, \<open>.h\<close>): descriptors, owners of open files, dispatch to
    drivers.  The invariant ties tables and owner counts together over all interleavings.
  \<^item> \<open>Events\<close> (\<open>K/event.h\<close>, \<open>event.cpp\<close>): listeners, filters, queues of events.
  \<^item> \<open>Scheduler\<close> (\<open>K/scheduler.cpp\<close>): choice of the next process, switching, end and copy of a
    process.  Switches are fair and keep registers.  \<open>Fork\<close>: the child shares the descriptors.
  \<^item> \<open>Elf\<close>, \<open>ElfStack\<close> (\<open>K/elf_loader.h\<close>, \<open>elf.h\<close>): loading, and the layout of the first stack.
  \<^item> \<open>Clock\<close> (\<open>K/rtc.cpp\<close>, \<open>time.h\<close>): decoding of the clock and the time given to programs.
  \<^item> \<open>Syscalls\<close> (\<open>K/interrupts/syscalls.cpp\<close>): all system calls but \<open>poke\<close>, over the components
    above; what reaches the parent of a process that exits, and a read that blocks.
  \<^item> \<open>KernelMemory\<close> (\<open>K/memory.cpp\<close>): \<open>memcmp\<close>, \<open>memcpy\<close>, \<open>memset\<close> and \<open>memmove\<close>; the chunked
    loops are the single copies and fills that the other theories use.
  \<^item> \<open>SpinlockModel\<close> (\<open>K/spinlock.cpp\<close>): the lock with threads in any interleaving.
  \<^item> \<open>Storage\<close> (\<open>K/ahci.h\<close>, \<open>ahci.cpp\<close>, \<open>storage/device_drivers\<close>): commands on the wire, the port
    driver and the partition driver.  The controller with its disk is the parameter \<open>hba\<close>;
    \<open>ata_disk\<close> is the hypothesis that it transfers sectors as the ATA standard says, and
    \<open>ram_disk\<close> an instance.
  \<^item> \<open>Gpt\<close> (\<open>K/gpt.h\<close>, \<open>gpt.cpp\<close>, \<open>kstage1.cpp\<close>): partition tables and which partitions are used.
  \<^item> \<open>Utf\<close> (\<open>K/utf.cpp\<close>): the two conversions of names.
  \<^item> \<open>Fat\<close> (\<open>K/fat_definitions.h\<close>, \<open>storage/filesystem_drivers/file_allocation_table.cpp\<close>, \<open>.h\<close>):
    volumes, names, directories, lookup and listing, over the interface \<open>device\<close> of
    \<open>StorageDeviceDriver\<close>.

  \<^bold>\<open>Interfaces and parameters.\<close>  The locales named above state what a client relies on, and each is
  interpreted on the definitions of the provider.  Parameters stand for what is outside the
  sources or reached through virtual functions: the operations \<open>fs_ops\<close> of a mounted volume in
  \<open>Vfs\<close>, the storage device in \<open>Fat\<close>, the disk controller in \<open>Storage\<close>, and the contents of
  uninitialised memory.  \<open>Vfs\<close> takes the operations of a volume as total, while those of \<open>Fat\<close>
  have no result on volumes that make the driver loop, so the two are not joined.

  \<^bold>\<open>Behaviour that is not intended.\<close>  Some theorems state what the code does where this is not what
  it means to do: the bound of the search of \<open>request_pages\<close>, the owner left behind by a blocked
  read, the spinlock, writes of whole sectors, sectors beyond 8 GiB, the skipped first entry of a
  directory; lemmas of the theories show others (double frees, a stale tail pointer, lost events,
  wrapped socket writes, deleted directory entries, surrogate pairs, the calendar).

  \<^bold>\<open>Not modelled.\<close>  The boot loader and gnu-efi, and \<open>init_physical\<close>, which walks the memory map of
  the firmware; descriptor tables, interrupt entry, timers, PCI, ACPI, the network card, the serial
  port, keyboard and mouse hardware, whose code is accesses to ports and registers; the renderer
  and all printing; the random number generators, which nothing modelled uses; the assembly
  stubs; user programs and their C library.  Of the devices and the first stage of the kernel only
  the search for partitions is modelled.  Caches, other processors and interrupts in the middle of a
  kernel operation are outside the model: an operation of the kernel is atomic, but for the lock.
\<close>

end
